(* ===== verification/Prelude.thy ===== *)
theory Prelude
  imports Main "HOL-Library.Word" "HOL-Library.Multiset" "HOL-Library.Sublist"
begin

text \<open>
  Shared vocabulary of the development: the Go types the broker is written in (bytes,
  fixed-width integers, durations, instants), the result of a Go computation that may
  panic, Go errors as values, and the generic facts on lists and maps that the component
  theories use.

  Conventions.
  \<^item> A Go \<open>string\<close> is a byte sequence, an Isabelle \<open>string\<close> (a list of 8-bit characters).
  \<^item> \<open>int32\<close>, \<open>int64\<close>, \<open>uint32\<close> are words of that width; signed readings use \<open>sint\<close>.
  \<^item> A \<open>time.Time\<close> is its number of nanoseconds since the Unix epoch, an \<open>int\<close>
    (\<open>time.Time\<close> itself does not wrap; only \<open>UnixNano\<close> does).
  \<^item> A \<open>[]byte\<close> that may be nil is \<open>byte list option\<close>.
\<close>

type_synonym byte = "8 word"
type_synonym bytes = "8 word list"
type_synonym int32 = "32 word"
type_synonym uint32 = "32 word"
type_synonym int64 = "64 word"
type_synonym duration = "64 word"
type_synonym time = int
type_synonym MessageID = string

text \<open>The frame facts of the operations.\<close>

named_theorems frame_simps "parts of the state an operation leaves alone"

subsection \<open>Computations that may panic\<close>

datatype 'a outcome = Panic | Ret 'a

fun bind_outcome :: "'a outcome \<Rightarrow> ('a \<Rightarrow> 'b outcome) \<Rightarrow> 'b outcome" where
  "bind_outcome Panic f = Panic"
| "bind_outcome (Ret x) f = f x"

lemma bind_outcome_eq_Panic [simp]:
  "bind_outcome m f = Panic \<longleftrightarrow> m = Panic \<or> (\<exists>x. m = Ret x \<and> f x = Panic)"
  by (cases m) auto

lemma bind_outcome_eq_Ret [simp]:
  "bind_outcome m f = Ret y \<longleftrightarrow> (\<exists>x. m = Ret x \<and> f x = Ret y)"
  by (cases m) auto

text \<open>\<open>buf[lo:hi]\<close> panics unless \<open>lo \<le> hi \<le> len(buf)\<close> (the slices of the WAL code have
  a capacity that is their length or are bounded by an earlier length check).\<close>

definition slice :: "'a list \<Rightarrow> nat \<Rightarrow> nat \<Rightarrow> 'a list outcome" where
  "slice xs lo hi =
     (if lo \<le> hi \<and> hi \<le> length xs then Ret (take (hi - lo) (drop lo xs)) else Panic)"

lemma slice_eq_Panic [simp]: "slice xs lo hi = Panic \<longleftrightarrow> hi < lo \<or> length xs < hi"
  by (auto simp: slice_def)

lemma slice_ok: "lo \<le> hi \<Longrightarrow> hi \<le> length xs \<Longrightarrow> slice xs lo hi = Ret (take (hi - lo) (drop lo xs))"
  by (simp add: slice_def)

subsection \<open>Go errors\<close>

text \<open>
  The error values the broker's code distinguishes or creates. \<open>ErrWrap\<close> is
  \<open>fmt.Errorf("prefix: %w", err)\<close>; a nil error is \<open>None\<close> in an \<open>error option\<close>.
  \<open>ErrPanic\<close> is not a Go value: it marks a panic of the record decoder on its way up, which
  every caller passes on without running the rest of its body.
\<close>

datatype error =
    ErrNotExist
  | ErrIO
  | ErrShortWrite
  | ErrClosed
  | ErrInvalid
  | ErrMarshal
  | ErrShuttingDown
  | ErrQueueNotFound string
  | ErrRand
  | ErrPanic
  | ErrWrap string "error option"

text \<open>\<open>if err != nil && firstErr == nil { firstErr = err }\<close>.\<close>

definition first_err :: "error option \<Rightarrow> error option \<Rightarrow> error option" where
  "first_err firstErr err = (if err \<noteq> None \<and> firstErr = None then err else firstErr)"

lemma first_err_simps [simp]:
  "first_err (Some e) err = Some e"
  "first_err None err = err"
  "first_err fe None = fe"
  by (auto simp: first_err_def)

subsection \<open>Signed words\<close>

lemma sint_word_of_int_inv:
  assumes "- (2 ^ (LENGTH('a) - 1)) \<le> x" and "x < 2 ^ (LENGTH('a) - 1)"
  shows "sint (word_of_int x :: 'a::len word) = x"
  using assms by (simp add: sint_sbintrunc' signed_take_bit_int_eq_self)

lemma sint_range: "- (2 ^ (LENGTH('a) - 1)) \<le> sint (w :: 'a::len word)"
  "sint (w :: 'a::len word) < 2 ^ (LENGTH('a) - 1)"
  using sint_range_size [of w] by (auto simp: word_size)

text \<open>An increment below some other value of the same width does not wrap.\<close>

lemma sint_plus_one:
  assumes "sint (a :: 'a::len word) < sint (b :: 'a word)"
  shows "sint (a + 1) = sint a + 1"
proof -
  have "a + 1 = word_of_int (sint a + 1)" by simp
  moreover have "- (2 ^ (LENGTH('a) - 1)) \<le> sint a + 1" "sint a + 1 < 2 ^ (LENGTH('a) - 1)"
    using sint_range [of a] sint_range [of b] assms by linarith+
  ultimately show ?thesis by (simp only: sint_word_of_int_inv)
qed

subsection \<open>Instants and durations\<close>

definition time_zero :: time where
  "time_zero = -62135596800000000000"

definition time_Add :: "time \<Rightarrow> duration \<Rightarrow> time" where
  "time_Add t d = t + sint d"

definition time_Before :: "time \<Rightarrow> time \<Rightarrow> bool" where
  "time_Before t u \<longleftrightarrow> t < u"

definition UnixNano :: "time \<Rightarrow> int64" where
  "UnixNano t = word_of_int t"

definition time_Unix0 :: "int64 \<Rightarrow> time" where
  "time_Unix0 ns = sint ns"

definition nano_range :: "time \<Rightarrow> bool" where
  "nano_range t \<longleftrightarrow> -(2 ^ 63) \<le> t \<and> t < 2 ^ 63"

lemma time_Unix0_UnixNano: "nano_range t \<Longrightarrow> time_Unix0 (UnixNano t) = t"
  by (simp add: time_Unix0_def UnixNano_def nano_range_def sint_word_of_int_inv)

lemma UnixNano_time_Unix0 [simp]: "UnixNano (time_Unix0 ns) = ns"
  by (simp add: time_Unix0_def UnixNano_def)

lemma nano_range_time_Unix0 [simp]: "nano_range (time_Unix0 ns)"
  using sint_range_size [of ns] by (simp add: nano_range_def time_Unix0_def word_size)

subsection \<open>strings.HasSuffix and strings.TrimSuffix\<close>

definition HasSuffix :: "string \<Rightarrow> string \<Rightarrow> bool" where
  "HasSuffix s suf \<longleftrightarrow>
     length suf \<le> length s \<and> drop (length s - length suf) s = suf"

definition TrimSuffix :: "string \<Rightarrow> string \<Rightarrow> string" where
  "TrimSuffix s suf = (if HasSuffix s suf then take (length s - length suf) s else s)"

lemma HasSuffix_iff: "HasSuffix s suf \<longleftrightarrow> (\<exists>p. s = p @ suf)"
proof
  assume "HasSuffix s suf"
  then have "s = take (length s - length suf) s @ suf"
    by (metis HasSuffix_def append_take_drop_id)
  then show "\<exists>p. s = p @ suf" by blast
qed (auto simp: HasSuffix_def)

lemma HasSuffix_append [simp]: "HasSuffix (p @ suf) suf"
  by (auto simp: HasSuffix_iff)

lemma TrimSuffix_append [simp]: "TrimSuffix (p @ suf) suf = p"
  by (simp add: TrimSuffix_def)

subsection \<open>Maps as Go maps\<close>

text \<open>
  Go's \<open>range\<close> over a map visits every key once, in an order the language leaves open.
  An operation that ranges over a map takes that order as an argument; \<open>range_order\<close> says
  that it is one the language allows.
\<close>

definition range_order :: "'k list \<Rightarrow> ('k \<rightharpoonup> 'v) \<Rightarrow> bool" where
  "range_order ks m \<longleftrightarrow> distinct ks \<and> set ks = dom m"

lemma range_orderD:
  assumes "range_order ks m"
  shows "distinct ks" and "set ks = dom m" and "k \<in> set ks \<longleftrightarrow> m k \<noteq> None"
  using assms by (auto simp: range_order_def)

subsection \<open>Runs\<close>

text \<open>Runs of a step relation whose steps have labels, with the labels of all steps in order.\<close>

inductive trace :: "('s \<Rightarrow> 'l list \<Rightarrow> 's \<Rightarrow> bool) \<Rightarrow> 's \<Rightarrow> 'l list \<Rightarrow> 's \<Rightarrow> bool" for step where
  trace_refl [intro]: "trace step s [] s"
| trace_more: "trace step s ls s' \<Longrightarrow> step s' ls' s'' \<Longrightarrow> trace step s (ls @ ls') s''"

lemma trace_trans: "trace step s' ls' s'' \<Longrightarrow> trace step s ls s' \<Longrightarrow> trace step s (ls @ ls') s''"
proof (induction rule: trace.induct)
  case (trace_more s ls s' ls' s'')
  from trace.trace_more [OF trace_more.IH [OF trace_more.prems] trace_more.hyps(2)] show ?case by (simp only: append_assoc)
qed (simp only: append_Nil2)

lemma trace1:
  assumes "step s ls s'" shows "trace step s ls s'"
proof -
  have "trace step s ([] @ ls) s'" by (rule trace_more [of step s "[]" s ls s', OF trace_refl assms])
  then show ?thesis by (simp only: append_Nil)
qed

lemma trace_append: "trace step s ls s' \<Longrightarrow> trace step s' ls' s'' \<Longrightarrow> ls'' = ls @ ls' \<Longrightarrow> trace step s ls'' s''"
  by (simp only: trace_trans [of step s' ls' s'' s ls])

text \<open>What an invariant of runs has to show: a predicate on the labels so far and the state that
  every step carries over.\<close>

locale trace_invariant =
  fixes step :: "'s \<Rightarrow> 'l list \<Rightarrow> 's \<Rightarrow> bool" and I :: "'l list \<Rightarrow> 's \<Rightarrow> bool"
  assumes I_step: "I ls s \<Longrightarrow> step s ls' s' \<Longrightarrow> I (ls @ ls') s'"
begin

lemma trace_I_from: "trace step s ls s' \<Longrightarrow> I ls0 s \<Longrightarrow> I (ls0 @ ls) s'"
proof (induction rule: trace.induct)
  case (trace_more s ls s' ls' s'')
  then show ?case using I_step [of "ls0 @ ls" s' ls' s''] by simp
qed simp

lemma trace_I: "trace step s ls s' \<Longrightarrow> I [] s \<Longrightarrow> I ls s'"
  using trace_I_from [of s ls s' "[]"] by simp

end

end
