(* ===== verification/Utf8.thy ===== *)
theory Utf8
  imports Prelude
begin

text \<open>
  Package \<open>unicode/utf8\<close>, as \<open>encoding/json\<close> uses it: decoding the first rune of a byte
  string (an ill-formed prefix is \<open>RuneError\<close> of width 1), encoding a rune, and the
  well-formed strings. The main fact is that re-encoding a decoded rune gives back the
  bytes it was decoded from.
\<close>

abbreviation ord :: "char \<Rightarrow> nat" where
  "ord c \<equiv> of_char c"

definition RuneError :: nat where
  "RuneError = 65533"

definition cont :: "nat \<Rightarrow> nat \<Rightarrow> char \<Rightarrow> bool" where
  "cont lo hi c \<longleftrightarrow> lo \<le> ord c \<and> ord c \<le> hi"

text \<open>The range of the second byte that the leading byte allows (Unicode, table 3-7).\<close>

definition second_range :: "nat \<Rightarrow> nat \<times> nat" where
  "second_range b =
     (if b = 224 then (160, 191) else if b = 237 then (128, 159)
      else if b = 240 then (144, 191) else if b = 244 then (128, 143) else (128, 191))"

definition cont2 :: "char \<Rightarrow> char \<Rightarrow> bool" where
  "cont2 c0 c1 \<longleftrightarrow> cont (fst (second_range (ord c0))) (snd (second_range (ord c0))) c1"

abbreviation tail6 :: "char \<Rightarrow> nat" where
  "tail6 c \<equiv> ord c mod 64"

text \<open>\<open>utf8.DecodeRune\<close>: the rune and its width.\<close>

definition DecodeRune :: "string \<Rightarrow> nat \<times> nat" where
  "DecodeRune s =
     (case s of
        [] \<Rightarrow> (RuneError, 0)
      | c0 # s1 \<Rightarrow>
          if ord c0 < 128 then (ord c0, 1)
          else if 194 \<le> ord c0 \<and> ord c0 \<le> 223 then
            (case s1 of c1 # _ \<Rightarrow>
               if cont 128 191 c1 then ((ord c0 mod 32) * 64 + tail6 c1, 2) else (RuneError, 1)
             | _ \<Rightarrow> (RuneError, 1))
          else if 224 \<le> ord c0 \<and> ord c0 \<le> 239 then
            (case s1 of c1 # c2 # _ \<Rightarrow>
               if cont2 c0 c1 \<and> cont 128 191 c2
               then (((ord c0 mod 16) * 64 + tail6 c1) * 64 + tail6 c2, 3) else (RuneError, 1)
             | _ \<Rightarrow> (RuneError, 1))
          else if 240 \<le> ord c0 \<and> ord c0 \<le> 244 then
            (case s1 of c1 # c2 # c3 # _ \<Rightarrow>
               if cont2 c0 c1 \<and> cont 128 191 c2 \<and> cont 128 191 c3
               then ((((ord c0 mod 8) * 64 + tail6 c1) * 64 + tail6 c2) * 64 + tail6 c3, 4)
               else (RuneError, 1)
             | _ \<Rightarrow> (RuneError, 1))
          else (RuneError, 1))"

text \<open>\<open>utf8.EncodeRune\<close>: surrogates and values above U+10FFFF become U+FFFD.\<close>

definition encode3 :: "nat \<Rightarrow> string" where
  "encode3 r = [char_of (224 + r div 4096), char_of (128 + r div 64 mod 64),
     char_of (128 + r mod 64)]"

definition EncodeRune :: "nat \<Rightarrow> string" where
  "EncodeRune r =
     (if r < 128 then [char_of r]
      else if r < 2048 then [char_of (192 + r div 64), char_of (128 + r mod 64)]
      else if r > 1114111 \<or> 55296 \<le> r \<and> r \<le> 57343 then encode3 RuneError
      else if r < 65536 then encode3 r
      else [char_of (240 + r div 262144), char_of (128 + r div 4096 mod 64),
            char_of (128 + r div 64 mod 64), char_of (128 + r mod 64)])"

text \<open>An ill-formed first byte is what \<open>DecodeRune\<close> reports as \<open>(RuneError, 1)\<close>.\<close>

definition bad_rune :: "string \<Rightarrow> bool" where
  "bad_rune s \<longleftrightarrow> DecodeRune s = (RuneError, 1)"

lemma DecodeRune_width_pos: "s \<noteq> [] \<Longrightarrow> 0 < snd (DecodeRune s)"
  by (cases s) (auto simp: DecodeRune_def split: list.splits)

lemma DecodeRune_width_le: "snd (DecodeRune s) \<le> length s"
  by (cases s) (auto simp: DecodeRune_def split: list.splits)

text \<open>\<open>utf8.ValidString\<close>.\<close>

function valid_utf8 :: "string \<Rightarrow> bool" where
  "valid_utf8 s =
     (if s = [] then True else if bad_rune s then False
      else valid_utf8 (drop (snd (DecodeRune s)) s))"
  by pat_completeness auto
termination
  by (relation "measure length") (auto simp: DecodeRune_width_pos)

declare valid_utf8.simps [simp del]

lemma valid_utf8_Nil [simp]: "valid_utf8 []"
  by (simp add: valid_utf8.simps)

lemma split64:
  "z < 64 \<Longrightarrow> (k * 64 + z) div 64 = (k::nat)" "z < 64 \<Longrightarrow> (k * 64 + z) mod 64 = (z::nat)"
  by simp_all

lemma low64: "y < 64 \<Longrightarrow> (128 + y) mod 64 = (y::nat)" "y < 32 \<Longrightarrow> (192 + y) mod 32 = (y::nat)"
  "y < 16 \<Longrightarrow> (224 + y) mod 16 = (y::nat)" "y < 8 \<Longrightarrow> (240 + y) mod 8 = (y::nat)"
  using mod_mult_self2 [of y 64 2] mod_mult_self2 [of y 32 6] mod_mult_self2 [of y 16 14]
    mod_mult_self2 [of y 8 30] by (simp_all add: add.commute)

text \<open>The payload bits of a byte, as its distance from the start of its range.\<close>

lemma offset_mod:
  "128 \<le> n \<Longrightarrow> n \<le> 191 \<Longrightarrow> n mod 64 = n - (128::nat)"
  "194 \<le> n \<Longrightarrow> n \<le> 223 \<Longrightarrow> n mod 32 = n - (192::nat)"
  "224 \<le> n \<Longrightarrow> n \<le> 239 \<Longrightarrow> n mod 16 = n - (224::nat)"
  "240 \<le> n \<Longrightarrow> n \<le> 244 \<Longrightarrow> n mod 8 = n - (240::nat)"
  using low64(1) [of "n - 128"] low64(2) [of "n - 192"] low64(3) [of "n - 224"]
    low64(4) [of "n - 240"] by simp_all

lemma div4096: "r div 4096 = r div 64 div (64::nat)" "r div 262144 = r div 64 div 64 div (64::nat)"
  by (simp_all add: div_mult2_eq [symmetric])

lemma two_byte:
  fixes x y :: nat
  assumes "2 \<le> x" "x < 32" "y < 64"
  shows "EncodeRune (x * 64 + y) = [char_of (192 + x), char_of (128 + y)]"
proof -
  have "\<not> x * 64 + y < 128" "x * 64 + y < 2048" using assms by linarith+
  then show ?thesis by (simp add: EncodeRune_def split64 assms del: div_mult_self3 div_mult_self4)
qed

lemma three_byte:
  fixes x y z :: nat
  assumes "x < 16" "y < 64" "z < 64" "x = 0 \<Longrightarrow> 32 \<le> y" "x = 13 \<Longrightarrow> y < 32"
  shows "EncodeRune ((x * 64 + y) * 64 + z) =
    [char_of (224 + x), char_of (128 + y), char_of (128 + z)]"
proof -
  let ?r = "(x * 64 + y) * 64 + z"
  have "x = 0 \<or> x = 13 \<or> (1 \<le> x \<and> x \<le> 12) \<or> 14 \<le> x" by linarith
  then have r: "\<not> ?r < 128" "\<not> ?r < 2048" "\<not> ?r > 1114111" "\<not> (55296 \<le> ?r \<and> ?r \<le> 57343)" "?r < 65536"
    using assms by auto
  show ?thesis
    unfolding EncodeRune_def encode3_def div4096 split64 [OF assms(3)] split64 [OF assms(2)]
    using r by auto
qed

lemma four_byte:
  fixes x y z w :: nat
  assumes "x < 5" "y < 64" "z < 64" "w < 64" "x = 0 \<Longrightarrow> 16 \<le> y" "x = 4 \<Longrightarrow> y < 16"
  shows "EncodeRune (((x * 64 + y) * 64 + z) * 64 + w) =
    [char_of (240 + x), char_of (128 + y), char_of (128 + z), char_of (128 + w)]"
proof -
  let ?r = "((x * 64 + y) * 64 + z) * 64 + w"
  have "x = 0 \<or> x = 4 \<or> (1 \<le> x \<and> x \<le> 3)" using assms by linarith
  then have r: "\<not> ?r < 128" "\<not> ?r < 2048" "\<not> ?r > 1114111" "\<not> (55296 \<le> ?r \<and> ?r \<le> 57343)" "\<not> ?r < 65536"
    using assms by auto
  show ?thesis
    unfolding EncodeRune_def div4096 split64 [OF assms(4)] split64 [OF assms(3)] split64 [OF assms(2)]
    using r by auto
qed

lemma cont2D:
  assumes "cont2 c0 c1"
  shows "128 \<le> ord c1" "ord c1 \<le> 191" "ord c0 = 224 \<longrightarrow> 160 \<le> ord c1"
    "ord c0 = 237 \<longrightarrow> ord c1 \<le> 159" "ord c0 = 240 \<longrightarrow> 144 \<le> ord c1" "ord c0 = 244 \<longrightarrow> ord c1 \<le> 143"
  using assms by (auto simp: cont2_def cont_def second_range_def split: if_splits)

text \<open>The four shapes of a well-formed first rune.\<close>

lemma good_rune_cases:
  assumes "\<not> bad_rune s" and "s \<noteq> []"
  obtains (1) c0 s1 where "s = c0 # s1" "ord c0 < 128"
    | (2) c0 c1 s2 where "s = c0 # c1 # s2" "194 \<le> ord c0" "ord c0 \<le> 223" "cont 128 191 c1"
    | (3) c0 c1 c2 s3 where "s = c0 # c1 # c2 # s3" "224 \<le> ord c0" "ord c0 \<le> 239"
        "cont2 c0 c1" "cont 128 191 c2"
    | (4) c0 c1 c2 c3 s4 where "s = c0 # c1 # c2 # c3 # s4" "240 \<le> ord c0" "ord c0 \<le> 244"
        "cont2 c0 c1" "cont 128 191 c2" "cont 128 191 c3"
proof -
  obtain c0 s1 where "s = c0 # s1" using assms(2) by (cases s) auto
  with assms(1) show ?thesis
    unfolding bad_rune_def DecodeRune_def
    by (simp split: if_splits list.splits add: that)
qed

lemma DecodeRune_shapes:
  "ord c0 < 128 \<Longrightarrow> DecodeRune (c0 # t) = (ord c0, 1)"
  "194 \<le> ord c0 \<Longrightarrow> ord c0 \<le> 223 \<Longrightarrow> cont 128 191 c1 \<Longrightarrow>
     DecodeRune (c0 # c1 # t) = ((ord c0 mod 32) * 64 + tail6 c1, 2)"
  "224 \<le> ord c0 \<Longrightarrow> ord c0 \<le> 239 \<Longrightarrow> cont2 c0 c1 \<Longrightarrow> cont 128 191 c2 \<Longrightarrow>
     DecodeRune (c0 # c1 # c2 # t) = (((ord c0 mod 16) * 64 + tail6 c1) * 64 + tail6 c2, 3)"
  "240 \<le> ord c0 \<Longrightarrow> ord c0 \<le> 244 \<Longrightarrow> cont2 c0 c1 \<Longrightarrow> cont 128 191 c2 \<Longrightarrow> cont 128 191 c3 \<Longrightarrow>
     DecodeRune (c0 # c1 # c2 # c3 # t) =
       ((((ord c0 mod 8) * 64 + tail6 c1) * 64 + tail6 c2) * 64 + tail6 c3, 4)"
  by (simp_all add: DecodeRune_def)

text \<open>Re-encoding the decoded rune gives the bytes that were read.\<close>

lemma EncodeRune_DecodeRune:
  assumes "s \<noteq> []" and "\<not> bad_rune s"
  shows "EncodeRune (fst (DecodeRune s)) = take (snd (DecodeRune s)) s"
  using assms(2,1)
proof (cases rule: good_rune_cases)
  case 1
  then show ?thesis by (simp add: DecodeRune_shapes EncodeRune_def)
next
  case (2 c0 c1 s2)
  have "EncodeRune ((ord c0 - 192) * 64 + (ord c1 - 128)) = [c0, c1]"
    using 2 by (subst two_byte) (auto simp: cont_def)
  with 2 show ?thesis by (simp add: DecodeRune_shapes cont_def offset_mod)
next
  case (3 c0 c1 c2 s3)
  note c1 = cont2D [OF 3(4)]
  have "EncodeRune (((ord c0 - 224) * 64 + (ord c1 - 128)) * 64 + (ord c2 - 128)) = [c0, c1, c2]"
    using 3 c1 by (subst three_byte) (auto simp: cont_def)
  with 3 c1 show ?thesis by (simp add: DecodeRune_shapes cont_def offset_mod)
next
  case (4 c0 c1 c2 c3 s4)
  note c1 = cont2D [OF 4(4)]
  have "EncodeRune
    ((((ord c0 - 240) * 64 + (ord c1 - 128)) * 64 + (ord c2 - 128)) * 64 + (ord c3 - 128)) =
    [c0, c1, c2, c3]"
    using 4 c1 by (subst four_byte) (auto simp: cont_def)
  with 4 c1 show ?thesis by (simp add: DecodeRune_shapes cont_def offset_mod)
qed

text \<open>What follows the first rune does not matter to its decoding.\<close>

lemma DecodeRune_take_append:
  assumes "s \<noteq> []" and "\<not> bad_rune s"
  shows "DecodeRune (take (snd (DecodeRune s)) s @ t) = DecodeRune s"
  using assms(2,1) by (cases rule: good_rune_cases) (simp_all add: DecodeRune_shapes)

lemma bad_rune_ascii [simp]: "ord c < 128 \<Longrightarrow> \<not> bad_rune (c # s)"
  by (simp add: bad_rune_def RuneError_def DecodeRune_shapes)

text \<open>Well-formed strings concatenate.\<close>

lemma valid_utf8_append: "valid_utf8 s \<Longrightarrow> valid_utf8 t \<Longrightarrow> valid_utf8 (s @ t)"
proof (induction s rule: valid_utf8.induct)
  case (1 s)
  show ?case
  proof (cases "s = []")
    case False
    let ?n = "snd (DecodeRune s)"
    have good: "\<not> bad_rune s" "valid_utf8 (drop ?n s)"
      using "1.prems"(1) False valid_utf8.simps [of s] by (auto split: if_splits)
    have "DecodeRune (take ?n s @ drop ?n s @ t) = DecodeRune s"
      using DecodeRune_take_append [OF False good(1)] .
    then have d: "DecodeRune (s @ t) = DecodeRune s" by (metis append.assoc append_take_drop_id)
    have "valid_utf8 (drop ?n s @ t)" using "1.IH" False good "1.prems"(2) by simp
    with d good(1) DecodeRune_width_le [of s] False show ?thesis
      by (simp add: valid_utf8.simps [of "s @ t"] bad_rune_def)
  qed (use "1.prems" in simp)
qed

end
