(* ===== verification/JsonText.thy ===== *)
theory JsonText
  imports Utf8
begin

text \<open>
  The lexical level of \<open>encoding/json\<close>: string literals as \<open>Marshal\<close> writes them (HTML
  escaping on, ill-formed UTF-8 replaced) and as \<open>Unmarshal\<close> reads them, and decimal
  number literals. The two round trips at the end are what the WAL record codec rests on.
\<close>

abbreviation bslash :: char where "bslash \<equiv> CHR 0x5C"
abbreviation dquote :: char where "dquote \<equiv> CHR 0x22"

subsection \<open>Hexadecimal digits\<close>

definition hex_digit :: "nat \<Rightarrow> char" where
  "hex_digit n = (if n < 10 then char_of (48 + n) else char_of (87 + n))"

definition hex_val :: "char \<Rightarrow> nat option" where
  "hex_val c =
     (if 48 \<le> ord c \<and> ord c \<le> 57 then Some (ord c - 48)
      else if 97 \<le> ord c \<and> ord c \<le> 102 then Some (ord c - 87)
      else if 65 \<le> ord c \<and> ord c \<le> 70 then Some (ord c - 55) else None)"

lemma hex_val_digit [simp]: "n < 16 \<Longrightarrow> hex_val (hex_digit n) = Some n"
  by (auto simp: hex_val_def hex_digit_def)

lemma hex_val_literal [simp]: "hex_val CHR ''0'' = Some 0" "hex_val CHR ''2'' = Some 2"
  by (simp_all add: hex_val_def)

text \<open>\<open>getu4\<close>: the four hexadecimal digits of a \<open>\uXXXX\<close> escape.\<close>

fun getu4 :: "string \<Rightarrow> (nat \<times> string) option" where
  "getu4 (a # b # c # d # rest) =
     (case (hex_val a, hex_val b, hex_val c, hex_val d) of
        (Some w, Some x, Some y, Some z) \<Rightarrow> Some (((w * 16 + x) * 16 + y) * 16 + z, rest)
      | _ \<Rightarrow> None)"
| "getu4 _ = None"

lemma getu4_length: "getu4 s = Some (r, s') \<Longrightarrow> length s' < length s"
  by (induction s rule: getu4.induct) (auto split: option.splits)

subsection \<open>Writing a string literal\<close>

definition html_safe :: "char \<Rightarrow> bool" where
  "html_safe c \<longleftrightarrow> 32 \<le> ord c \<and> ord c < 128 \<and>
     c \<notin> {dquote, CHR ''&'', CHR ''<'', CHR ''>'', bslash}"

definition escape_ascii :: "char \<Rightarrow> string" where
  "escape_ascii c =
     (if c = bslash \<or> c = dquote then [bslash, c]
      else if ord c = 8 then [bslash, CHR ''b'']
      else if ord c = 12 then [bslash, CHR ''f'']
      else if ord c = 10 then [bslash, CHR ''n'']
      else if ord c = 13 then [bslash, CHR ''r'']
      else if ord c = 9 then [bslash, CHR ''t'']
      else [bslash, CHR ''u'', CHR ''0'', CHR ''0'', hex_digit (ord c div 16), hex_digit (ord c mod 16)])"

function quote_body :: "string \<Rightarrow> string" where
  "quote_body s =
     (case s of
        [] \<Rightarrow> []
      | c # cs \<Rightarrow>
          if ord c < 128 then (if html_safe c then [c] else escape_ascii c) @ quote_body cs
          else if bad_rune s then bslash # ''ufffd'' @ quote_body cs
          else (let r = fst (DecodeRune s); n = snd (DecodeRune s) in
            (if r = 8232 \<or> r = 8233 then bslash # ''u202'' @ [hex_digit (r mod 16)] else take n s)
            @ quote_body (drop n s)))"
  by pat_completeness auto
termination
proof (relation "measure length", goal_cases)
  case (4 s c cs r n)
  then show ?case using DecodeRune_width_pos [of s] by auto
qed auto

declare quote_body.simps [simp del]

definition quote :: "string \<Rightarrow> string" where
  "quote s = dquote # quote_body s @ [dquote]"

subsection \<open>Reading a string literal\<close>

definition simple_escape :: "char \<Rightarrow> char option" where
  "simple_escape c =
     (if c \<in> {dquote, bslash, CHR ''/''} then Some c
      else if c = CHR ''b'' then Some (char_of (8::nat)) else if c = CHR ''f'' then Some (char_of (12::nat))
      else if c = CHR ''n'' then Some (char_of (10::nat)) else if c = CHR ''r'' then Some (char_of (13::nat))
      else if c = CHR ''t'' then Some (char_of (9::nat)) else None)"

definition IsSurrogate :: "nat \<Rightarrow> bool" where
  "IsSurrogate r \<longleftrightarrow> 55296 \<le> r \<and> r < 57344"

text \<open>\<open>utf16.DecodeRune\<close>: the code point of a surrogate pair.\<close>

definition utf16_pair :: "nat \<Rightarrow> nat \<Rightarrow> nat option" where
  "utf16_pair r1 r2 =
     (if 55296 \<le> r1 \<and> r1 < 56320 \<and> 56320 \<le> r2 \<and> r2 < 57344
      then Some ((r1 - 55296) * 1024 + (r2 - 56320) + 65536) else None)"

text \<open>A second \<open>\uXXXX\<close> escape that completes a surrogate pair, if there is one.\<close>

definition low_surrogate :: "nat \<Rightarrow> string \<Rightarrow> (nat \<times> string) option" where
  "low_surrogate r1 s =
     (case s of
        b # u # s' \<Rightarrow>
          if b = bslash \<and> u = CHR ''u'' then
            (case getu4 s' of
               Some (r2, s'') \<Rightarrow> map_option (\<lambda>r. (r, s'')) (utf16_pair r1 r2)
             | None \<Rightarrow> None)
          else None
      | _ \<Rightarrow> None)"

lemma low_surrogate_length: "low_surrogate r1 s = Some (r, s') \<Longrightarrow> length s' < length s"
  by (auto simp: low_surrogate_def split: list.splits if_splits option.splits dest: getu4_length)

text \<open>The rest of a literal after its opening quote: the string and what follows it.\<close>

definition prepend :: "string \<Rightarrow> (string \<times> 'b) option \<Rightarrow> (string \<times> 'b) option" where
  "prepend p x = map_option (\<lambda>(s, rest). (p @ s, rest)) x"

lemma prepend_simps [simp]:
  "prepend p None = None" "prepend p (Some (s, r)) = Some (p @ s, r)"
  by (simp_all add: prepend_def)

lemma prepend_eq_Some: "prepend p x = Some (s, r) \<longleftrightarrow> (\<exists>s'. x = Some (s', r) \<and> s = p @ s')"
  by (auto simp: prepend_def)

function parse_str :: "string \<Rightarrow> (string \<times> string) option" where
  "parse_str s =
     (case s of
        [] \<Rightarrow> None
      | c # cs \<Rightarrow>
          if c = dquote then Some ([], cs)
          else if c = bslash then
            (case cs of
               [] \<Rightarrow> None
             | e # ds \<Rightarrow>
                 (case simple_escape e of
                    Some x \<Rightarrow> prepend [x] (parse_str ds)
                  | None \<Rightarrow>
                      if e = CHR ''u'' then
                        (case getu4 ds of
                           None \<Rightarrow> None
                         | Some (r, ds') \<Rightarrow>
                             if IsSurrogate r then
                               (case low_surrogate r ds' of
                                  Some (r', ds'') \<Rightarrow> prepend (EncodeRune r') (parse_str ds'')
                                | None \<Rightarrow> prepend (EncodeRune RuneError) (parse_str ds'))
                             else prepend (EncodeRune r) (parse_str ds'))
                      else None))
          else if ord c < 32 then None
          else if ord c < 128 then prepend [c] (parse_str cs)
          else prepend (EncodeRune (fst (DecodeRune s))) (parse_str (drop (snd (DecodeRune s)) s)))"
  by pat_completeness auto
termination
proof (relation "measure length", goal_cases)
  case (3 s c cs e ds a r ds' b r' ds'')
  then show ?case by (auto dest!: getu4_length low_surrogate_length)
next
  case (7 s c cs)
  then show ?case using DecodeRune_width_pos [of s] by auto
qed (auto dest: getu4_length)

declare parse_str.simps [simp del]

subsection \<open>Round trip of string literals\<close>

lemma parse_str_quote [simp]: "parse_str (dquote # rest) = Some ([], rest)"
  by (simp add: parse_str.simps)

lemma EncodeRune_ascii: "ord c < 128 \<Longrightarrow> EncodeRune (ord c) = [c]"
  by (simp add: EncodeRune_def)

lemma parse_str_safe:
  "html_safe c \<Longrightarrow> parse_str (c # s) = prepend [c] (parse_str s)"
  by (auto simp: html_safe_def parse_str.simps [of "c # s"])

lemma parse_str_escape:
  assumes "ord c < 128" "\<not> html_safe c"
  shows "parse_str (escape_ascii c @ s) = prepend [c] (parse_str s)"
proof (cases "c = bslash \<or> c = dquote \<or> ord c \<in> {8, 12, 10, 13, 9}")
  case True
  then have "\<exists>e. escape_ascii c = [bslash, e] \<and> simple_escape e = Some c"
    by (auto simp: escape_ascii_def simple_escape_def char_of_eq_iff take_bit_eq_mod)
  then show ?thesis by (auto simp: parse_str.simps [of "bslash # _"])
next
  case False
  have "ord c div 16 < 16" "ord c mod 16 < 16" using assms by auto
  moreover have "ord c div 16 * 16 + ord c mod 16 = ord c" by simp
  ultimately have "getu4 (CHR ''0'' # CHR ''0'' # hex_digit (ord c div 16) # hex_digit (ord c mod 16) # s)
      = Some (ord c, s)"
    by (simp del: div_mult_mod_eq)
  with False assms show ?thesis
    by (auto simp: escape_ascii_def parse_str.simps [of "bslash # _"] simple_escape_def
        IsSurrogate_def EncodeRune_ascii)
qed

lemma parse_str_rune:
  assumes "s \<noteq> []" "\<not> bad_rune s" "128 \<le> ord (hd s)"
  shows "parse_str (take (snd (DecodeRune s)) s @ rest) =
     prepend (take (snd (DecodeRune s)) s) (parse_str rest)"
proof -
  let ?n = "snd (DecodeRune s)" and ?w = "take (snd (DecodeRune s)) s @ rest"
  obtain c cs where s: "s = c # cs" using assms(1) by (cases s) auto
  then obtain ws where w: "?w = c # ws"
    using DecodeRune_width_pos [OF assms(1)] by (cases ?n) auto
  have c: "c \<noteq> dquote" "c \<noteq> bslash" "\<not> ord c < 32" "\<not> ord c < 128"
    using assms(3) s by auto
  have "length (take ?n s) = ?n" using DecodeRune_width_le [of s] by simp
  then have d: "drop ?n ?w = rest" by simp
  show ?thesis
    using c DecodeRune_take_append [OF assms(1,2), of rest]
      EncodeRune_DecodeRune [OF assms(1,2)] d
    unfolding w by (simp add: parse_str.simps [of "c # ws"])
qed

lemma parse_str_line_sep:
  assumes "r = 8232 \<or> r = 8233"
  shows "parse_str (bslash # ''u202'' @ hex_digit (r mod 16) # rest) =
     prepend (EncodeRune r) (parse_str rest)"
proof -
  have "getu4 (CHR ''2'' # CHR ''0'' # CHR ''2'' # hex_digit (r mod 16) # rest) = Some (r, rest)"
    using assms by auto
  with assms show ?thesis
    by (auto simp: parse_str.simps [of "bslash # _"] simple_escape_def IsSurrogate_def)
qed

lemma parse_str_quote_body:
  "valid_utf8 s \<Longrightarrow> parse_str (quote_body s @ dquote # rest) = Some (s, rest)"
proof (induction s rule: quote_body.induct)
  case (1 s)
  show ?case
  proof (cases s)
    case Nil
    then show ?thesis by (simp add: quote_body.simps)
  next
    case (Cons c cs)
    let ?n = "snd (DecodeRune s)"
    have good: "\<not> bad_rune s" and valid: "valid_utf8 (drop ?n s)"
      using "1.prems" Cons valid_utf8.simps [of s] by (auto split: if_splits)
    show ?thesis
    proof (cases "ord c < 128")
      case True
      with Cons valid have "valid_utf8 cs" by (simp add: DecodeRune_shapes)
      with "1.IH"(1) [OF Cons True] True show ?thesis
        by (simp add: Cons quote_body.simps [of "c # cs"] parse_str_safe parse_str_escape)
    next
      case False
      then have IH: "parse_str (quote_body (drop ?n s) @ dquote # rest) = Some (drop ?n s, rest)"
        using "1.IH"(3) [OF Cons False good refl refl valid] by simp
      have q: "quote_body s = (if fst (DecodeRune s) = 8232 \<or> fst (DecodeRune s) = 8233
          then bslash # ''u202'' @ [hex_digit (fst (DecodeRune s) mod 16)] else take ?n s)
          @ quote_body (drop ?n s)"
        using Cons False good quote_body.simps [of s] by (simp add: Let_def)
      have e: "EncodeRune (fst (DecodeRune s)) = take ?n s"
        using EncodeRune_DecodeRune good Cons by blast
      have s: "s \<noteq> []" "128 \<le> ord (hd s)" using Cons False by auto
      show ?thesis
        unfolding q using IH e parse_str_line_sep [of "fst (DecodeRune s)"]
          parse_str_rune [OF s(1) good s(2), of "quote_body (drop ?n s) @ dquote # rest"]
        by auto
    qed
  qed
qed

text \<open>A well-formed string survives being written as a literal and read back.\<close>

lemma parse_str_literal: "valid_utf8 s \<Longrightarrow> quote s @ rest = dquote # t \<Longrightarrow> parse_str t = Some (s, rest)"
  using parse_str_quote_body [of s rest] by (auto simp: quote_def)

text \<open>Plain ASCII text (base64 letters, digits, names) is well formed.\<close>

lemma valid_utf8_ascii: "\<forall>c \<in> set s. ord c < 128 \<Longrightarrow> valid_utf8 s"
proof (induction s)
  case (Cons c s)
  then show ?case by (simp add: valid_utf8.simps [of "c # s"] DecodeRune_shapes)
qed simp

subsection \<open>Decimal literals\<close>

abbreviation is_digit :: "char \<Rightarrow> bool" where
  "is_digit c \<equiv> 48 \<le> ord c \<and> ord c \<le> 57"

fun show_nat :: "nat \<Rightarrow> string" where
  "show_nat n = (if n < 10 then [char_of (48 + n)] else show_nat (n div 10) @ [char_of (48 + n mod 10)])"

declare show_nat.simps [simp del]

text \<open>\<open>strconv.AppendInt\<close>.\<close>

definition show_int :: "int \<Rightarrow> string" where
  "show_int i = (if i < 0 then CHR ''-'' # show_nat (nat (- i)) else show_nat (nat i))"

definition digits_val :: "string \<Rightarrow> nat" where
  "digits_val s = foldl (\<lambda>acc c. acc * 10 + (ord c - 48)) 0 s"

text \<open>\<open>strconv.ParseInt\<close> and \<open>ParseUint\<close> on a JSON number literal, before the range check.\<close>

definition parse_nat :: "string \<Rightarrow> nat option" where
  "parse_nat s = (if s \<noteq> [] \<and> list_all is_digit s then Some (digits_val s) else None)"

definition parse_int :: "string \<Rightarrow> int option" where
  "parse_int s =
     (case s of
        [] \<Rightarrow> None
      | c # cs \<Rightarrow> if c = CHR ''-'' then map_option (\<lambda>n. - int n) (parse_nat cs)
                  else map_option int (parse_nat s))"

lemma show_nat_digits: "list_all is_digit (show_nat n)"
proof (induction n rule: show_nat.induct)
  case (1 n)
  then show ?case by (cases "n < 10") (auto simp: show_nat.simps [of n])
qed

lemma show_nat_nonempty [simp]: "show_nat n \<noteq> []"
  by (subst show_nat.simps) simp

lemma digits_val_show_nat [simp]: "digits_val (show_nat n) = n"
proof (induction n rule: show_nat.induct)
  case (1 n)
  then show ?case by (cases "n < 10") (auto simp: show_nat.simps [of n] digits_val_def)
qed

lemma parse_nat_show_nat [simp]: "parse_nat (show_nat n) = Some n"
  using show_nat_digits by (simp add: parse_nat_def)

lemma show_nat_hd: "is_digit (hd (show_nat n))"
  using show_nat_digits [of n] by (cases "show_nat n") auto

lemma parse_int_show_int [simp]: "parse_int (show_int i) = Some i"
proof (cases "i < 0")
  case False
  then have "hd (show_nat (nat i)) \<noteq> CHR ''-''" using show_nat_hd [of "nat i"] by auto
  with False show ?thesis
    using parse_nat_show_nat [of "nat i"]
    by (cases "show_nat (nat i)") (auto simp: parse_int_def show_int_def)
qed (simp add: parse_int_def show_int_def)

text \<open>No leading zero: \<open>show_nat\<close> writes a literal of the JSON grammar.\<close>

lemma show_nat_no_leading_zero: "0 < n \<Longrightarrow> hd (show_nat n) \<noteq> CHR ''0''"
proof (induction n rule: show_nat.induct)
  case (1 n)
  show ?case
  proof (cases "n < 10")
    case True
    with 1 show ?thesis by (auto simp: show_nat.simps [of n] char_of_eq_iff take_bit_eq_mod)
  next
    case False
    with 1 have "hd (show_nat (n div 10)) \<noteq> CHR ''0''" by simp
    with False show ?thesis by (simp add: show_nat.simps [of n])
  qed
qed

lemma show_nat_zero: "show_nat 0 = ''0''"
  by (subst show_nat.simps) (simp add: char_of_eq_iff take_bit_eq_mod)

lemma show_nat_ascii: "c \<in> set (show_nat n) \<Longrightarrow> ord c < 128"
  using show_nat_digits [of n] by (auto simp: list_all_iff)

lemma show_int_ascii: "c \<in> set (show_int i) \<Longrightarrow> ord c < 128"
  by (auto simp: show_int_def show_nat_ascii split: if_splits)

end
