(* ===== verification/Json.thy ===== *)
theory Json
  imports JsonText
begin

text \<open>
  The value level of \<open>encoding/json\<close>: the compact text \<open>Marshal\<close> writes for a value tree,
  and the parser behind \<open>Unmarshal\<close> (white space, the nesting limit of 10000, strings and
  numbers of the JSON grammar). A value whose strings are well-formed UTF-8, whose numbers
  are decimal integers and whose nesting is below the limit is read back as written.
\<close>

datatype json =
    JNull
  | JBool bool
  | JNum string
  | JStr string
  | JArr "json list"
  | JObj "(string \<times> json) list"

subsection \<open>Printing\<close>

fun sep_by_comma :: "string list \<Rightarrow> string" where
  "sep_by_comma [] = []"
| "sep_by_comma [x] = x"
| "sep_by_comma (x # xs) = x @ CHR '','' # sep_by_comma xs"

fun print_json :: "json \<Rightarrow> string" where
  "print_json JNull = ''null''"
| "print_json (JBool b) = (if b then ''true'' else ''false'')"
| "print_json (JNum n) = n"
| "print_json (JStr s) = quote s"
| "print_json (JArr vs) = CHR ''['' # sep_by_comma (map print_json vs) @ '']''"
| "print_json (JObj kvs) =
     CHR ''{'' # sep_by_comma (map (\<lambda>(k, v). quote k @ CHR '':'' # print_json v) kvs) @ ''}''"

subsection \<open>Parsing\<close>

definition is_ws :: "char \<Rightarrow> bool" where
  "is_ws c \<longleftrightarrow> c \<in> {CHR '' '', CHR 0x09, CHR 0x0A, CHR 0x0D}"

definition skip_ws :: "string \<Rightarrow> string" where
  "skip_ws s = dropWhile is_ws s"

text \<open>\<open>-? (0 | [1-9][0-9]*) (. [0-9]+)? ([eE] [+-]? [0-9]+)?\<close>, one part at a time; each part
  returns the text it read and the rest.\<close>

definition num_int :: "string \<Rightarrow> (string \<times> string) option" where
  "num_int s =
     (case s of
        [] \<Rightarrow> None
      | c # cs \<Rightarrow> if c = CHR ''0'' then Some ([c], cs)
                  else if is_digit c then Some (takeWhile is_digit s, dropWhile is_digit s)
                  else None)"

definition num_frac :: "string \<Rightarrow> (string \<times> string) option" where
  "num_frac s =
     (case s of
        [] \<Rightarrow> Some ([], s)
      | c # cs \<Rightarrow>
          if c = CHR ''.'' then
            (if takeWhile is_digit cs = [] then None
             else Some (c # takeWhile is_digit cs, dropWhile is_digit cs))
          else Some ([], s))"

definition exp_sign :: "string \<Rightarrow> string \<times> string" where
  "exp_sign s =
     (case s of [] \<Rightarrow> ([], s) | c # cs \<Rightarrow> if c \<in> {CHR ''+'', CHR ''-''} then ([c], cs) else ([], s))"

definition num_exp :: "string \<Rightarrow> (string \<times> string) option" where
  "num_exp s =
     (case s of
        [] \<Rightarrow> Some ([], s)
      | c # cs \<Rightarrow>
          if c \<in> {CHR ''e'', CHR ''E''} then
            (let (sg, ds) = exp_sign cs in
             if takeWhile is_digit ds = [] then None
             else Some (c # sg @ takeWhile is_digit ds, dropWhile is_digit ds))
          else Some ([], s))"

definition parse_unsigned :: "string \<Rightarrow> (string \<times> string) option" where
  "parse_unsigned s =
     (case num_int s of
        None \<Rightarrow> None
      | Some (i, s1) \<Rightarrow>
          (case num_frac s1 of
             None \<Rightarrow> None
           | Some (f, s2) \<Rightarrow> map_option (\<lambda>(e, s3). (i @ f @ e, s3)) (num_exp s2)))"

definition parse_num :: "string \<Rightarrow> (string \<times> string) option" where
  "parse_num s =
     (case s of
        [] \<Rightarrow> None
      | c # cs \<Rightarrow> if c = CHR ''-'' then prepend [c] (parse_unsigned cs) else parse_unsigned s)"

definition maxNestingDepth :: nat where
  "maxNestingDepth = 10000"

text \<open>
  The value, array and object parsers. The first argument is the nesting that is still
  allowed. The length tests always succeed, since every parser consumes what it reads.
\<close>

definition literal :: "string \<Rightarrow> json \<Rightarrow> string \<Rightarrow> (json \<times> string) option" where
  "literal word v s = (if take (length word) s = word then Some (v, drop (length word) s) else None)"

text \<open>\<open>eat c s\<close>: the rest after white space and the character \<open>c\<close>, if that is what comes next.\<close>

definition eat :: "char \<Rightarrow> string \<Rightarrow> string option" where
  "eat c s = (case skip_ws s of [] \<Rightarrow> None | x # xs \<Rightarrow> if x = c then Some xs else None)"

function (sequential) parse_value :: "nat \<Rightarrow> string \<Rightarrow> (json \<times> string) option"
  and parse_elems :: "nat \<Rightarrow> string \<Rightarrow> (json list \<times> string) option"
  and parse_members :: "nat \<Rightarrow> string \<Rightarrow> ((string \<times> json) list \<times> string) option" where
  "parse_value d s =
     (case skip_ws s of
        [] \<Rightarrow> None
      | c # cs \<Rightarrow>
          if c = CHR ''{'' then
            (if d = 0 then None
             else case eat CHR ''}'' cs of
               Some rest \<Rightarrow> Some (JObj [], rest)
             | None \<Rightarrow> map_option (\<lambda>(kvs, rest). (JObj kvs, rest)) (parse_members (d - 1) cs))
          else if c = CHR ''['' then
            (if d = 0 then None
             else case eat CHR '']'' cs of
               Some rest \<Rightarrow> Some (JArr [], rest)
             | None \<Rightarrow> map_option (\<lambda>(vs, rest). (JArr vs, rest)) (parse_elems (d - 1) cs))
          else if c = dquote then map_option (\<lambda>(t, rest). (JStr t, rest)) (parse_str cs)
          else if c = CHR ''n'' then literal ''null'' JNull (c # cs)
          else if c = CHR ''t'' then literal ''true'' (JBool True) (c # cs)
          else if c = CHR ''f'' then literal ''false'' (JBool False) (c # cs)
          else map_option (\<lambda>(t, rest). (JNum t, rest)) (parse_num (c # cs)))"
| "parse_elems d s =
     (case parse_value d s of
        None \<Rightarrow> None
      | Some (v, s1) \<Rightarrow>
          (case eat CHR '']'' s1 of
             Some s2 \<Rightarrow> Some ([v], s2)
           | None \<Rightarrow>
               (case eat CHR '','' s1 of
                  None \<Rightarrow> None
                | Some s2 \<Rightarrow>
                    if length s2 < length s
                    then map_option (\<lambda>(vs, s3). (v # vs, s3)) (parse_elems d s2) else None)))"
| "parse_members d s =
     (case eat dquote s of
        None \<Rightarrow> None
      | Some s1 \<Rightarrow>
          (case parse_str s1 of
             None \<Rightarrow> None
           | Some (k, s2) \<Rightarrow>
               (case eat CHR '':'' s2 of
                  None \<Rightarrow> None
                | Some s3 \<Rightarrow>
                    if length s3 < length s then
                      (case parse_value d s3 of
                         None \<Rightarrow> None
                       | Some (v, s4) \<Rightarrow>
                           (case eat CHR ''}'' s4 of
                              Some s5 \<Rightarrow> Some ([(k, v)], s5)
                            | None \<Rightarrow>
                                (case eat CHR '','' s4 of
                                   None \<Rightarrow> None
                                 | Some s5 \<Rightarrow>
                                     if length s5 < length s
                                     then map_option (\<lambda>(kvs, s6). ((k, v) # kvs, s6)) (parse_members d s5)
                                     else None)))
                    else None)))"
  by pat_completeness auto
termination
  by (relation "measures
      [\<lambda>x. (case x of Inl (d, s) \<Rightarrow> d | Inr (Inl (d, s)) \<Rightarrow> d | Inr (Inr (d, s)) \<Rightarrow> d),
       \<lambda>x. (case x of Inl (d, s) \<Rightarrow> length s | Inr (Inl (d, s)) \<Rightarrow> length s | Inr (Inr (d, s)) \<Rightarrow> length s),
       \<lambda>x. (case x of Inl (d, s) \<Rightarrow> 0 | _ \<Rightarrow> 1)]") auto

declare parse_value.simps [simp del] parse_elems.simps [simp del] parse_members.simps [simp del]

definition json_parse :: "string \<Rightarrow> json option" where
  "json_parse s =
     (case parse_value maxNestingDepth s of
        Some (v, rest) \<Rightarrow> if skip_ws rest = [] then Some v else None
      | None \<Rightarrow> None)"

subsection \<open>Round trip\<close>

text \<open>The values \<open>Marshal\<close> is used for here, with nesting at most \<open>d\<close>.\<close>

fun wf_json :: "nat \<Rightarrow> json \<Rightarrow> bool" where
  "wf_json d JNull = True"
| "wf_json d (JBool b) = True"
| "wf_json d (JNum n) = (case parse_int n of None \<Rightarrow> False | Some i \<Rightarrow> n = show_int i)"
| "wf_json d (JStr s) = valid_utf8 s"
| "wf_json d (JArr vs) = (0 < d \<and> (\<forall>v \<in> set vs. wf_json (d - 1) v))"
| "wf_json d (JObj kvs) = (0 < d \<and> (\<forall>kv \<in> set kvs. valid_utf8 (fst kv) \<and> wf_json (d - 1) (snd kv)))"

definition delim :: "string \<Rightarrow> bool" where
  "delim s \<longleftrightarrow> s = [] \<or> hd s \<in> {CHR '','', CHR '']'', CHR ''}''}"

lemma delim_simps [simp]:
  "delim []" "delim (CHR '','' # s)" "delim (CHR '']'' # s)" "delim (CHR ''}'' # s)"
  by (simp_all add: delim_def)

lemma skip_ws_simps [simp]: "skip_ws [] = []" "\<not> is_ws c \<Longrightarrow> skip_ws (c # s) = c # s"
  by (simp_all add: skip_ws_def)

lemma is_ws_simps [simp]:
  "\<not> is_ws CHR '',''" "\<not> is_ws CHR '']''" "\<not> is_ws CHR ''}''" "\<not> is_ws CHR ''[''" "\<not> is_ws CHR ''{''"
  "\<not> is_ws CHR '':''" "\<not> is_ws dquote" "\<not> is_ws CHR ''n''" "\<not> is_ws CHR ''t''" "\<not> is_ws CHR ''f''"
  "\<not> is_ws CHR ''-''"
  by (simp_all add: is_ws_def)

lemma eat_simps [simp]:
  "eat c [] = None" "\<not> is_ws x \<Longrightarrow> eat c (x # xs) = (if x = c then Some xs else None)"
  by (simp_all add: eat_def)

lemma skip_ws_delim: "delim s \<Longrightarrow> skip_ws s = s"
  by (cases s) (auto simp: delim_def)

lemma delim_not_digit: "delim s \<Longrightarrow> takeWhile is_digit s = [] \<and> dropWhile is_digit s = s"
  by (cases s) (auto simp: delim_def)

lemma num_tail_delim: "delim s \<Longrightarrow> num_frac s = Some ([], s) \<and> num_exp s = Some ([], s)"
  by (cases s) (auto simp: delim_def num_frac_def num_exp_def)

lemma num_int_show_nat:
  assumes "delim rest"
  shows "num_int (show_nat n @ rest) = Some (show_nat n, rest)"
proof (cases "n = 0")
  case True
  then show ?thesis by (simp add: show_nat_zero num_int_def)
next
  case False
  obtain c cs where cs: "show_nat n = c # cs" by (cases "show_nat n") auto
  have c: "c \<noteq> CHR ''0''" "is_digit c"
    using False show_nat_no_leading_zero [of n] show_nat_hd [of n] cs by auto
  have d: "\<And>x. x \<in> set (show_nat n) \<Longrightarrow> is_digit x"
    using show_nat_digits [of n] by (auto simp: list_all_iff)
  have "takeWhile is_digit (show_nat n @ rest) = show_nat n"
    "dropWhile is_digit (show_nat n @ rest) = rest"
    using d delim_not_digit [OF assms] by (simp_all add: takeWhile_append2 dropWhile_append2)
  with c show ?thesis by (simp add: num_int_def cs)
qed

lemma parse_unsigned_show_nat:
  "delim rest \<Longrightarrow> parse_unsigned (show_nat n @ rest) = Some (show_nat n, rest)"
  using num_int_show_nat [of rest n] num_tail_delim [of rest] by (simp add: parse_unsigned_def)

lemma parse_num_show_int:
  assumes "delim rest"
  shows "parse_num (show_int i @ rest) = Some (show_int i, rest)"
proof (cases "i < 0")
  case True
  then show ?thesis
    using parse_unsigned_show_nat [OF assms] by (simp add: parse_num_def show_int_def)
next
  case False
  obtain c cs where cs: "show_nat (nat i) = c # cs" by (cases "show_nat (nat i)") auto
  have "c \<noteq> CHR ''-''" using show_nat_hd [of "nat i"] cs by auto
  then have "parse_num (c # cs @ rest) = parse_unsigned (c # cs @ rest)"
    by (simp add: parse_num_def)
  then show ?thesis
    using False parse_unsigned_show_nat [OF assms, of "nat i"] by (simp add: show_int_def cs)
qed

lemma show_int_hd: "\<exists>c cs. show_int i = c # cs \<and> (is_digit c \<or> c = CHR ''-'')"
proof (cases "i < 0")
  case False
  then show ?thesis using show_nat_hd [of "nat i"]
    by (cases "show_nat (nat i)") (auto simp: show_int_def)
qed (simp add: show_int_def)

lemma parse_value_num:
  assumes "delim rest"
  shows "parse_value d (show_int i @ rest) = Some (JNum (show_int i), rest)"
proof -
  obtain c cs where cs: "show_int i = c # cs" and c: "is_digit c \<or> c = CHR ''-''"
    using show_int_hd by blast
  then have "\<not> is_ws c" "c \<notin> {CHR ''{'', CHR ''['', dquote, CHR ''n'', CHR ''t'', CHR ''f''}"
    by (auto simp: is_ws_def)
  then show ?thesis
    using parse_num_show_int [OF assms, of i] by (simp add: cs parse_value.simps [of d "c # _"])
qed

lemma parse_value_str:
  "valid_utf8 t \<Longrightarrow> parse_value d (quote t @ rest) = Some (JStr t, rest)"
  using parse_str_quote_body [of t rest]
  by (simp add: quote_def parse_value.simps [of d "dquote # _"])

lemma parse_elems_print:
  assumes "vs \<noteq> []"
    and "\<And>v rest. v \<in> set vs \<Longrightarrow> delim rest \<Longrightarrow> parse_value d (print_json v @ rest) = Some (v, rest)"
  shows "parse_elems d (sep_by_comma (map print_json vs) @ CHR '']'' # rest) = Some (vs, rest)"
  using assms
proof (induction vs rule: induct_list012)
  case (2 v)
  then show ?case by (simp add: parse_elems.simps)
next
  case (3 v w vs)
  let ?r = "sep_by_comma (map print_json (w # vs)) @ CHR '']'' # rest"
  have "parse_elems d ?r = Some (w # vs, rest)" using 3 by simp
  moreover have "parse_value d (print_json v @ CHR '','' # ?r) = Some (v, CHR '','' # ?r)"
    using 3 by simp
  ultimately show ?case
    by (simp add: parse_elems.simps [of d "print_json v @ _"])
qed simp

lemma parse_members_print:
  assumes "kvs \<noteq> []"
    and "\<And>kv. kv \<in> set kvs \<Longrightarrow> valid_utf8 (fst kv)"
    and "\<And>kv rest. kv \<in> set kvs \<Longrightarrow> delim rest \<Longrightarrow>
           parse_value d (print_json (snd kv) @ rest) = Some (snd kv, rest)"
  shows "parse_members d (sep_by_comma (map (\<lambda>(k, v). quote k @ CHR '':'' # print_json v) kvs)
           @ CHR ''}'' # rest) = Some (kvs, rest)"
  using assms
proof (induction kvs rule: induct_list012)
  case (2 kv)
  then show ?case
    by (cases kv) (simp add: quote_def parse_str_quote_body
        parse_members.simps [of d "dquote # _"])
next
  case (3 kv kw kvs)
  obtain k v where kv: "kv = (k, v)" by (cases kv)
  let ?r = "sep_by_comma (map (\<lambda>(k, v). quote k @ CHR '':'' # print_json v) (kw # kvs)) @ CHR ''}'' # rest"
  have "parse_members d ?r = Some (kw # kvs, rest)" using 3 by simp
  moreover have "parse_value d (print_json v @ CHR '','' # ?r) = Some (v, CHR '','' # ?r)"
    using "3.prems"(3) [of kv] kv by simp
  moreover have "valid_utf8 k" using "3.prems"(2) [of kv] kv by simp
  ultimately show ?case
    by (simp add: kv quote_def parse_str_quote_body parse_members.simps [of d "dquote # _"])
qed simp

lemma print_json_hd:
  assumes "wf_json d v"
  shows "\<exists>c cs. print_json v = c # cs \<and> \<not> is_ws c \<and> c \<noteq> CHR '']'' \<and> c \<noteq> CHR ''}''"
proof (cases v)
  case (JNum n)
  with assms obtain i where "n = show_int i" by (auto split: option.splits)
  with JNum show ?thesis using show_int_hd [of i] by (auto simp: is_ws_def)
qed (auto simp: quote_def)

lemma sep_by_comma_hd: "x = c # cs \<Longrightarrow> \<exists>ds. sep_by_comma (x # xs) @ r = c # ds"
  by (cases xs) auto

text \<open>A printed value is read back, whatever delimiter follows it.\<close>

lemma parse_print:
  "wf_json d v \<Longrightarrow> delim rest \<Longrightarrow> parse_value d (print_json v @ rest) = Some (v, rest)"
proof (induction v arbitrary: d rest)
  case JNull
  then show ?case by (simp add: parse_value.simps literal_def)
next
  case (JBool b)
  then show ?case by (simp add: parse_value.simps literal_def)
next
  case (JNum n)
  then show ?case by (auto simp: parse_value_num split: option.splits)
next
  case (JStr s)
  then show ?case by (simp add: parse_value_str)
next
  case (JArr vs)
  show ?case
  proof (cases vs)
    case Nil
    with JArr show ?thesis by (simp add: parse_value.simps)
  next
    case (Cons v ws)
    obtain c cs where c: "print_json v = c # cs" "\<not> is_ws c" "c \<noteq> CHR '']''"
      using JArr.prems(1) Cons print_json_hd [of "d - 1" v] by auto
    obtain ds where ds: "sep_by_comma (map print_json vs) @ CHR '']'' # rest = c # ds"
      using sep_by_comma_hd [OF c(1)] Cons by auto
    have "parse_elems (d - 1) (c # ds) = Some (vs, rest)"
      unfolding ds [symmetric] using JArr Cons by (intro parse_elems_print) auto
    with JArr.prems c ds show ?thesis
      by (simp add: parse_value.simps [of d "CHR ''['' # _"])
  qed
next
  case (JObj kvs)
  show ?case
  proof (cases kvs)
    case Nil
    with JObj show ?thesis by (simp add: parse_value.simps)
  next
    case (Cons kv ws)
    obtain ds where ds: "sep_by_comma (map (\<lambda>(k, v). quote k @ CHR '':'' # print_json v) kvs)
        @ CHR ''}'' # rest = dquote # ds"
      using sep_by_comma_hd [of "quote (fst kv) @ CHR '':'' # print_json (snd kv)" dquote _ _ "CHR ''}'' # rest"] Cons
      by (auto simp: quote_def case_prod_beta)
    have "parse_members (d - 1) (dquote # ds) = Some (kvs, rest)"
      unfolding ds [symmetric] using JObj Cons by (intro parse_members_print) fastforce+
    with JObj.prems ds show ?thesis
      by (simp add: parse_value.simps [of d "CHR ''{'' # _"])
  qed
qed

lemma json_parse_print: "wf_json maxNestingDepth v \<Longrightarrow> json_parse (print_json v) = Some v"
  using parse_print [of maxNestingDepth v "[]"] by (simp add: json_parse_def)

end
