(* ===== verification/Base64.thy ===== *)
theory Base64
  imports Prelude
begin

text \<open>
  Package \<open>encoding/base64\<close>, \<open>StdEncoding\<close>: the form in which \<open>encoding/json\<close> writes a
  \<open>[]byte\<close>. Groups of three bytes become four letters; the last group is padded with
  \<open>=\<close>. Decoding skips carriage returns and newlines and rejects any other letter outside
  the alphabet, a length that is not a multiple of four and misplaced padding.
\<close>

definition b64_char :: "nat \<Rightarrow> char" where
  "b64_char n =
     (if n < 26 then char_of (65 + n) else if n < 52 then char_of (71 + n)
      else if n < 62 then char_of (n - 4) else if n = 62 then CHR ''+'' else CHR ''/'')"

definition b64_val :: "char \<Rightarrow> nat option" where
  "b64_val c =
     (let n = of_char c :: nat in
      if 65 \<le> n \<and> n \<le> 90 then Some (n - 65)
      else if 97 \<le> n \<and> n \<le> 122 then Some (n - 71)
      else if 48 \<le> n \<and> n \<le> 57 then Some (n + 4)
      else if c = CHR ''+'' then Some 62 else if c = CHR ''/'' then Some 63 else None)"

lemma b64_val_char [simp]: "n < 64 \<Longrightarrow> b64_val (b64_char n) = Some n"
  by (auto simp: b64_val_def b64_char_def Let_def char_of_eq_iff)

lemma b64_char_plain [simp]:
  "n < 64 \<Longrightarrow> b64_char n \<noteq> CHR ''=''"
  "n < 64 \<Longrightarrow> b64_char n \<noteq> CHR 0x0A"
  "n < 64 \<Longrightarrow> b64_char n \<noteq> CHR 0x0D"
  by (auto simp: b64_char_def char_of_eq_iff take_bit_eq_mod)

text \<open>The letters of the alphabet need no escape in a JSON string.\<close>

definition b64_letter :: "char \<Rightarrow> bool" where
  "b64_letter c \<longleftrightarrow> b64_val c \<noteq> None \<or> c = CHR ''=''"

lemma b64_letter_char [simp]: "n < 64 \<Longrightarrow> b64_letter (b64_char n)"
  by (simp add: b64_letter_def)

lemma b64_letter_eq [simp]: "b64_letter CHR ''=''"
  by (simp add: b64_letter_def)

text \<open>The four 6-bit groups of three bytes \<open>a\<close>, \<open>b\<close>, \<open>c\<close>.\<close>

definition sextet1 :: "nat \<Rightarrow> nat" where "sextet1 a = a div 4"
definition sextet2 :: "nat \<Rightarrow> nat \<Rightarrow> nat" where "sextet2 a b = a mod 4 * 16 + b div 16"
definition sextet3 :: "nat \<Rightarrow> nat \<Rightarrow> nat" where "sextet3 b c = b mod 16 * 4 + c div 64"
definition sextet4 :: "nat \<Rightarrow> nat" where "sextet4 c = c mod 64"

definition octet1 :: "nat \<Rightarrow> nat \<Rightarrow> byte" where "octet1 w x = of_nat (w * 4 + x div 16)"
definition octet2 :: "nat \<Rightarrow> nat \<Rightarrow> byte" where "octet2 x y = of_nat (x mod 16 * 16 + y div 4)"
definition octet3 :: "nat \<Rightarrow> nat \<Rightarrow> byte" where "octet3 y z = of_nat (y mod 4 * 64 + z)"

lemmas sextets = sextet1_def sextet2_def sextet3_def sextet4_def
lemmas octets = octet1_def octet2_def octet3_def

fun EncodeToString64 :: "bytes \<Rightarrow> string" where
  "EncodeToString64 [] = []"
| "EncodeToString64 [a] =
     [b64_char (sextet1 (unat a)), b64_char (sextet2 (unat a) 0), CHR ''='', CHR ''='']"
| "EncodeToString64 [a, b] =
     [b64_char (sextet1 (unat a)), b64_char (sextet2 (unat a) (unat b)),
      b64_char (sextet3 (unat b) 0), CHR ''='']"
| "EncodeToString64 (a # b # c # rest) =
     b64_char (sextet1 (unat a)) # b64_char (sextet2 (unat a) (unat b)) #
     b64_char (sextet3 (unat b) (unat c)) # b64_char (sextet4 (unat c)) # EncodeToString64 rest"

fun decode_quads :: "string \<Rightarrow> bytes option" where
  "decode_quads [] = Some []"
| "decode_quads (p # q # r # s # rest) =
     (case (b64_val p, b64_val q) of
        (Some w, Some x) \<Rightarrow>
          if r = CHR ''='' then
            (if s = CHR ''='' \<and> rest = [] then Some [octet1 w x] else None)
          else (case b64_val r of
            None \<Rightarrow> None
          | Some y \<Rightarrow>
              if s = CHR ''='' then
                (if rest = [] then Some [octet1 w x, octet2 x y] else None)
              else (case b64_val s of
                None \<Rightarrow> None
              | Some z \<Rightarrow> map_option (\<lambda>bs. octet1 w x # octet2 x y # octet3 y z # bs)
                           (decode_quads rest)))
      | _ \<Rightarrow> None)"
| "decode_quads _ = None"

definition DecodeString64 :: "string \<Rightarrow> bytes option" where
  "DecodeString64 s = decode_quads (filter (\<lambda>c. c \<noteq> CHR 0x0A \<and> c \<noteq> CHR 0x0D) s)"

lemma unat_byte_less [simp]: "unat (b :: byte) < 256"
  using unsigned_less [of b, where 'a = nat] by simp

lemma sextet_less [simp]:
  "a < 256 \<Longrightarrow> sextet1 a < 64" "b < 256 \<Longrightarrow> sextet2 a b < 64"
  "c < 256 \<Longrightarrow> sextet3 b c < 64" "sextet4 c < 64"
  "sextet2 a 0 < 64" "sextet3 b 0 < 64"
  unfolding sextets by (auto simp: less_mult_imp_div_less)

lemma regroup:
  "b < 256 \<Longrightarrow> a div 4 * 4 + (a mod 4 * 16 + b div 16) div 16 = (a::nat)"
  "c < 256 \<Longrightarrow> (a mod 4 * 16 + b div 16) mod 16 * 16 + (b mod 16 * 4 + c div 64) div 4 =
     (b div 16 mod 16 * 16 + b mod 16 :: nat)"
  "c < 256 \<Longrightarrow> (b mod 16 * 4 + c div 64) mod 4 * 64 + c mod 64 = (c::nat)"
proof -
  show "b < 256 \<Longrightarrow> a div 4 * 4 + (a mod 4 * 16 + b div 16) div 16 = a"
    by (simp add: less_mult_imp_div_less)
  show "c < 256 \<Longrightarrow> (a mod 4 * 16 + b div 16) mod 16 * 16 + (b mod 16 * 4 + c div 64) div 4 =
     b div 16 mod 16 * 16 + b mod 16"
    by (simp add: less_mult_imp_div_less)
  show "c < 256 \<Longrightarrow> (b mod 16 * 4 + c div 64) mod 4 * 64 + c mod 64 = c"
    by (simp add: less_mult_imp_div_less)
qed

lemma octet_sextet [simp]:
  "octet1 (sextet1 (unat a)) (sextet2 (unat a) (unat b)) = a"
  "octet1 (sextet1 (unat a)) (sextet2 (unat a) 0) = a"
  "octet2 (sextet2 (unat a) (unat b)) (sextet3 (unat b) (unat c)) = b"
  "octet2 (sextet2 (unat a) (unat b)) (sextet3 (unat b) 0) = b"
  "octet3 (sextet3 (unat b) (unat c)) (sextet4 (unat c)) = c"
  using regroup(1) [of "unat b" "unat a"] regroup(1) [of 0 "unat a"]
    regroup(2) [of "unat c" "unat a" "unat b"] regroup(2) [of 0 "unat a" "unat b"]
    regroup(3) [of "unat c" "unat b"]
  unfolding octets sextets
  by (simp_all add: less_mult_imp_div_less unat_byte_less del: of_nat_add of_nat_mult)

lemma decode_quads_encode: "decode_quads (EncodeToString64 bs) = Some bs"
  by (induction bs rule: EncodeToString64.induct) simp_all

lemma encode_no_newline:
  "\<forall>c \<in> set (EncodeToString64 bs). c \<noteq> CHR 0x0A \<and> c \<noteq> CHR 0x0D"
  by (induction bs rule: EncodeToString64.induct) simp_all

lemma encode_letters: "\<forall>c \<in> set (EncodeToString64 bs). b64_letter c"
  by (induction bs rule: EncodeToString64.induct) simp_all

text \<open>Decoding inverts encoding.\<close>

lemma DecodeString64_EncodeToString64 [simp]: "DecodeString64 (EncodeToString64 bs) = Some bs"
proof -
  have "filter (\<lambda>c. c \<noteq> CHR 0x0A \<and> c \<noteq> CHR 0x0D) (EncodeToString64 bs) = EncodeToString64 bs"
    using encode_no_newline by (simp add: filter_id_conv)
  then show ?thesis by (simp add: DecodeString64_def decode_quads_encode)
qed

end
