(* ===== verification/Crc32.thy ===== *)
theory Crc32
  imports Prelude
begin

unbundle bit_operations_syntax

text \<open>
  Package \<open>hash/crc32\<close>, \<open>ChecksumIEEE\<close>: the reflected CRC-32 with polynomial
  \<open>0xEDB88320\<close>, one bit at a time. The fact the WAL relies on is that a change confined
  to one byte always changes the checksum.
\<close>

definition crc_poly :: uint32 where
  "crc_poly = 0xEDB88320"

definition crc_bit :: "uint32 \<Rightarrow> uint32" where
  "crc_bit x = (if bit x 0 then drop_bit 1 x XOR crc_poly else drop_bit 1 x)"

definition crc_byte :: "uint32 \<Rightarrow> byte \<Rightarrow> uint32" where
  "crc_byte crc b = (crc_bit ^^ 8) (crc XOR ucast b)"

definition ChecksumIEEE :: "bytes \<Rightarrow> uint32" where
  "ChecksumIEEE bs = NOT (foldl crc_byte (NOT 0) bs)"

lemma crc_poly_top: "bit crc_poly 31"
  by (simp add: crc_poly_def)

lemma drop_bit_top: "\<not> bit (drop_bit 1 (x :: uint32)) 31"
  by (simp add: bit_drop_bit_eq bit_word_iff_drop_bit_and)

lemma crc_bit8: "(crc_bit ^^ 8) x =
    crc_bit (crc_bit (crc_bit (crc_bit (crc_bit (crc_bit (crc_bit (crc_bit x)))))))"
  by (simp add: eval_nat_numeral)

lemmas crc_eval = crc_byte_def crc_bit8 crc_bit_def crc_poly_def

text \<open>The published check value of CRC-32: the checksum of the ASCII text \<open>123456789\<close>.\<close>

lemma ChecksumIEEE_check: "ChecksumIEEE [0x31, 0x32, 0x33, 0x34, 0x35, 0x36, 0x37, 0x38, 0x39] = 0xCBF43926"
  by (simp add: ChecksumIEEE_def crc_eval)

text \<open>One shift of the register is injective: the top bit of the result tells which branch
  was taken, because the polynomial has its top bit set.\<close>

lemma crc_bit_low: "bit (crc_bit x) 31 = bit x 0"
  using crc_poly_top drop_bit_top [of x] by (auto simp: crc_bit_def bit_simps)

lemma drop_bit_low_eq:
  assumes "drop_bit 1 x = drop_bit 1 (y :: uint32)" and "bit x 0 = bit y 0"
  shows "x = y"
proof (rule bit_word_eqI)
  fix n
  show "bit x n \<longleftrightarrow> bit y n"
  proof (cases n)
    case (Suc m)
    have "bit (drop_bit 1 x) m = bit (drop_bit 1 y) m" using assms(1) by simp
    then show ?thesis by (simp add: Suc bit_drop_bit_eq)
  qed (simp add: assms(2))
qed

lemma crc_bit_inj: "inj crc_bit"
proof (rule injI)
  fix x y :: uint32
  assume eq: "crc_bit x = crc_bit y"
  then have low: "bit x 0 = bit y 0" by (metis crc_bit_low)
  have "drop_bit 1 x = drop_bit 1 y"
  proof (cases "bit x 0")
    case True
    with eq low have "(drop_bit 1 x XOR crc_poly) XOR crc_poly = (drop_bit 1 y XOR crc_poly) XOR crc_poly"
      by (simp add: crc_bit_def)
    then show ?thesis by (simp add: xor.assoc)
  next
    case False
    with eq low show ?thesis by (simp add: crc_bit_def)
  qed
  then show "x = y" using low by (rule drop_bit_low_eq)
qed

lemma crc_byte_register_inj: "crc_byte c a = crc_byte d a \<Longrightarrow> c = d"
proof -
  assume "crc_byte c a = crc_byte d a"
  then have "c XOR ucast a = d XOR ucast a"
    by (simp add: crc_byte_def crc_bit8 crc_bit_inj [THEN inj_eq])
  then have "(c XOR ucast a) XOR ucast a = (d XOR ucast a) XOR ucast a" by simp
  then show ?thesis by (simp add: xor.assoc)
qed

lemma crc_byte_input_inj: "crc_byte c a = crc_byte c b \<Longrightarrow> a = b"
proof -
  assume "crc_byte c a = crc_byte c b"
  then have "c XOR ucast a = c XOR ucast b"
    by (simp add: crc_byte_def crc_bit8 crc_bit_inj [THEN inj_eq])
  then have "c XOR (c XOR ucast a) = c XOR (c XOR ucast b)" by simp
  then have "(ucast a :: uint32) = ucast b" by (simp add: xor.assoc [symmetric])
  then have "(ucast (ucast a :: uint32) :: byte) = ucast (ucast b :: uint32)" by simp
  then show ?thesis by (simp add: ucast_up_ucast_id is_up)
qed

lemma foldl_crc_inj: "foldl crc_byte c ys = foldl crc_byte d ys \<Longrightarrow> c = d"
  by (induction ys arbitrary: c d) (auto dest: crc_byte_register_inj)

text \<open>A change confined to one byte changes the checksum.\<close>

lemma ChecksumIEEE_one_byte:
  assumes "a \<noteq> b"
  shows "ChecksumIEEE (xs @ a # ys) \<noteq> ChecksumIEEE (xs @ b # ys)"
proof
  assume "ChecksumIEEE (xs @ a # ys) = ChecksumIEEE (xs @ b # ys)"
  then have "foldl crc_byte (NOT 0) (xs @ a # ys) = foldl crc_byte (NOT 0) (xs @ b # ys)"
    unfolding ChecksumIEEE_def by (metis bit.double_compl)
  then have "crc_byte (foldl crc_byte (NOT 0) xs) a = crc_byte (foldl crc_byte (NOT 0) xs) b"
    by (auto dest: foldl_crc_inj)
  with assms show False by (auto dest: crc_byte_input_inj)
qed

end
