(* ===== verification/LogScan.thy ===== *)
theory LogScan
  imports Prelude
begin

text \<open>
  The interface between the record codec and the log that is made of its records: what the
  reader of an append-only log needs of \<open>enc\<close> and \<open>dec\<close>. The laws are those of a
  self-delimiting code that detects a record cut short; the lemmas say what a scan of a log
  finds, in particular after a crash in the middle of an append.
\<close>

text \<open>The scan: decode records from the front until the end or the first failure.\<close>

function scan_log :: "('b list \<Rightarrow> ('r \<times> nat) option outcome) \<Rightarrow> 'b list \<Rightarrow> 'r list outcome" where
  "scan_log dec data =
     (if data = [] then Ret []
      else case dec data of
        Panic \<Rightarrow> Panic
      | Ret None \<Rightarrow> Ret []
      | Ret (Some (r, n)) \<Rightarrow>
          if n = 0 then Panic
          else bind_outcome (scan_log dec (drop n data)) (\<lambda>rs. Ret (r # rs)))"
  by pat_completeness auto
termination
  by (relation "measure (\<lambda>(dec, data). length data)") auto

declare scan_log.simps [simp del]

lemma scan_log_Nil [simp]: "scan_log dec [] = Ret []"
  by (simp add: scan_log.simps)

lemma scan_log_fail: "dec data = Ret None \<Longrightarrow> scan_log dec data = Ret []"
  by (simp add: scan_log.simps)

lemma scan_log_step:
  "dec data = Ret (Some (r, n)) \<Longrightarrow> 0 < n \<Longrightarrow> data \<noteq> [] \<Longrightarrow>
     scan_log dec data = bind_outcome (scan_log dec (drop n data)) (\<lambda>rs. Ret (r # rs))"
  by (simp add: scan_log.simps [of dec data])

text \<open>The log of a list of records.\<close>

definition log_of :: "('r \<Rightarrow> 'b list) \<Rightarrow> 'r list \<Rightarrow> 'b list" where
  "log_of enc rs = concat (map enc rs)"

lemma log_of_simps [simp]:
  "log_of enc [] = []" "log_of enc (r # rs) = enc r @ log_of enc rs"
  "log_of enc (rs @ ss) = log_of enc rs @ log_of enc ss"
  by (simp_all add: log_of_def)

locale record_codec =
  fixes enc :: "'r \<Rightarrow> 'b list"
    and dec :: "'b list \<Rightarrow> ('r \<times> nat) option outcome"
    and ok :: "'r \<Rightarrow> bool"
  assumes enc_nonempty: "enc r \<noteq> []"
    and dec_enc: "ok r \<Longrightarrow> dec (enc r @ rest) = Ret (Some (r, length (enc r)))"
    and dec_torn: "ok r \<Longrightarrow> k < length (enc r) \<Longrightarrow> dec (take k (enc r)) = Ret None"
begin

text \<open>A scan finds the records of the log, and whatever a scan of the rest finds.\<close>

lemma scan_log_append:
  "\<forall>r \<in> set rs. ok r \<Longrightarrow>
     scan_log dec (log_of enc rs @ t) = bind_outcome (scan_log dec t) (\<lambda>ss. Ret (rs @ ss))"
proof (induction rs)
  case Nil
  show ?case by (cases "scan_log dec t") auto
next
  case (Cons r rs)
  then have "scan_log dec (enc r @ log_of enc rs @ t) =
      bind_outcome (scan_log dec (log_of enc rs @ t)) (\<lambda>rs. Ret (r # rs))"
    using scan_log_step [of dec "enc r @ log_of enc rs @ t" r "length (enc r)"] dec_enc enc_nonempty [of r] by simp
  with Cons show ?case by (cases "scan_log dec t") auto
qed

lemma scan_log_of: "\<forall>r \<in> set rs. ok r \<Longrightarrow> scan_log dec (log_of enc rs) = Ret rs"
  using scan_log_append [of rs "[]"] by simp

text \<open>A crash during an append leaves a prefix of the new record; the scan finds exactly the
  records that were complete before.\<close>

lemma scan_log_crash:
  assumes "\<forall>r \<in> set rs. ok r" and "ok r" and "k < length (enc r)"
  shows "scan_log dec (log_of enc rs @ take k (enc r)) = Ret rs"
  using scan_log_append [OF assms(1), of "take k (enc r)"] dec_torn [OF assms(2,3)]
  by (simp add: scan_log_fail)

text \<open>Whatever comes after bytes that do not decode is never reached.\<close>

lemma scan_log_blocked:
  assumes "\<forall>r \<in> set rs. ok r" and "dec t = Ret None"
  shows "scan_log dec (log_of enc rs @ t) = Ret rs"
  using scan_log_append [OF assms(1), of t] assms(2) by (simp add: scan_log_fail)

end

end
