(* ===== verification/Core.thy ===== *)
theory Core
  imports Prelude
begin

text \<open>
  Package \<open>internal/core\<close>: the message record every component exchanges, its delivery
  status, and the dead-letter naming convention.
\<close>

text \<open>\<open>DeliveryStatus\<close> and \<open>AckOutcome\<close> (message.go).\<close>

datatype DeliveryStatus = StatusPending | StatusInFlight | StatusAcked | StatusNacked | StatusDead

datatype AckOutcome = OutcomeAck | OutcomeNack

record Header =
  Key :: string
  Value :: string

record Message =
  ID :: MessageID
  Queue :: string
  Payload :: "bytes option"
  Headers :: "Header list"
  RetryCount :: int32
  EnqueueTime :: time
  DispatchedAt :: time
  Status :: DeliveryStatus

text \<open>The zero value \<open>core.Message{}\<close>.\<close>

definition zero_Message :: Message where
  "zero_Message = \<lparr>ID = [], Queue = [], Payload = None, Headers = [], RetryCount = 0,
     EnqueueTime = time_zero, DispatchedAt = time_zero, Status = StatusPending\<rparr>"

definition WithRetry :: "Message \<Rightarrow> Message" where
  "WithRetry m = m\<lparr>RetryCount := RetryCount m + 1, Status := StatusPending\<rparr>"

text \<open>\<open>config.go\<close>: the configuration struct.\<close>

record BrokerConfig =
  QueueName :: string
  WALDir :: string
  ListenAddr :: string
  MaxRetries :: int32
  DispatchTimeout :: duration

definition DLQSuffix :: string where
  "DLQSuffix = ''.dlq''"

definition IsDLQQueue :: "string \<Rightarrow> bool" where
  "IsDLQQueue queue = HasSuffix queue DLQSuffix"

lemma WithRetry_simps [simp]:
  "ID (WithRetry m) = ID m"
  "Queue (WithRetry m) = Queue m"
  "Payload (WithRetry m) = Payload m"
  "Headers (WithRetry m) = Headers m"
  "RetryCount (WithRetry m) = RetryCount m + 1"
  "EnqueueTime (WithRetry m) = EnqueueTime m"
  "DispatchedAt (WithRetry m) = DispatchedAt m"
  "Status (WithRetry m) = StatusPending"
  by (simp_all add: WithRetry_def)

lemma IsDLQQueue_append [simp]: "IsDLQQueue (q @ DLQSuffix)"
  by (simp add: IsDLQQueue_def)

text \<open>Below the limit the retry counter does not wrap.\<close>

lemma sint_RetryCount_WithRetry:
  "sint (RetryCount m) < sint (lim :: int32) \<Longrightarrow>
     sint (RetryCount (WithRetry m)) = sint (RetryCount m) + 1"
  by (simp add: sint_plus_one)

end
