(* ===== verification/WalRecord.thy ===== *)
theory WalRecord
  imports Json Base64 Crc32 LogScan Core
begin

unbundle bit_operations_syntax

text \<open>
  \<open>internal/wal/record.go\<close>: the WAL record envelope. A record is the JSON text of a
  \<open>record\<close> struct between a header (magic, type, length) and a CRC-32 trailer. \<open>encode\<close>
  builds the bytes, \<open>decode\<close> reads one record from the front of a buffer. The uint32
  arithmetic of \<open>decode\<close>'s slice bounds is kept at its width, and a slice expression out of
  range is a panic.
\<close>

subsection \<open>Structs\<close>

definition magicVal :: uint32 where "magicVal = 0xC0FFEE01"
definition headerSize :: nat where "headerSize = 4 + 1 + 4"
definition checksumSize :: nat where "checksumSize = 4"
definition recordOverhead :: nat where "recordOverhead = headerSize + checksumSize"

lemma recordOverhead_eq [simp]: "recordOverhead = 13"
  by (simp add: recordOverhead_def headerSize_def checksumSize_def)

type_synonym RecordType = byte

definition RecordMessage :: RecordType where "RecordMessage = 0x01"
definition RecordTombstone :: RecordType where "RecordTombstone = 0x02"

record recordHeader =
  rhKey :: string
  rhValue :: string

record recordMsg =
  rmQueue :: string
  rmPayload :: "bytes option"
  rmHeaders :: "recordHeader list"
  rmRetryCount :: int32
  rmEnqueueTime :: int64

record wal_record =
  recType :: RecordType
  recID :: string
  recMsg :: "recordMsg option"

definition zero_header :: recordHeader where
  "zero_header = \<lparr>rhKey = [], rhValue = []\<rparr>"

definition zero_recordMsg :: recordMsg where
  "zero_recordMsg = \<lparr>rmQueue = [], rmPayload = None, rmHeaders = [], rmRetryCount = 0, rmEnqueueTime = 0\<rparr>"

definition zero_record :: wal_record where
  "zero_record = \<lparr>recType = 0, recID = [], recMsg = None\<rparr>"

subsection \<open>json.Marshal of a record\<close>

definition json_of_bytes :: "bytes option \<Rightarrow> json" where
  "json_of_bytes p = (case p of None \<Rightarrow> JNull | Some bs \<Rightarrow> JStr (EncodeToString64 bs))"

definition json_of_header :: "recordHeader \<Rightarrow> json" where
  "json_of_header h = JObj [(''k'', JStr (rhKey h)), (''v'', JStr (rhValue h))]"

definition json_of_recordMsg :: "recordMsg \<Rightarrow> json" where
  "json_of_recordMsg m = JObj
     ([(''q'', JStr (rmQueue m)), (''p'', json_of_bytes (rmPayload m))]
      @ (if rmHeaders m = [] then [] else [(''h'', JArr (map json_of_header (rmHeaders m)))])
      @ [(''r'', JNum (show_int (sint (rmRetryCount m)))),
         (''t'', JNum (show_int (sint (rmEnqueueTime m))))])"

definition json_of_record :: "wal_record \<Rightarrow> json" where
  "json_of_record r = JObj
     ([(''t'', JNum (show_int (uint (recType r)))), (''id'', JStr (recID r))]
      @ (case recMsg r of None \<Rightarrow> [] | Some m \<Rightarrow> [(''m'', json_of_recordMsg m)]))"

definition string_bytes :: "string \<Rightarrow> bytes" where
  "string_bytes s = map (\<lambda>c. of_nat (ord c)) s"

definition bytes_string :: "bytes \<Rightarrow> string" where
  "bytes_string bs = map (\<lambda>b. char_of (unat b)) bs"

text \<open>Strings, byte slices and integers always marshal, so no record is refused.\<close>

definition json_Marshal :: "wal_record \<Rightarrow> error + bytes" where
  "json_Marshal r = Inr (string_bytes (print_json (json_of_record r)))"

subsection \<open>json.Unmarshal into a record\<close>

text \<open>Keys match a field name up to Unicode case folding.\<close>

fun fold_name :: "string \<Rightarrow> string" where
  "fold_name [] = []"
| "fold_name (c # cs) =
     (if 65 \<le> ord c \<and> ord c \<le> 90 then char_of (ord c + 32) # fold_name cs
      else if c = CHR 0xE2 \<and> take 2 cs = [CHR 0x84, CHR 0xAA] then CHR ''k'' # fold_name (drop 2 cs)
      else if c = CHR 0xC5 \<and> take 1 cs = [CHR 0xBF] then CHR ''s'' # fold_name (drop 1 cs)
      else c # fold_name cs)"

definition unm_string :: "string \<Rightarrow> json \<Rightarrow> string option" where
  "unm_string old v = (case v of JNull \<Rightarrow> Some old | JStr s \<Rightarrow> Some s | _ \<Rightarrow> None)"

definition unm_uint8 :: "byte \<Rightarrow> json \<Rightarrow> byte option" where
  "unm_uint8 old v =
     (case v of
        JNull \<Rightarrow> Some old
      | JNum n \<Rightarrow> (case parse_nat n of
            Some k \<Rightarrow> if k < 256 then Some (of_nat k) else None
          | None \<Rightarrow> None)
      | _ \<Rightarrow> None)"

definition unm_int :: "'a::len word \<Rightarrow> json \<Rightarrow> 'a word option" where
  "unm_int old v =
     (case v of
        JNull \<Rightarrow> Some old
      | JNum n \<Rightarrow> (case parse_int n of
            Some i \<Rightarrow> if - (2 ^ (LENGTH('a) - 1)) \<le> i \<and> i < 2 ^ (LENGTH('a) - 1)
                      then Some (word_of_int i) else None
          | None \<Rightarrow> None)
      | _ \<Rightarrow> None)"

text \<open>Elements are decoded over the ones the slice already has.\<close>

fun unm_list :: "('a \<Rightarrow> json \<Rightarrow> 'a option) \<Rightarrow> 'a \<Rightarrow> 'a list \<Rightarrow> json list \<Rightarrow> 'a list option" where
  "unm_list f z old [] = Some []"
| "unm_list f z old (v # vs) =
     (case f (case old of [] \<Rightarrow> z | x # _ \<Rightarrow> x) v of
        None \<Rightarrow> None
      | Some x \<Rightarrow> map_option (\<lambda>xs. x # xs) (unm_list f z (tl old) vs))"

definition unm_bytes :: "bytes option \<Rightarrow> json \<Rightarrow> bytes option option" where
  "unm_bytes old v =
     (case v of
        JNull \<Rightarrow> Some None
      | JStr s \<Rightarrow> map_option Some (DecodeString64 s)
      | JArr vs \<Rightarrow> map_option Some (unm_list unm_uint8 0 (case old of None \<Rightarrow> [] | Some bs \<Rightarrow> bs) vs)
      | _ \<Rightarrow> None)"

fun unm_fields :: "('s \<Rightarrow> string \<Rightarrow> json \<Rightarrow> 's option) \<Rightarrow> 's \<Rightarrow> (string \<times> json) list \<Rightarrow> 's option" where
  "unm_fields f st [] = Some st"
| "unm_fields f st ((k, v) # kvs) =
     (case f st (fold_name k) v of None \<Rightarrow> None | Some st' \<Rightarrow> unm_fields f st' kvs)"

definition unm_struct :: "('s \<Rightarrow> string \<Rightarrow> json \<Rightarrow> 's option) \<Rightarrow> 's \<Rightarrow> json \<Rightarrow> 's option" where
  "unm_struct f old v =
     (case v of JNull \<Rightarrow> Some old | JObj kvs \<Rightarrow> unm_fields f old kvs | _ \<Rightarrow> None)"

definition header_field :: "recordHeader \<Rightarrow> string \<Rightarrow> json \<Rightarrow> recordHeader option" where
  "header_field h k v =
     (if k = ''k'' then map_option (\<lambda>s. h\<lparr>rhKey := s\<rparr>) (unm_string (rhKey h) v)
      else if k = ''v'' then map_option (\<lambda>s. h\<lparr>rhValue := s\<rparr>) (unm_string (rhValue h) v)
      else Some h)"

definition unm_headers :: "recordHeader list \<Rightarrow> json \<Rightarrow> recordHeader list option" where
  "unm_headers old v =
     (case v of
        JNull \<Rightarrow> Some []
      | JArr vs \<Rightarrow> unm_list (unm_struct header_field) zero_header old vs
      | _ \<Rightarrow> None)"

definition recordMsg_field :: "recordMsg \<Rightarrow> string \<Rightarrow> json \<Rightarrow> recordMsg option" where
  "recordMsg_field m k v =
     (if k = ''q'' then map_option (\<lambda>s. m\<lparr>rmQueue := s\<rparr>) (unm_string (rmQueue m) v)
      else if k = ''p'' then map_option (\<lambda>b. m\<lparr>rmPayload := b\<rparr>) (unm_bytes (rmPayload m) v)
      else if k = ''h'' then map_option (\<lambda>h. m\<lparr>rmHeaders := h\<rparr>) (unm_headers (rmHeaders m) v)
      else if k = ''r'' then map_option (\<lambda>i. m\<lparr>rmRetryCount := i\<rparr>) (unm_int (rmRetryCount m) v)
      else if k = ''t'' then map_option (\<lambda>i. m\<lparr>rmEnqueueTime := i\<rparr>) (unm_int (rmEnqueueTime m) v)
      else Some m)"

text \<open>The pointer field \<open>Msg *recordMsg\<close>: null makes it nil, an object is decoded into the
  struct it points to, allocated if it is nil.\<close>

definition unm_msg_ptr :: "recordMsg option \<Rightarrow> json \<Rightarrow> recordMsg option option" where
  "unm_msg_ptr old v =
     (case v of
        JNull \<Rightarrow> Some None
      | _ \<Rightarrow> map_option Some
           (unm_struct recordMsg_field (case old of None \<Rightarrow> zero_recordMsg | Some m \<Rightarrow> m) v))"

definition record_field :: "wal_record \<Rightarrow> string \<Rightarrow> json \<Rightarrow> wal_record option" where
  "record_field r k v =
     (if k = ''t'' then map_option (\<lambda>b. r\<lparr>recType := b\<rparr>) (unm_uint8 (recType r) v)
      else if k = ''id'' then map_option (\<lambda>s. r\<lparr>recID := s\<rparr>) (unm_string (recID r) v)
      else if k = ''m'' then map_option (\<lambda>m. r\<lparr>recMsg := m\<rparr>) (unm_msg_ptr (recMsg r) v)
      else Some r)"

definition json_Unmarshal :: "bytes \<Rightarrow> wal_record option" where
  "json_Unmarshal bs =
     (case json_parse (bytes_string bs) of
        None \<Rightarrow> None
      | Some v \<Rightarrow> unm_struct record_field zero_record v)"

subsection \<open>encode and decode\<close>

text \<open>\<open>binary.BigEndian.PutUint32\<close> and \<open>Uint32\<close>.\<close>

definition PutUint32 :: "uint32 \<Rightarrow> bytes" where
  "PutUint32 w = [ucast (drop_bit 24 w), ucast (drop_bit 16 w), ucast (drop_bit 8 w), ucast w]"

fun Uint32 :: "bytes \<Rightarrow> uint32 outcome" where
  "Uint32 (a # b # c # d # _) =
     Ret (push_bit 24 (ucast a) OR push_bit 16 (ucast b) OR push_bit 8 (ucast c) OR ucast d)"
| "Uint32 _ = Panic"

definition encode :: "wal_record \<Rightarrow> error + bytes" where
  "encode rec =
     (case json_Marshal rec of
        Inl err \<Rightarrow> Inl err
      | Inr payload \<Rightarrow>
          let body = recType rec # PutUint32 (of_nat (length payload)) @ payload;
              crc = ChecksumIEEE body
          in Inr (PutUint32 magicVal @ body @ PutUint32 crc))"

definition decode :: "bytes \<Rightarrow> (wal_record \<times> nat) option outcome" where
  "decode buf =
     (if length buf < recordOverhead then Ret None
      else bind_outcome (bind_outcome (slice buf 0 4) Uint32) (\<lambda>magic.
        if magic \<noteq> magicVal then Ret None
        else bind_outcome (bind_outcome (slice buf 5 9) Uint32) (\<lambda>payloadLen.
          let total = recordOverhead + unat payloadLen in
          if length buf < total then Ret None
          else bind_outcome (slice buf 4 (unat (9 + payloadLen))) (\<lambda>body.
            bind_outcome (bind_outcome (slice buf (unat (9 + payloadLen)) (unat (13 + payloadLen))) Uint32) (\<lambda>gotCRC.
              let wantCRC = ChecksumIEEE body in
              if wantCRC \<noteq> gotCRC then Ret None
              else bind_outcome (slice buf 9 (unat (9 + payloadLen))) (\<lambda>payload.
                case json_Unmarshal payload of
                  None \<Rightarrow> Ret None
                | Some rec \<Rightarrow> Ret (Some (rec, total))))))))"

subsection \<open>JSON round trip of a record\<close>

text \<open>The records the codec represents exactly: every string is well-formed UTF-8 (protobuf
  guarantees this for the strings of a request; identifiers are hexadecimal).\<close>

definition header_ok :: "recordHeader \<Rightarrow> bool" where
  "header_ok h \<longleftrightarrow> valid_utf8 (rhKey h) \<and> valid_utf8 (rhValue h)"

definition recordMsg_ok :: "recordMsg \<Rightarrow> bool" where
  "recordMsg_ok m \<longleftrightarrow> valid_utf8 (rmQueue m) \<and> list_all header_ok (rmHeaders m)"

definition representable :: "wal_record \<Rightarrow> bool" where
  "representable r \<longleftrightarrow> valid_utf8 (recID r) \<and> (case recMsg r of None \<Rightarrow> True | Some m \<Rightarrow> recordMsg_ok m)"

lemma bytes_string_string_bytes [simp]: "bytes_string (string_bytes s) = s"
proof -
  have "char_of (unat (of_nat (ord c) :: byte)) = c" for c
    using nat_of_char_less_256 [of c] by (simp add: unat_of_nat)
  then show ?thesis by (simp add: bytes_string_def string_bytes_def o_def)
qed

lemma length_string_bytes [simp]: "length (string_bytes s) = length s"
  by (simp add: string_bytes_def)

lemma fold_name_literals [simp]:
  "fold_name ''t'' = ''t''" "fold_name ''id'' = ''id''" "fold_name ''m'' = ''m''"
  "fold_name ''q'' = ''q''" "fold_name ''p'' = ''p''" "fold_name ''h'' = ''h''"
  "fold_name ''r'' = ''r''" "fold_name ''k'' = ''k''" "fold_name ''v'' = ''v''"
  by simp_all

lemma valid_utf8_literals [simp]:
  "valid_utf8 ''t''" "valid_utf8 ''id''" "valid_utf8 ''m''" "valid_utf8 ''q''" "valid_utf8 ''p''"
  "valid_utf8 ''h''" "valid_utf8 ''r''" "valid_utf8 ''k''" "valid_utf8 ''v''"
  by (rule valid_utf8_ascii, simp)+

lemma b64_letter_ascii: "b64_letter c \<Longrightarrow> ord c < 128"
  by (auto simp: b64_letter_def b64_val_def Let_def split: if_splits)

lemma valid_utf8_base64 [simp]: "valid_utf8 (EncodeToString64 bs)"
  using encode_letters by (intro valid_utf8_ascii) (auto dest: b64_letter_ascii)

lemma parse_nat_show_uint [simp]: "parse_nat (show_int (uint b)) = Some (unat b)"
  by (simp add: show_int_def)

lemma unm_values [simp]:
  "unm_string old (JStr s) = Some s"
  "unm_uint8 o8 (JNum (show_int (uint (b :: byte)))) = Some b"
  "unm_int oi (JNum (show_int (sint w))) = Some w"
  "unm_bytes ob (json_of_bytes p) = Some p"
  using sint_range [of w] unat_byte_less [of b]
  by (auto simp: unm_string_def unm_uint8_def unm_int_def unm_bytes_def json_of_bytes_def
      split: option.splits)

lemma unm_list_map:
  assumes "\<And>x old. x \<in> set xs \<Longrightarrow> f old (g x) = Some x"
  shows "unm_list f z old (map g xs) = Some xs"
  using assms by (induction xs arbitrary: old) auto

lemma unm_header [simp]: "unm_struct header_field old (json_of_header h) = Some h"
  by (simp add: unm_struct_def json_of_header_def header_field_def)

lemma unm_headers_list [simp]: "unm_headers old (JArr (map json_of_header hs)) = Some hs"
  by (simp add: unm_headers_def unm_list_map)

lemma unm_recordMsg:
  "unm_struct recordMsg_field zero_recordMsg (json_of_recordMsg m) = Some m"
  by (simp add: unm_struct_def json_of_recordMsg_def recordMsg_field_def zero_recordMsg_def)

lemma unm_record: "unm_struct record_field zero_record (json_of_record r) = Some r"
proof (cases "recMsg r")
  case None
  then show ?thesis by (simp add: unm_struct_def json_of_record_def record_field_def zero_record_def)
next
  case (Some m)
  have "unm_msg_ptr None (json_of_recordMsg m) = Some (Some m)"
    using unm_recordMsg [of m] by (simp add: unm_msg_ptr_def json_of_recordMsg_def)
  with Some show ?thesis
    by (simp add: unm_struct_def json_of_record_def record_field_def zero_record_def)
qed

lemma wf_json_numbers [simp]: "wf_json d (JNum (show_int i))"
  by simp

lemma wf_json_header: "header_ok h \<Longrightarrow> 0 < d \<Longrightarrow> wf_json d (json_of_header h)"
  by (simp add: json_of_header_def header_ok_def)

lemma wf_json_recordMsg: "recordMsg_ok m \<Longrightarrow> 2 < d \<Longrightarrow> wf_json d (json_of_recordMsg m)"
  by (auto simp: json_of_recordMsg_def recordMsg_ok_def json_of_bytes_def list_all_iff
      intro!: wf_json_header split: option.splits)

lemma wf_json_record:
  assumes "representable r"
  shows "wf_json maxNestingDepth (json_of_record r)"
  using assms wf_json_recordMsg [of _ "maxNestingDepth - 1"]
  by (auto simp: json_of_record_def representable_def maxNestingDepth_def split: option.splits)

text \<open>What \<open>Marshal\<close> writes, \<open>Unmarshal\<close> reads back.\<close>

lemma json_roundtrip:
  "representable r \<Longrightarrow> json_Marshal r = Inr payload \<Longrightarrow> json_Unmarshal payload = Some r"
  using json_parse_print [OF wf_json_record, of r] unm_record [of r]
  by (auto simp: json_Marshal_def json_Unmarshal_def)

subsection \<open>The envelope\<close>

lemma length_PutUint32 [simp]: "length (PutUint32 w) = 4"
  by (simp add: PutUint32_def)

lemma Uint32_PutUint32 [simp]: "Uint32 (PutUint32 w @ rest) = Ret w"
proof -
  have "push_bit 24 (ucast (ucast (drop_bit 24 w) :: byte)) OR
        push_bit 16 (ucast (ucast (drop_bit 16 w) :: byte)) OR
        push_bit 8 (ucast (ucast (drop_bit 8 w) :: byte)) OR ucast (ucast w :: byte) = w"
    (is "?l = w")
  proof (rule bit_word_eqI)
    fix n
    assume "n < LENGTH(32)"
    then have "n < 8 \<or> n = 8 + (n - 8) \<and> n - 8 < 8 \<or> n = 16 + (n - 16) \<and> n - 16 < 8 \<or>
        n = 24 + (n - 24) \<and> n - 24 < 8" by auto
    then consider "n < 8" | m where "n = 8 + m" "m < 8" | m where "n = 16 + m" "m < 8"
      | m where "n = 24 + m" "m < 8" by blast
    then show "bit ?l n \<longleftrightarrow> bit w n" by cases (auto simp: bit_simps)
  qed
  then show ?thesis by (simp add: PutUint32_def)
qed

lemma Uint32_PutUint32' [simp]: "Uint32 (PutUint32 w) = Ret w"
  using Uint32_PutUint32 [of w "[]"] by simp

lemma Uint32_eq_Panic: "Uint32 bs = Panic \<longleftrightarrow> length bs < 4"
  by (cases bs rule: Uint32.cases) auto

text \<open>The payload, and the bytes the checksum covers.\<close>

definition payload_of :: "wal_record \<Rightarrow> bytes" where
  "payload_of r = string_bytes (print_json (json_of_record r))"

definition body_of :: "wal_record \<Rightarrow> bytes" where
  "body_of r = recType r # PutUint32 (of_nat (length (payload_of r))) @ payload_of r"

definition frame :: "wal_record \<Rightarrow> bytes" where
  "frame r = PutUint32 magicVal @ body_of r @ PutUint32 (ChecksumIEEE (body_of r))"

lemma encode_frame: "encode r = Inr (frame r)"
  by (simp add: encode_def json_Marshal_def frame_def body_of_def payload_of_def Let_def)

text \<open>The records whose length fits the 32-bit slice arithmetic of \<open>decode\<close>.\<close>

definition encodable :: "wal_record \<Rightarrow> bool" where
  "encodable r \<longleftrightarrow> representable r \<and> length (payload_of r) + 13 < 2 ^ 32"

lemma length_frame: "length (frame r) = 13 + length (payload_of r)"
  by (simp add: frame_def body_of_def)

lemma Unmarshal_payload: "representable r \<Longrightarrow> json_Unmarshal (payload_of r) = Some r"
  using json_roundtrip [of r] by (simp add: json_Marshal_def payload_of_def)

lemma slice_append:
  "length xs = lo \<Longrightarrow> length xs + length ys = hi \<Longrightarrow> slice (xs @ ys @ zs) lo hi = Ret ys"
  by (auto simp: slice_def)

text \<open>\<open>decode\<close> on a buffer split at the field boundaries.\<close>

lemma decode_fields:
  assumes "length payload + 13 < 2 ^ 32" and "length crc = 4"
  shows "decode (PutUint32 magicVal @ (ty # PutUint32 (of_nat (length payload)) @ payload) @ crc @ rest) =
    (if Ret (ChecksumIEEE (ty # PutUint32 (of_nat (length payload)) @ payload)) \<noteq> Uint32 crc then Ret None
     else Ret (map_option (\<lambda>rec. (rec, 13 + length payload)) (json_Unmarshal payload)))"
proof -
  let ?n = "of_nat (length payload) :: uint32"
  let ?body = "ty # PutUint32 ?n @ payload"
  let ?buf = "PutUint32 magicVal @ ?body @ crc @ rest"
  have n: "unat ?n = length payload" "unat (9 + ?n) = 9 + length payload" "unat (13 + ?n) = 13 + length payload"
    using assms(1) by (simp_all add: unat_of_nat unat_word_ariths)
  have s: "slice ?buf 0 4 = Ret (PutUint32 magicVal)" "slice ?buf 5 9 = Ret (PutUint32 ?n)"
    "slice ?buf 4 (9 + length payload) = Ret ?body"
    "slice ?buf (9 + length payload) (13 + length payload) = Ret crc"
    "slice ?buf 9 (9 + length payload) = Ret payload"
    using slice_append [of "[]" 0 "PutUint32 magicVal" 4 "?body @ crc @ rest"]
      slice_append [of "PutUint32 magicVal @ [ty]" 5 "PutUint32 ?n" 9 "payload @ crc @ rest"]
      slice_append [of "PutUint32 magicVal" 4 ?body "9 + length payload" "crc @ rest"]
      slice_append [of "PutUint32 magicVal @ ?body" "9 + length payload" crc "13 + length payload" rest]
      slice_append [of "PutUint32 magicVal @ ty # PutUint32 ?n" 9 payload "9 + length payload" "crc @ rest"]
    by (simp_all add: assms(2))
  obtain w where w: "Uint32 crc = Ret w"
    using assms(2) Uint32_eq_Panic [of crc] by (cases "Uint32 crc") auto
  have len: "\<not> length ?buf < 13" "\<not> length ?buf < 13 + length payload"
    using assms(2) by auto
  show ?thesis
    unfolding decode_def Let_def recordOverhead_eq
    by (simp add: len n s w del: append.simps append_assoc length_append split: option.splits)
qed

text \<open>Decoding the bytes of a record gives the record and the number of its bytes.\<close>

lemma decode_frame:
  "encodable r \<Longrightarrow> decode (frame r @ rest) = Ret (Some (r, length (frame r)))"
  using decode_fields [of "payload_of r" "PutUint32 (ChecksumIEEE (body_of r))" "recType r" rest]
  by (simp add: encodable_def frame_def body_of_def Unmarshal_payload)

text \<open>A record cut short is not decoded.\<close>

lemma decode_short:
  assumes "length buf < 13"
  shows "decode buf = Ret None"
  using assms by (simp add: decode_def)

lemma decode_frame_torn:
  assumes "encodable r" and "k < length (frame r)"
  shows "decode (take k (frame r)) = Ret None"
proof (cases "k < 13")
  case True
  then show ?thesis by (simp add: decode_short)
next
  case False
  let ?n = "of_nat (length (payload_of r)) :: uint32"
  let ?buf = "take k (frame r)"
  have n: "unat ?n = length (payload_of r)"
    using assms(1) by (simp add: encodable_def unat_of_nat)
  have split: "?buf = PutUint32 magicVal @ recType r # PutUint32 ?n @
      take (k - 9) (payload_of r @ PutUint32 (ChecksumIEEE (body_of r)))"
    using False by (simp add: frame_def body_of_def take_Cons')
  have "slice ?buf 0 4 = Ret (PutUint32 magicVal)" "slice ?buf 5 9 = Ret (PutUint32 ?n)"
    unfolding split using False assms(2)
      slice_append [of "PutUint32 magicVal @ [recType r]" 5 "PutUint32 ?n" 9]
      slice_append [of "[]" 0 "PutUint32 magicVal" 4]
    by simp_all
  moreover have "length ?buf < 13 + unat ?n"
    using assms(2) n by (simp add: length_frame)
  ultimately show ?thesis by (simp add: decode_def)
qed

lemma decode_consumes:
  "decode buf = Ret (Some (r, n)) \<Longrightarrow> 13 \<le> n \<and> n \<le> length buf"
  by (auto simp: decode_def Let_def split: if_splits option.splits)

text \<open>Below 4 GiB no slice expression of \<open>decode\<close> is out of range.\<close>

lemma decode_no_panic:
  assumes "length buf < 2 ^ 32"
  shows "decode buf \<noteq> Panic"
proof -
  have "unat (9 + n) = 9 + unat n \<and> unat (13 + n) = 13 + unat n"
    if "\<not> length buf < 13 + unat n" for n :: uint32
    using that assms by (simp add: unat_word_ariths)
  then show ?thesis
    by (auto simp: decode_def Let_def Uint32_eq_Panic slice_def split: if_splits option.splits)
qed

lemma Uint32_inj:
  assumes "length bs = 4" and "Uint32 bs = Ret w"
  shows "bs = PutUint32 w"
proof -
  obtain a b c d where bs: "bs = [a, b, c, d]"
    using assms(1) by (auto simp: numeral_eq_Suc length_Suc_conv)
  have w: "w = push_bit 24 (ucast a) OR push_bit 16 (ucast b) OR push_bit 8 (ucast c) OR ucast d"
    using assms(2) by (simp add: bs)
  have "ucast (drop_bit 24 w) = a" "ucast (drop_bit 16 w) = b" "ucast (drop_bit 8 w) = c" "ucast w = d"
    unfolding w by (rule bit_word_eqI; auto simp: bit_simps dest: bit_imp_le_length)+
  then show ?thesis by (simp add: bs PutUint32_def)
qed

lemma Uint32_update:
  assumes "i < 4" and "b \<noteq> PutUint32 w ! i"
  shows "Uint32 ((PutUint32 w)[i := b]) \<noteq> Ret w"
proof
  assume "Uint32 ((PutUint32 w)[i := b]) = Ret w"
  then have "(PutUint32 w)[i := b] = PutUint32 w" by (intro Uint32_inj) auto
  with assms show False by (metis length_PutUint32 nth_list_update_eq)
qed

lemma ChecksumIEEE_update:
  assumes "i < length xs" and "b \<noteq> xs ! i"
  shows "ChecksumIEEE (xs[i := b]) \<noteq> ChecksumIEEE xs"
  using ChecksumIEEE_one_byte [of b "xs ! i" "take i xs" "drop (Suc i) xs"] assms
  by (metis id_take_nth_drop upd_conv_take_nth_drop)

lemma decode_bad_magic:
  assumes "length m = 4" and "Uint32 m \<noteq> Ret magicVal"
  shows "decode (m @ t) = Ret None"
proof -
  obtain w where "Uint32 m = Ret w" using assms(1) Uint32_eq_Panic [of m] by (cases "Uint32 m") auto
  moreover have "slice (m @ t) 0 4 = Ret m" using slice_append [of "[]" 0 m 4 t] assms(1) by simp
  ultimately show ?thesis using assms(2) by (simp add: decode_def)
qed

text \<open>A record with one byte changed, outside its length field, is not decoded: the magic
  number, or the checksum, does not match.\<close>

lemma decode_corrupt_payload:
  assumes "encodable r" "i < length (payload_of r)" "b \<noteq> payload_of r ! i"
  shows "decode (PutUint32 magicVal @ (recType r # PutUint32 (of_nat (length (payload_of r))) @
     (payload_of r)[i := b]) @ PutUint32 (ChecksumIEEE (body_of r)) @ rest) = Ret None"
proof -
  let ?p = "payload_of r" and ?l = "PutUint32 (of_nat (length (payload_of r)))"
  have body: "body_of r = (recType r # ?l) @ ?p" by (simp add: body_of_def)
  have "(body_of r)[5 + i := b] = recType r # ?l @ ?p[i := b]" "body_of r ! (5 + i) = ?p ! i"
    unfolding body by (simp_all add: list_update_append nth_append del: append_Cons)
  then have "ChecksumIEEE (recType r # ?l @ ?p[i := b]) \<noteq> ChecksumIEEE (body_of r)"
    using ChecksumIEEE_update [of "5 + i" "body_of r" b] assms by (simp add: body)
  then show ?thesis
    using decode_fields [of "?p[i := b]" "PutUint32 (ChecksumIEEE (body_of r))" "recType r" rest] assms(1)
    by (simp add: encodable_def)
qed

lemma decode_corrupt_type:
  assumes "encodable r" "b \<noteq> recType r"
  shows "decode (PutUint32 magicVal @ (b # PutUint32 (of_nat (length (payload_of r))) @
     payload_of r) @ PutUint32 (ChecksumIEEE (body_of r)) @ rest) = Ret None"
proof -
  have "ChecksumIEEE (b # PutUint32 (of_nat (length (payload_of r))) @ payload_of r) \<noteq> ChecksumIEEE (body_of r)"
    using ChecksumIEEE_update [of 0 "body_of r" b] assms(2) by (simp add: body_of_def)
  then show ?thesis
    using decode_fields [of "payload_of r" "PutUint32 (ChecksumIEEE (body_of r))" b rest] assms(1)
    by (simp add: encodable_def)
qed

lemma decode_corrupt_crc:
  assumes "encodable r" "i < 4" "b \<noteq> PutUint32 (ChecksumIEEE (body_of r)) ! i"
  shows "decode (PutUint32 magicVal @ body_of r @ (PutUint32 (ChecksumIEEE (body_of r)))[i := b] @ rest) = Ret None"
  using decode_fields [of "payload_of r" "(PutUint32 (ChecksumIEEE (body_of r)))[i := b]" "recType r" rest]
    Uint32_update [OF assms(2,3)] assms(1)
  by (auto simp: encodable_def body_of_def)

lemma frame_update:
  "i < 4 \<Longrightarrow> (frame r)[i := b] = (PutUint32 magicVal)[i := b] @ body_of r @ PutUint32 (ChecksumIEEE (body_of r))"
  "(frame r)[4 := b] = PutUint32 magicVal @ (b # PutUint32 (of_nat (length (payload_of r))) @ payload_of r)
     @ PutUint32 (ChecksumIEEE (body_of r))"
  "j < length (payload_of r) \<Longrightarrow> (frame r)[9 + j := b] = PutUint32 magicVal @
     (recType r # PutUint32 (of_nat (length (payload_of r))) @ (payload_of r)[j := b]) @ PutUint32 (ChecksumIEEE (body_of r))"
  "(frame r)[9 + length (payload_of r) + j := b] =
     PutUint32 magicVal @ body_of r @ (PutUint32 (ChecksumIEEE (body_of r)))[j := b]"
  by (simp_all add: frame_def body_of_def list_update_append)

lemma frame_nth:
  "i < 4 \<Longrightarrow> frame r ! i = PutUint32 magicVal ! i"
  "frame r ! 4 = recType r"
  "j < length (payload_of r) \<Longrightarrow> frame r ! (9 + j) = payload_of r ! j"
  "frame r ! (9 + length (payload_of r) + j) = PutUint32 (ChecksumIEEE (body_of r)) ! j"
  by (simp_all add: frame_def body_of_def nth_append)

lemma decode_corrupt_byte:
  assumes ok: "encodable r" and i: "i < length (frame r)" "i \<notin> {5..8}" and b: "b \<noteq> frame r ! i"
  shows "decode ((frame r)[i := b] @ rest) = Ret None"
proof -
  let ?n = "length (payload_of r)"
  consider "i < 4" | "i = 4" | j where "i = 9 + j" "j < ?n" | j where "i = 9 + ?n + j" "j < 4"
  proof -
    assume a: "i < 4 \<Longrightarrow> thesis" "i = 4 \<Longrightarrow> thesis" "\<And>j. i = 9 + j \<Longrightarrow> j < ?n \<Longrightarrow> thesis"
      "\<And>j. i = 9 + ?n + j \<Longrightarrow> j < 4 \<Longrightarrow> thesis"
    have "i < 4 \<or> i = 4 \<or> (i = 9 + (i - 9) \<and> i - 9 < ?n) \<or> (i = 9 + ?n + (i - (9 + ?n)) \<and> i - (9 + ?n) < 4)"
      using i by (auto simp: length_frame)
    with a show thesis by blast
  qed
  then show ?thesis
  proof cases
    case 1
    then show ?thesis
      using Uint32_update [of i b magicVal] b by (simp add: frame_update frame_nth decode_bad_magic)
  next
    case 2
    with b show ?thesis using decode_corrupt_type [OF ok, of b rest] by (simp add: frame_update frame_nth)
  next
    case 3
    with b show ?thesis using decode_corrupt_payload [OF ok, of j b rest] by (simp add: frame_update frame_nth)
  next
    case 4
    with b show ?thesis using decode_corrupt_crc [OF ok, of j b rest] by (simp add: frame_update frame_nth)
  qed
qed

subsection \<open>The codec as a provider of the log interface\<close>

lemma frame_nonempty [simp]: "frame r \<noteq> []"
  by (simp add: frame_def PutUint32_def)

interpretation walrec: record_codec frame decode encodable
  by unfold_locales (simp_all add: decode_frame decode_frame_torn)

end
