(* ===== verification/FileSys.thy ===== *)
theory FileSys
  imports Prelude
begin

text \<open>
  The part of packages \<open>os\<close> and \<open>path/filepath\<close> that the WAL uses. The world holds the
  contents of the files and a script of faults: each system call takes the next entry, and
  an empty script means that everything works. A theorem about every script covers every
  combination of failing calls and of writes cut short. A crash of the process in the middle
  of an operation is a script whose entries from that point on are all \<open>IoErr\<close>: no later call
  has an effect.

  Directories are not modelled: a creating open that fails because the directory of the path is
  missing (the WAL code makes only the top directory, so a queue name with a slash may run into
  this) is an \<open>IoErr\<close> of the script, and an empty script also says that the directories are there.

  Files are named by their cleaned path, and an open handle names the file it was opened on;
  every WAL file has a single writer, so a handle is never used after another writer has
  renamed a file over it.
\<close>

subsection \<open>Paths\<close>

fun split_slash :: "string \<Rightarrow> string list" where
  "split_slash [] = [[]]"
| "split_slash (c # cs) =
     (if c = CHR ''/'' then [] # split_slash cs
      else (case split_slash cs of [] \<Rightarrow> [[c]] | s # ss \<Rightarrow> (c # s) # ss))"

text \<open>\<open>filepath.Clean\<close>: the stack of components is kept in reverse.\<close>

fun clean_comps :: "bool \<Rightarrow> string list \<Rightarrow> string list \<Rightarrow> string list" where
  "clean_comps rooted st [] = rev st"
| "clean_comps rooted st (c # cs) =
     (if c = [] \<or> c = ''.'' then clean_comps rooted st cs
      else if c = ''..'' then
        (case st of
           [] \<Rightarrow> clean_comps rooted (if rooted then [] else [c]) cs
         | t # ts \<Rightarrow> clean_comps rooted (if t = ''..'' then c # st else ts) cs)
      else clean_comps rooted (c # st) cs)"

fun join_slash :: "string list \<Rightarrow> string" where
  "join_slash [] = []"
| "join_slash [s] = s"
| "join_slash (s # ss) = s @ CHR ''/'' # join_slash ss"

definition Clean :: "string \<Rightarrow> string" where
  "Clean p =
     (let rooted = (p \<noteq> [] \<and> hd p = CHR ''/'');
          cs = clean_comps rooted [] (split_slash p)
      in if rooted then CHR ''/'' # join_slash cs else if cs = [] then ''.'' else join_slash cs)"

definition Join :: "string \<Rightarrow> string \<Rightarrow> string" where
  "Join dir name =
     (if dir = [] then (if name = [] then [] else Clean name)
      else if name = [] then Clean dir else Clean (dir @ CHR ''/'' # name))"

definition plain_name :: "string \<Rightarrow> bool" where
  "plain_name q \<longleftrightarrow> CHR ''/'' \<notin> set q"

lemma split_slash_nonempty [simp]: "split_slash s \<noteq> []"
  by (cases s) (auto split: list.splits)

lemma split_slash_plain: "plain_name s \<Longrightarrow> split_slash s = [s]"
  by (induction s) (auto simp: plain_name_def)

lemma split_slash_append: "plain_name t \<Longrightarrow> split_slash (s @ CHR ''/'' # t) = split_slash s @ [t]"
  by (induction s) (auto simp: split_slash_plain split: list.splits)

lemma clean_comps_snoc:
  assumes "c \<noteq> []" "c \<noteq> ''.''" "c \<noteq> ''..''"
  shows "clean_comps r st (cs @ [c]) = clean_comps r st cs @ [c]"
  using assms by (induction r st cs rule: clean_comps.induct) (auto split: list.splits)

lemma join_slash_snoc: "ss \<noteq> [] \<Longrightarrow> join_slash (ss @ [s]) = join_slash ss @ CHR ''/'' # s"
  by (induction ss rule: join_slash.induct) auto

lemma join_slash_snoc_inj: "join_slash (ss @ [s]) = join_slash (ss @ [t]) \<longleftrightarrow> s = t"
  by (cases "ss = []") (auto simp: join_slash_snoc)

text \<open>A component without a slash that is not \<open>.\<close> or \<open>..\<close> is kept as the last one.\<close>

lemma Join_plain:
  assumes "plain_name n" "n \<noteq> []" "n \<noteq> ''.''" "n \<noteq> ''..''" "dir \<noteq> []"
  shows "Join dir n =
    (if hd dir = CHR ''/'' then CHR ''/'' # join_slash (clean_comps True [] (split_slash dir) @ [n])
     else join_slash (clean_comps False [] (split_slash dir) @ [n]))"
  using assms by (simp add: Join_def Clean_def Let_def split_slash_append clean_comps_snoc)

lemma Join_plain_inj:
  assumes "plain_name m" "m \<noteq> []" "m \<noteq> ''.''" "m \<noteq> ''..''"
    and "plain_name n" "n \<noteq> []" "n \<noteq> ''.''" "n \<noteq> ''..''" and "dir \<noteq> []"
  shows "Join dir m = Join dir n \<longleftrightarrow> m = n"
  using assms by (simp add: Join_plain join_slash_snoc_inj)

subsection \<open>System calls\<close>

datatype io_fault = IoOk | IoErr | IoShort nat

record world =
  files :: "string \<rightharpoonup> bytes"
  faults :: "io_fault list"

datatype fhandle = FNil | FOpen string | FClosed

definition fault_now :: "world \<Rightarrow> io_fault" where
  "fault_now w = (case faults w of [] \<Rightarrow> IoOk | f # _ \<Rightarrow> f)"

definition tick :: "world \<Rightarrow> world" where
  "tick w = w\<lparr>faults := tl (faults w)\<rparr>"

lemma tick_simps [simp]: "files (tick w) = files w" "faults (tick w) = tl (faults w)"
  by (simp_all add: tick_def)

lemma tick_nofault [simp]: "faults w = [] \<Longrightarrow> tick w = w"
  by (simp add: tick_def)

lemma fault_now_ok [simp]: "faults w = [] \<Longrightarrow> fault_now w = IoOk"
  by (simp add: fault_now_def)

definition ReadFile :: "string \<Rightarrow> world \<Rightarrow> (error + bytes) \<times> world" where
  "ReadFile p w =
     (if fault_now w = IoErr then (Inl ErrIO, tick w)
      else (case files w p of None \<Rightarrow> Inl ErrNotExist | Some d \<Rightarrow> Inr d, tick w))"

text \<open>\<open>os.OpenFile\<close>; the flags are \<open>O_CREATE\<close> and \<open>O_TRUNC\<close> (all handles are write-only and
  append at the end: the truncating one starts empty and is written sequentially).\<close>

definition OpenFile :: "string \<Rightarrow> bool \<Rightarrow> bool \<Rightarrow> world \<Rightarrow> (error + fhandle) \<times> world" where
  "OpenFile p create trunc w =
     (if fault_now w = IoErr then (Inl ErrIO, tick w)
      else case files w p of
        None \<Rightarrow> if create then (Inr (FOpen p), (tick w)\<lparr>files := (files w)(p \<mapsto> [])\<rparr>)
                else (Inl ErrNotExist, tick w)
      | Some d \<Rightarrow> (Inr (FOpen p), if trunc then (tick w)\<lparr>files := (files w)(p \<mapsto> [])\<rparr> else tick w))"

text \<open>\<open>File.Write\<close> returns an error whenever fewer bytes were written than asked.\<close>

definition f_Write :: "fhandle \<Rightarrow> bytes \<Rightarrow> world \<Rightarrow> (nat \<times> error option) \<times> world" where
  "f_Write h data w =
     (case h of
        FNil \<Rightarrow> ((0, Some ErrInvalid), w)
      | FClosed \<Rightarrow> ((0, Some ErrClosed), w)
      | FOpen p \<Rightarrow>
          (let old = (case files w p of None \<Rightarrow> [] | Some d \<Rightarrow> d) in
           case fault_now w of
             IoErr \<Rightarrow> ((0, Some ErrIO), tick w)
           | IoShort n \<Rightarrow>
               if n < length data
               then ((n, Some ErrShortWrite), (tick w)\<lparr>files := (files w)(p \<mapsto> old @ take n data)\<rparr>)
               else ((length data, None), (tick w)\<lparr>files := (files w)(p \<mapsto> old @ data)\<rparr>)
           | IoOk \<Rightarrow> ((length data, None), (tick w)\<lparr>files := (files w)(p \<mapsto> old @ data)\<rparr>)))"

definition f_Sync :: "fhandle \<Rightarrow> world \<Rightarrow> error option \<times> world" where
  "f_Sync h w =
     (case h of
        FNil \<Rightarrow> (Some ErrInvalid, w)
      | FClosed \<Rightarrow> (Some ErrClosed, w)
      | FOpen p \<Rightarrow> (if fault_now w = IoErr then Some ErrIO else None, tick w))"

definition f_Close :: "fhandle \<Rightarrow> world \<Rightarrow> (error option \<times> fhandle) \<times> world" where
  "f_Close h w =
     (case h of
        FNil \<Rightarrow> ((Some ErrInvalid, FNil), w)
      | FClosed \<Rightarrow> ((Some ErrClosed, FClosed), w)
      | FOpen p \<Rightarrow> ((if fault_now w = IoErr then Some ErrIO else None, FClosed), tick w))"

definition Rename :: "string \<Rightarrow> string \<Rightarrow> world \<Rightarrow> error option \<times> world" where
  "Rename old new w =
     (if fault_now w = IoErr then (Some ErrIO, tick w)
      else case files w old of
        None \<Rightarrow> (Some ErrNotExist, tick w)
      | Some d \<Rightarrow> (None, (tick w)\<lparr>files := (files w)(old := None, new \<mapsto> d)\<rparr>))"

definition Remove :: "string \<Rightarrow> world \<Rightarrow> error option \<times> world" where
  "Remove p w =
     (if fault_now w = IoErr then (Some ErrIO, tick w)
      else case files w p of
        None \<Rightarrow> (Some ErrNotExist, tick w)
      | Some d \<Rightarrow> (None, (tick w)\<lparr>files := (files w)(p := None)\<rparr>))"

lemmas syscall_defs = ReadFile_def OpenFile_def f_Write_def f_Sync_def f_Close_def Rename_def Remove_def

subsection \<open>What a call leaves alone\<close>

lemma ReadFile_files [simp]: "files (snd (ReadFile p w)) = files w"
  by (simp add: ReadFile_def)

lemma f_Sync_files [simp]: "files (snd (f_Sync h w)) = files w"
  by (simp add: f_Sync_def split: fhandle.splits)

lemma f_Sync_filesD: "f_Sync h w = (err, w') \<Longrightarrow> files w' = files w"
  using f_Sync_files [of h w] by simp

lemma f_Close_files [simp]: "files (snd (f_Close h w)) = files w"
  by (simp add: f_Close_def split: fhandle.splits)

lemma OpenFile_frame: "q \<noteq> p \<Longrightarrow> files (snd (OpenFile p c t w)) q = files w q"
  by (simp add: OpenFile_def split: option.splits)

lemma OpenFile_keep: "files w p \<noteq> None \<Longrightarrow> files (snd (OpenFile p c False w)) = files w"
  by (auto simp: OpenFile_def split: option.splits)

lemma OpenFile_no_create: "files (snd (OpenFile p False False w)) = files w"
  by (auto simp: OpenFile_def split: option.splits)

lemma f_Write_frame: "q \<noteq> p \<Longrightarrow> files (snd (f_Write (FOpen p) d w)) q = files w q"
  by (simp add: f_Write_def Let_def split: io_fault.splits)

text \<open>A write appends a prefix of its data, all of it exactly when it reports success.\<close>

lemma f_Write_prefix:
  assumes "files w p = Some old" and "d \<noteq> []"
  obtains k where "k \<le> length d" "files (snd (f_Write (FOpen p) d w)) p = Some (old @ take k d)"
    "snd (fst (f_Write (FOpen p) d w)) = None \<longleftrightarrow> k = length d"
    "k = length d \<Longrightarrow> fst (fst (f_Write (FOpen p) d w)) = length d"
proof (cases "fault_now w")
  case IoOk
  with assms show ?thesis by (intro that [of "length d"]) (simp_all add: f_Write_def)
next
  case IoErr
  with assms show ?thesis by (intro that [of 0]) (simp_all add: f_Write_def)
next
  case (IoShort n)
  with assms show ?thesis
    by (intro that [of "min n (length d)"]) (auto simp: f_Write_def min_def split: if_splits)
qed

lemma Remove_frame: "q \<noteq> p \<Longrightarrow> files (snd (Remove p w)) q = files w q"
  by (simp add: Remove_def split: option.splits)

lemma Rename_frame: "q \<noteq> p \<Longrightarrow> q \<noteq> p' \<Longrightarrow> files (snd (Rename p p' w)) q = files w q"
  by (simp add: Rename_def split: option.splits)

end
