(* ===== verification/Wal.thy ===== *)
theory Wal
  imports WalRecord FileSys
begin

text \<open>
  \<open>internal/wal\<close>: the reader (reader.go), the writer (writer.go) and the compactor
  (compactor.go) of one queue's log. A queue's file is \<open>dir/queue.wal\<close>. The writer's mutex
  makes each of its methods one atomic step; the methods are functions on the writer and the
  world.
\<close>

subsection \<open>Names\<close>

definition wal_path :: "string \<Rightarrow> string \<Rightarrow> string" where
  "wal_path dir queue = Join dir (queue @ ''.wal'')"

definition tmp_path :: "string \<Rightarrow> string" where
  "tmp_path p = p @ ''.tmp''"

lemma tmp_path_neq [simp]: "tmp_path p \<noteq> p" "p \<noteq> tmp_path p"
  by (simp_all add: tmp_path_def)

lemma wal_name_ok: "q @ ''.wal'' \<noteq> []" "q @ ''.wal'' \<noteq> ''.''" "q @ ''.wal'' \<noteq> ''..''"
  by (auto simp: append_eq_Cons_conv)

text \<open>Queues whose names have no slash have separate files.\<close>

lemma wal_path_inj:
  assumes "plain_name q" "plain_name q'" "dir \<noteq> []"
  shows "wal_path dir q = wal_path dir q' \<longleftrightarrow> q = q'"
  using assms Join_plain_inj [of "q @ ''.wal''" "q' @ ''.wal''" dir] wal_name_ok
  by (simp add: wal_path_def plain_name_def)

subsection \<open>Messages as records\<close>

definition header_rec :: "Header \<Rightarrow> recordHeader" where
  "header_rec h = \<lparr>rhKey = Key h, rhValue = Value h\<rparr>"

definition rec_header :: "recordHeader \<Rightarrow> Header" where
  "rec_header h = \<lparr>Key = rhKey h, Value = rhValue h\<rparr>"

text \<open>The record \<open>WriteMessage\<close> and \<open>writeCleanWAL\<close> build.\<close>

definition message_record :: "Message \<Rightarrow> wal_record" where
  "message_record msg =
     \<lparr>recType = RecordMessage, recID = ID msg,
      recMsg = Some \<lparr>rmQueue = Queue msg, rmPayload = Payload msg,
        rmHeaders = map header_rec (Headers msg), rmRetryCount = RetryCount msg,
        rmEnqueueTime = UnixNano (EnqueueTime msg)\<rparr>\<rparr>"

definition tombstone_record :: "MessageID \<Rightarrow> wal_record" where
  "tombstone_record mid = \<lparr>recType = RecordTombstone, recID = mid, recMsg = None\<rparr>"

text \<open>The message \<open>Replay\<close> builds from a record.\<close>

definition record_message :: "string \<Rightarrow> recordMsg \<Rightarrow> Message" where
  "record_message mid m =
     \<lparr>ID = mid, Queue = rmQueue m, Payload = rmPayload m, Headers = map rec_header (rmHeaders m),
      RetryCount = rmRetryCount m, EnqueueTime = time_Unix0 (rmEnqueueTime m),
      DispatchedAt = time_zero, Status = StatusPending\<rparr>"

subsection \<open>Reader\<close>

record Reader =
  rdPath :: string

definition NewReader :: "string \<Rightarrow> string \<Rightarrow> Reader" where
  "NewReader dir queue = \<lparr>rdPath = wal_path dir queue\<rparr>"

text \<open>One round of the replay loop: the switch on the record type.\<close>

definition replay_record :: "wal_record \<Rightarrow> Message list \<times> string set \<Rightarrow> Message list \<times> string set" where
  "replay_record rec st =
     (if recType rec = RecordMessage then
        (case recMsg rec of
           None \<Rightarrow> st
         | Some m \<Rightarrow> (fst st @ [record_message (recID rec) m], snd st))
      else if recType rec = RecordTombstone then (fst st, insert (recID rec) (snd st))
      else st)"

function replay_loop :: "bytes \<Rightarrow> Message list \<times> string set \<Rightarrow> (Message list \<times> string set) outcome" where
  "replay_loop data st =
     (if data = [] then Ret st
      else case decode data of
        Panic \<Rightarrow> Panic
      | Ret None \<Rightarrow> Ret st
      | Ret (Some (rec, n)) \<Rightarrow> replay_loop (drop n data) (replay_record rec st))"
  by pat_completeness auto
termination
  by (relation "measure (\<lambda>(data, st). length data)") (auto dest: decode_consumes)

declare replay_loop.simps [simp del]

definition replay_data :: "bytes \<Rightarrow> Message list outcome" where
  "replay_data data =
     bind_outcome (replay_loop data ([], {}))
       (\<lambda>(msgs, tombstones). Ret (filter (\<lambda>msg. ID msg \<notin> tombstones) msgs))"

text \<open>Reading a file and replaying it: \<open>Reader.Replay\<close> and the compactor's
  \<open>replayFilePath\<close> are the same code. A missing file gives no messages.\<close>

definition replay_path :: "string \<Rightarrow> world \<Rightarrow> (error + Message list) \<times> world" where
  "replay_path p w =
     (case ReadFile p w of
        (Inl err, w') \<Rightarrow> if err = ErrNotExist then (Inr [], w') else (Inl err, w')
      | (Inr data, w') \<Rightarrow> (case replay_data data of Panic \<Rightarrow> Inl ErrPanic | Ret msgs \<Rightarrow> Inr msgs, w'))"

definition Replay :: "Reader \<Rightarrow> world \<Rightarrow> (error + Message list) \<times> world" where
  "Replay r w = replay_path (rdPath r) w"

definition replayFilePath :: "string \<Rightarrow> world \<Rightarrow> (error + Message list) \<times> world" where
  "replayFilePath path w = replay_path path w"

subsection \<open>Writer\<close>

record Writer =
  wFile :: fhandle
  wPath :: string
  wWalDir :: string
  wQueue :: string

definition NewWriter :: "string \<Rightarrow> string \<Rightarrow> world \<Rightarrow> (error + Writer) \<times> world" where
  "NewWriter dir queue w =
     (let path = wal_path dir queue in
      case OpenFile path True False w of
        (Inl err, w') \<Rightarrow> (Inl err, w')
      | (Inr f, w') \<Rightarrow> (Inr \<lparr>wFile = f, wPath = path, wWalDir = dir, wQueue = queue\<rparr>, w'))"

definition append_record :: "Writer \<Rightarrow> wal_record \<Rightarrow> world \<Rightarrow> error option \<times> world" where
  "append_record wr rec w =
     (case encode rec of
        Inl err \<Rightarrow> (Some err, w)
      | Inr data \<Rightarrow>
          (case f_Write (wFile wr) data w of
             ((n, Some err), w1) \<Rightarrow> (Some err, w1)
           | ((n, None), w1) \<Rightarrow>
               if n \<noteq> length data then (Some ErrShortWrite, w1) else f_Sync (wFile wr) w1))"

definition WriteMessage :: "Writer \<Rightarrow> Message \<Rightarrow> world \<Rightarrow> error option \<times> world" where
  "WriteMessage wr msg w = append_record wr (message_record msg) w"

definition WriteTombstone :: "Writer \<Rightarrow> MessageID \<Rightarrow> world \<Rightarrow> error option \<times> world" where
  "WriteTombstone wr mid w = append_record wr (tombstone_record mid) w"

definition Writer_Close :: "Writer \<Rightarrow> world \<Rightarrow> (error option \<times> Writer) \<times> world" where
  "Writer_Close wr w =
     (case f_Close (wFile wr) w of ((err, f), w') \<Rightarrow> ((err, wr\<lparr>wFile := f\<rparr>), w'))"

subsection \<open>Compactor\<close>

fun write_records :: "fhandle \<Rightarrow> Message list \<Rightarrow> world \<Rightarrow> error option \<times> world" where
  "write_records f [] w = (None, w)"
| "write_records f (msg # msgs) w =
     (case encode (message_record msg) of
        Inl err \<Rightarrow> (Some err, w)
      | Inr data \<Rightarrow>
          (case f_Write f data w of
             ((n, Some err), w1) \<Rightarrow> (Some err, w1)
           | ((n, None), w1) \<Rightarrow>
               if n \<noteq> length data then (Some ErrShortWrite, w1) else write_records f msgs w1))"

text \<open>\<open>defer f.Close()\<close> runs after the result is known; its error is dropped.\<close>

definition writeCleanWAL :: "string \<Rightarrow> Message list \<Rightarrow> world \<Rightarrow> error option \<times> world" where
  "writeCleanWAL path msgs w =
     (case OpenFile path True True w of
        (Inl err, w1) \<Rightarrow> (Some err, w1)
      | (Inr f, w1) \<Rightarrow>
          (case write_records f msgs w1 of
             (Some err, w2) \<Rightarrow> (Some err, snd (f_Close f w2))
           | (None, w2) \<Rightarrow>
               (case f_Sync f w2 of (err, w3) \<Rightarrow> (err, snd (f_Close f w3)))))"

definition reopenOriginal :: "Writer \<Rightarrow> world \<Rightarrow> Writer \<times> world" where
  "reopenOriginal wr w =
     (case OpenFile (wPath wr) False False w of
        (Inl err, w') \<Rightarrow> (wr, w')
      | (Inr f, w') \<Rightarrow> (wr\<lparr>wFile := f\<rparr>, w'))"

text \<open>Removing the temporary file and reopening the original, on the three error paths.\<close>

definition compact_abort :: "string \<Rightarrow> error option \<Rightarrow> Writer \<Rightarrow> world \<Rightarrow> (error option \<times> Writer) \<times> world" where
  "compact_abort what err wr w =
     (case reopenOriginal wr (snd (Remove (tmp_path (wPath wr)) w)) of
        (wr', w2) \<Rightarrow> ((Some (ErrWrap what err), wr'), w2))"

text \<open>The end of \<open>Compact\<close>: the verified temporary file replaces the original, which is
  reopened.\<close>

definition compact_replace :: "Writer \<Rightarrow> world \<Rightarrow> (error option \<times> Writer) \<times> world" where
  "compact_replace wr w4 =
     (case Rename (tmp_path (wPath wr)) (wPath wr) w4 of
        (Some err, w5) \<Rightarrow> compact_abort ''compact: rename'' (Some err) wr w5
      | (None, w5) \<Rightarrow>
          (case OpenFile (wPath wr) False False w5 of
             (Inl err, w6) \<Rightarrow> ((Some (ErrWrap ''compact: reopen after rename'' (Some err)), wr), w6)
           | (Inr f, w6) \<Rightarrow> ((None, wr\<lparr>wFile := f\<rparr>), w6)))"

text \<open>The middle: write the live messages to the temporary file and verify it.\<close>

definition compact_rewrite :: "Writer \<Rightarrow> Message list \<Rightarrow> world \<Rightarrow> (error option \<times> Writer) \<times> world" where
  "compact_rewrite wr msgs w2 =
     (let tmpPath = tmp_path (wPath wr) in
      case writeCleanWAL tmpPath msgs w2 of
        (Some err, w3) \<Rightarrow> compact_abort ''compact: write temp'' (Some err) wr w3
      | (None, w3) \<Rightarrow>
          (case replayFilePath tmpPath w3 of
             (Inl err, w4) \<Rightarrow>
               if err = ErrPanic then ((Some ErrPanic, wr), w4)
               else compact_abort ''compact: verify failed'' (Some err) wr w4
           | (Inr verified, w4) \<Rightarrow>
               if length verified \<noteq> length msgs
               then compact_abort ''compact: verify failed'' None wr w4
               else compact_replace wr w4))"

definition Compact :: "Writer \<Rightarrow> world \<Rightarrow> (error option \<times> Writer) \<times> world" where
  "Compact wr0 w0 =
     (case f_Close (wFile wr0) w0 of
        ((Some err, f), w1) \<Rightarrow> ((Some (ErrWrap ''compact: close WAL'' (Some err)), wr0\<lparr>wFile := f\<rparr>), w1)
      | ((None, _), w1) \<Rightarrow>
          (let wr = wr0\<lparr>wFile := FNil\<rparr> in
           case Replay (NewReader (wWalDir wr) (wQueue wr)) w1 of
             (Inl err, w2) \<Rightarrow>
               if err = ErrPanic then ((Some ErrPanic, wr), w2)
               else (case reopenOriginal wr w2 of (wr', w3) \<Rightarrow>
                       ((Some (ErrWrap ''compact: replay'' (Some err)), wr'), w3))
           | (Inr msgs, w2) \<Rightarrow> compact_rewrite wr msgs w2))"

subsection \<open>What replay returns\<close>

text \<open>The abstract log: the message records in order, and the identifiers with a tombstone.
  A message is live when no record anywhere in the log is a tombstone for it.\<close>

fun messages_of :: "wal_record list \<Rightarrow> Message list" where
  "messages_of [] = []"
| "messages_of (r # rs) =
     (if recType r = RecordMessage
      then (case recMsg r of None \<Rightarrow> messages_of rs | Some m \<Rightarrow> record_message (recID r) m # messages_of rs)
      else messages_of rs)"

definition tombs_of :: "wal_record list \<Rightarrow> string set" where
  "tombs_of rs = recID ` {r \<in> set rs. recType r = RecordTombstone}"

definition live_messages :: "wal_record list \<Rightarrow> Message list" where
  "live_messages rs = filter (\<lambda>m. ID m \<notin> tombs_of rs) (messages_of rs)"

lemma record_types_distinct [simp]: "RecordMessage \<noteq> RecordTombstone" "RecordTombstone \<noteq> RecordMessage"
  by (simp_all add: RecordMessage_def RecordTombstone_def)

lemma messages_of_append [simp]: "messages_of (rs @ ss) = messages_of rs @ messages_of ss"
  by (induction rs) (auto split: option.splits)

lemma tombs_of_simps [simp]:
  "tombs_of [] = {}"
  "tombs_of (r # rs) = (if recType r = RecordTombstone then insert (recID r) (tombs_of rs) else tombs_of rs)"
  "tombs_of (rs @ ss) = tombs_of rs \<union> tombs_of ss"
  by (auto simp: tombs_of_def)

lemma foldl_replay_record:
  "foldl (\<lambda>st r. replay_record r st) st rs = (fst st @ messages_of rs, snd st \<union> tombs_of rs)"
  by (induction rs arbitrary: st) (auto simp: replay_record_def split: option.splits)

lemma replay_loop_scan:
  "replay_loop data st =
     bind_outcome (scan_log decode data) (\<lambda>rs. Ret (foldl (\<lambda>st r. replay_record r st) st rs))"
proof (induction data st rule: replay_loop.induct)
  case (1 data st)
  show ?case
  proof (cases "data = []")
    case True
    then show ?thesis by (simp add: replay_loop.simps)
  next
    case False
    show ?thesis
    proof (cases "decode data")
      case Panic
      with False show ?thesis by (simp add: replay_loop.simps scan_log.simps)
    next
      case (Ret res)
      show ?thesis
      proof (cases res)
        case None
        with False Ret show ?thesis by (simp add: replay_loop.simps scan_log.simps)
      next
        case (Some x)
        obtain r n where x: "x = (r, n)" by (cases x)
        have "0 < n" using decode_consumes [of data r n] Ret Some x by simp
        then have s: "scan_log decode data = bind_outcome (scan_log decode (drop n data)) (\<lambda>rs. Ret (r # rs))"
          using scan_log_step [of decode data r n] False Ret Some x by simp
        have "replay_loop data st = replay_loop (drop n data) (replay_record r st)"
          using False Ret Some x by (simp add: replay_loop.simps [of data])
        also have "\<dots> = bind_outcome (scan_log decode (drop n data))
            (\<lambda>rs. Ret (foldl (\<lambda>st r. replay_record r st) (replay_record r st) rs))"
          using "1.IH" [OF False Ret Some x [symmetric]] by simp
        finally show ?thesis by (simp add: s) (cases "scan_log decode (drop n data)"; simp)
      qed
    qed
  qed
qed

lemma replay_data_scan:
  "replay_data data = bind_outcome (scan_log decode data) (\<lambda>rs. Ret (live_messages rs))"
  by (cases "scan_log decode data")
     (simp_all add: replay_data_def replay_loop_scan foldl_replay_record live_messages_def)

text \<open>A log file: complete records, and perhaps a tail that does not decode.\<close>

definition wal_log :: "wal_record list \<Rightarrow> bytes \<Rightarrow> bool" where
  "wal_log rs data \<longleftrightarrow> (\<forall>r \<in> set rs. encodable r) \<and>
     (\<exists>t. data = log_of frame rs @ t \<and> (t = [] \<or> decode t = Ret None))"

lemma wal_logI: "\<forall>r \<in> set rs. encodable r \<Longrightarrow> wal_log rs (log_of frame rs)"
  by (auto simp: wal_log_def)

lemma wal_log_tail: "\<forall>r \<in> set rs. encodable r \<Longrightarrow> decode t = Ret None \<Longrightarrow> wal_log rs (log_of frame rs @ t)"
  by (auto simp: wal_log_def)

lemma replay_wal_log: "wal_log rs data \<Longrightarrow> replay_data data = Ret (live_messages rs)"
  using walrec.scan_log_of walrec.scan_log_blocked by (auto simp: wal_log_def replay_data_scan)

text \<open>The message that comes back from the log.\<close>

definition replayed :: "Message \<Rightarrow> Message" where
  "replayed m = m\<lparr>EnqueueTime := time_Unix0 (UnixNano (EnqueueTime m)),
     DispatchedAt := time_zero, Status := StatusPending\<rparr>"

definition message_ok :: "Message \<Rightarrow> bool" where
  "message_ok m \<longleftrightarrow> encodable (message_record m)"

definition tombstone_ok :: "MessageID \<Rightarrow> bool" where
  "tombstone_ok i \<longleftrightarrow> encodable (tombstone_record i)"

lemma rec_header_header_rec [simp]: "rec_header (header_rec h) = h" "header_rec (rec_header r) = r"
  by (simp_all add: rec_header_def header_rec_def)

lemma messages_of_message [simp]: "messages_of (message_record m # rs) = replayed m # messages_of rs"
  by (cases m) (simp add: message_record_def record_message_def replayed_def o_def)

lemma message_record_simps [simp]:
  "recType (message_record m) = RecordMessage" "recID (message_record m) = ID m"
  "recType (tombstone_record i) = RecordTombstone" "recID (tombstone_record i) = i"
  "messages_of (tombstone_record i # rs) = messages_of rs"
  by (simp_all add: message_record_def tombstone_record_def)

lemma replayed_ID [simp]: "ID (replayed m) = ID m" "RetryCount (replayed m) = RetryCount m"
  "Queue (replayed m) = Queue m" "Payload (replayed m) = Payload m" "Headers (replayed m) = Headers m"
  by (simp_all add: replayed_def)

lemma message_record_replayed [simp]: "message_record (replayed m) = message_record m"
  by (simp add: message_record_def replayed_def)

lemma message_record_record_message:
  "recType r = RecordMessage \<Longrightarrow> recMsg r = Some m \<Longrightarrow> message_record (record_message (recID r) m) = r"
  by (cases r; cases m) (simp add: message_record_def record_message_def o_def)

lemma messages_of_messages [simp]: "messages_of (map message_record ms) = map replayed ms"
  by (induction ms) (simp_all del: messages_of.simps(2))

lemma tombs_of_messages [simp]: "tombs_of (map message_record ms) = {}"
  by (auto simp: tombs_of_def)

lemma live_messages_messages [simp]: "live_messages (map message_record ms) = map replayed ms"
  by (simp add: live_messages_def)

text \<open>The messages of a log are in the form replay gives them, and fit the codec.\<close>

lemma messages_of_replayed:
  "m \<in> set (messages_of rs) \<Longrightarrow> replayed m = m \<and> message_record m \<in> set rs"
proof (induction rs)
  case (Cons r rs)
  show ?case
  proof (cases "m \<in> set (messages_of rs)")
    case True
    with Cons show ?thesis by simp
  next
    case False
    with Cons.prems obtain x where x: "recType r = RecordMessage" "recMsg r = Some x"
        "m = record_message (recID r) x"
      by (auto split: if_splits option.splits)
    then show ?thesis
      using message_record_record_message [of r x] by (auto simp: replayed_def record_message_def)
  qed
qed simp

lemma live_messages_replayed:
  "m \<in> set (live_messages rs) \<Longrightarrow> replayed m = m \<and> message_record m \<in> set rs"
  using messages_of_replayed by (auto simp: live_messages_def)

lemma live_messages_idem: "map replayed (live_messages rs) = live_messages rs"
  by (rule map_idI) (auto dest: live_messages_replayed)

subsection \<open>The writer\<close>

text \<open>An append writes a prefix of the record's bytes at the end of the file, and touches no
  other file; on success it is the whole record.\<close>

lemma append_record_effect:
  assumes "wFile wr = FOpen p" and "files w p = Some data" and "append_record wr r w = (err, w')"
  obtains k where "k \<le> length (frame r)" "files w' = (files w)(p \<mapsto> data @ take k (frame r))"
    "err = None \<Longrightarrow> k = length (frame r)"
proof -
  obtain k where k: "k \<le> length (frame r)"
    "files (snd (f_Write (FOpen p) (frame r) w)) p = Some (data @ take k (frame r))"
    "snd (fst (f_Write (FOpen p) (frame r) w)) = None \<longleftrightarrow> k = length (frame r)"
    using f_Write_prefix [OF assms(2) frame_nonempty [of r]] by metis
  obtain n e w1 where w1: "f_Write (FOpen p) (frame r) w = ((n, e), w1)" by (metis prod.exhaust)
  have f1: "files w1 = (files w)(p \<mapsto> data @ take k (frame r))"
    using f_Write_frame [of _ p "frame r" w] k(2) w1 by (auto simp: fun_eq_iff)
  have "files w' = files w1"
    using assms(1,3) w1
    by (auto simp: append_record_def encode_frame f_Sync_filesD split: option.splits if_splits)
  moreover have "e = None" if "err = None"
    using that assms(1,3) w1 by (auto simp: append_record_def encode_frame split: option.splits)
  ultimately show ?thesis using that k w1 f1 by auto
qed

lemma append_record_closed:
  "wFile wr = FNil \<or> wFile wr = FClosed \<Longrightarrow> \<exists>e. append_record wr r w = (Some e, w)"
  by (auto simp: append_record_def encode_frame f_Write_def)

text \<open>With no fault the append succeeds.\<close>

lemma append_record_ok:
  assumes "faults w = []" and "wFile wr = FOpen p" and "files w p = Some data"
  shows "append_record wr r w = (None, w\<lparr>files := (files w)(p \<mapsto> data @ frame r)\<rparr>)"
  using assms by (simp add: append_record_def encode_frame f_Write_def f_Sync_def tick_def)

text \<open>Appending to a log without a broken tail: the log of the old records and the new one,
  or, when the append fails, still a log of the old records (or of both).\<close>

lemma append_log:
  assumes "wFile wr = FOpen p" "files w p = Some (log_of frame rs)" "\<forall>r \<in> set rs. encodable r" "encodable r"
    and "append_record wr r w = (err, w')"
  shows "err = None \<Longrightarrow> files w' p = Some (log_of frame (rs @ [r]))"
    and "\<exists>data. files w' p = Some data \<and> (wal_log rs data \<or> wal_log (rs @ [r]) data)"
proof -
  obtain k where k: "k \<le> length (frame r)" "files w' = (files w)(p \<mapsto> log_of frame rs @ take k (frame r))"
    "err = None \<Longrightarrow> k = length (frame r)"
    using append_record_effect [OF assms(1,2,5)] by metis
  show "err = None \<Longrightarrow> files w' p = Some (log_of frame (rs @ [r]))" using k by simp
  show "\<exists>data. files w' p = Some data \<and> (wal_log rs data \<or> wal_log (rs @ [r]) data)"
  proof (cases "k = length (frame r)")
    case True
    with k assms show ?thesis using wal_logI [of "rs @ [r]"] by auto
  next
    case False
    with k(1) have "decode (take k (frame r)) = Ret None" using decode_frame_torn assms(4) by auto
    with k assms show ?thesis using wal_log_tail by auto
  qed
qed

subsection \<open>Bytes after a torn record are lost\<close>

text \<open>\<open>NewWriter\<close> opens the file in append mode and does not cut a torn tail off, so later
  records follow bytes that do not decode. When the tear is inside the magic number, nothing
  written after it is ever read again.\<close>

lemma magic_bytes: "PutUint32 magicVal = [0xC0, 0xFF, 0xEE, 0x01]"
  by (simp add: PutUint32_def magicVal_def)

lemma decode_after_torn_magic:
  assumes "0 < k" "k < 4"
  shows "decode (take k (frame r) @ log_of frame ss) = Ret None"
proof -
  have k: "k = 1 \<or> k = 2 \<or> k = 3" using assms by auto
  have t: "take k (frame r) = take k [0xC0, 0xFF, 0xEE, 0x01]"
    using k by (auto simp: frame_def magic_bytes)
  show ?thesis
  proof (cases ss)
    case Nil
    then show ?thesis using assms by (simp add: decode_short)
  next
    case (Cons s ss')
    obtain x where x: "log_of frame ss = [0xC0, 0xFF, 0xEE, 0x01] @ x"
      by (simp add: Cons frame_def magic_bytes)
    have "decode ([0xC0, 0xC0, 0xFF, 0xEE] @ y) = Ret None" "decode ([0xC0, 0xFF, 0xC0, 0xFF] @ y) = Ret None"
      "decode ([0xC0, 0xFF, 0xEE, 0xC0] @ y) = Ret None" for y
      by (rule decode_bad_magic, simp, simp add: magicVal_def)+
    then show ?thesis using k unfolding t x by auto
  qed
qed

text \<open>A buffer shorter than its header announces is not decoded.\<close>

lemma decode_announced:
  assumes "9 \<le> length buf" "Uint32 (take 4 (drop 5 buf)) = Ret n" "length buf < 13 + unat n"
  shows "decode buf = Ret None"
proof (cases "length buf < 13")
  case False
  have "Uint32 (take 4 buf) \<noteq> Panic" using assms(1) by (simp add: Uint32_eq_Panic)
  then obtain mg where mg: "Uint32 (take 4 buf) = Ret mg" by (cases "Uint32 (take 4 buf)") auto
  have "slice buf 0 4 = Ret (take 4 buf)" "slice buf 5 9 = Ret (take 4 (drop 5 buf))"
    using assms(1) by (simp_all add: slice_ok)
  then show ?thesis using assms(2,3) mg False by (simp add: decode_def Let_def)
qed (rule decode_short)

lemma unat_or_ge: "unat x \<le> unat (x OR (y :: uint32))" "unat y \<le> unat (x OR (y :: uint32))"
  using le_word_or2 [of x y] le_word_or2 [of y x] by (simp_all add: word_le_nat_alt or.commute)

text \<open>What the header of a torn record announces once other records follow it: for a tear in the
  type or length field, a number made of the magic number's bytes; behind that, the torn record's
  own length. As long as the tail is shorter, nothing in it is decoded.\<close>

definition shadow :: "wal_record \<Rightarrow> nat \<Rightarrow> nat" where
  "shadow r k =
     (if k \<le> 5 then 0xC0000000 else if k = 6 then 0xC00000 else if k = 7 then 0xC000 else if k = 8 then 0xC0
      else length (frame r))"

lemma decode_after_torn_header:
  assumes "4 \<le> k" "k \<le> 8" "length buf < shadow r k" "buf = take k (frame r) @ log_of frame (s # ss)"
  shows "decode buf = Ret None"
proof -
  let ?m = "[0xC0, 0xFF, 0xEE, 0x01] :: bytes"
  obtain a where a: "frame s = ?m @ a" "9 \<le> length a"
    by (simp add: frame_def magic_bytes body_of_def)
  obtain l0 l1 l2 l3 where l: "PutUint32 (of_nat (length (payload_of r))) = [l0, l1, l2, l3]" by (simp add: PutUint32_def)
  obtain t u where u: "frame r = ?m @ [t, l0, l1, l2, l3] @ u" by (simp add: frame_def magic_bytes body_of_def l)
  obtain a0 a1 where a0: "a = a0 # a1" using a(2) by (cases a) auto
  have buf: "buf = take k (?m @ [t, l0, l1, l2, l3] @ u) @ ?m @ a0 # a1 @ log_of frame ss"
    using assms(4) a(1) a0 u by simp
  have k: "k = 4 \<or> k = 5 \<or> k = 6 \<or> k = 7 \<or> k = 8" using assms(1,2) by auto
  then have len: "9 \<le> length buf" using a(2) a0 by (auto simp: buf)
  obtain w x y z where f: "take 4 (drop 5 buf) = [w, x, y, z]"
    "(k = 4 \<longrightarrow> w = 0xFF) \<and> (k = 5 \<longrightarrow> w = 0xC0) \<and> (k = 6 \<longrightarrow> x = 0xC0) \<and> (k = 7 \<longrightarrow> y = 0xC0) \<and> (k = 8 \<longrightarrow> z = 0xC0)"
    using k by (auto simp: buf)
  let ?n = "push_bit 24 (ucast w) OR push_bit 16 (ucast x) OR push_bit 8 (ucast y) OR ucast z :: uint32"
  have ge: "unat (push_bit 24 (ucast w) :: uint32) \<le> unat ?n" "unat (push_bit 16 (ucast x) :: uint32) \<le> unat ?n"
    "unat (push_bit 8 (ucast y) :: uint32) \<le> unat ?n" "unat (ucast z :: uint32) \<le> unat ?n"
    by (rule unat_or_ge(1), rule order_trans [OF unat_or_ge(1) unat_or_ge(2)],
      rule order_trans [OF unat_or_ge(1) order_trans [OF unat_or_ge(2) unat_or_ge(2)]],
      rule order_trans [OF unat_or_ge(2) order_trans [OF unat_or_ge(2) unat_or_ge(2)]])
  have "shadow r k \<le> unat ?n" using k f(2) ge by (elim disjE) (simp_all add: shadow_def)
  then show ?thesis using decode_announced [OF len, of ?n] f(1) assms(3) by simp
qed

lemma decode_after_torn:
  assumes "encodable r" "0 < k" "k < length (frame r)" "k < 4 \<or> k + length (log_of frame ss) < shadow r k"
  shows "decode (take k (frame r) @ log_of frame ss) = Ret None"
proof (cases "k < 4 \<or> ss = []")
  case True
  then show ?thesis using decode_after_torn_magic [OF assms(2)] decode_frame_torn [OF assms(1,3)] by auto
next
  case False
  then obtain s ss' where ss: "ss = s # ss'" by (cases ss) auto
  let ?buf = "take k (frame r) @ log_of frame ss"
  have len: "length ?buf < shadow r k" using assms(3,4) False by simp
  show ?thesis
  proof (cases "k \<le> 8")
    case True
    then show ?thesis using decode_after_torn_header [OF _ True len] False ss by simp
  next
    case k: False
    let ?n = "of_nat (length (payload_of r)) :: uint32"
    have n: "unat ?n = length (payload_of r)" using assms(1) by (simp add: encodable_def unat_of_nat)
    let ?v = "payload_of r @ PutUint32 (ChecksumIEEE (body_of r))"
    have "frame r = (PutUint32 magicVal @ [recType r]) @ PutUint32 ?n @ ?v" by (simp add: frame_def body_of_def)
    then have u: "take k (frame r) = (PutUint32 magicVal @ [recType r]) @ PutUint32 ?n @ take (k - 9) ?v"
      using k by (simp add: take_Cons')
    have "take 4 (drop 5 ?buf) = PutUint32 ?n" unfolding u by simp
    moreover have "9 \<le> length ?buf" using assms(3) k by simp
    ultimately show ?thesis
      using decode_announced [of ?buf ?n] Uint32_PutUint32 [of ?n "[]"] n len k by (simp add: shadow_def length_frame)
  qed
qed

subsection \<open>The compactor\<close>

lemma write_records_effect:
  "files w p = Some d \<Longrightarrow> write_records (FOpen p) msgs w = (err, w') \<Longrightarrow>
     (\<forall>q. q \<noteq> p \<longrightarrow> files w' q = files w q) \<and>
     (err = None \<longrightarrow> files w' p = Some (d @ log_of frame (map message_record msgs)))"
proof (induction msgs arbitrary: w d)
  case (Cons m msgs)
  let ?r = "message_record m"
  obtain n e w1 where w1: "f_Write (FOpen p) (frame ?r) w = ((n, e), w1)" by (metis prod.exhaust)
  obtain k where k: "files w1 p = Some (d @ take k (frame ?r))" "e = None \<longleftrightarrow> k = length (frame ?r)"
    using f_Write_prefix [OF Cons.prems(1) frame_nonempty [of ?r]] w1 by (metis fst_conv snd_conv)
  have q: "\<And>q. q \<noteq> p \<Longrightarrow> files w1 q = files w q"
    using f_Write_frame [of _ p "frame ?r" w] w1 by simp
  show ?case
  proof (cases "e = None \<and> n = length (frame ?r)")
    case True
    then have "write_records (FOpen p) msgs w1 = (err, w')"
      using Cons.prems(2) w1 by (simp add: encode_frame)
    with Cons.IH [of w1] k True q show ?thesis by auto
  next
    case False
    then have "err \<noteq> None" "w' = w1"
      using Cons.prems(2) w1 by (auto simp: encode_frame split: option.splits)
    with q show ?thesis by auto
  qed
qed simp

lemma f_Close_filesD: "f_Close h w = (x, w') \<Longrightarrow> files w' = files w"
  using f_Close_files [of h w] by simp

lemma writeCleanWAL_effect:
  assumes "writeCleanWAL p msgs w = (err, w')"
  shows "(\<forall>q. q \<noteq> p \<longrightarrow> files w' q = files w q) \<and>
    (err = None \<longrightarrow> files w' p = Some (log_of frame (map message_record msgs)))"
proof (cases "OpenFile p True True w")
  case (Pair res w1)
  show ?thesis
  proof (cases res)
    case (Inl e)
    with Pair assms show ?thesis using OpenFile_frame [of _ p True True w]
      by (auto simp: writeCleanWAL_def)
  next
    case (Inr f)
    have f: "f = FOpen p" "files w1 p = Some []" "\<And>q. q \<noteq> p \<Longrightarrow> files w1 q = files w q"
      using Pair Inr by (auto simp: OpenFile_def split: if_splits option.splits)
    obtain e2 w2 where w2: "write_records f msgs w1 = (e2, w2)" by (metis prod.exhaust)
    then have "files w' = files w2" "err = None \<Longrightarrow> e2 = None"
      using assms Pair Inr
      by (auto simp: writeCleanWAL_def f_Sync_filesD split: option.splits prod.splits)
    with write_records_effect [OF f(2)] w2 f show ?thesis by auto
  qed
qed

lemma reopenOriginal_files [simp]: "files (snd (reopenOriginal wr w)) = files w"
  using OpenFile_no_create [of "wPath wr" w]
  by (auto simp: reopenOriginal_def split: prod.splits sum.splits)

lemma reopenOriginal_filesD: "reopenOriginal wr w = (wr', w') \<Longrightarrow> files w' = files w"
  using reopenOriginal_files [of wr w] by simp

lemma compact_abort_effect:
  assumes "compact_abort what err wr w = ((e, wr'), w')"
  shows "e \<noteq> None" and "\<And>q. q \<noteq> tmp_path (wPath wr) \<Longrightarrow> files w' q = files w q"
proof -
  let ?w1 = "snd (Remove (tmp_path (wPath wr)) w)"
  have "((e, wr'), w') = ((Some (ErrWrap what err), fst (reopenOriginal wr ?w1)), snd (reopenOriginal wr ?w1))"
    using assms by (simp add: compact_abort_def case_prod_beta)
  then show "e \<noteq> None" and "\<And>q. q \<noteq> tmp_path (wPath wr) \<Longrightarrow> files w' q = files w q"
    using Remove_frame [of _ "tmp_path (wPath wr)" w] by simp_all
qed

lemma replay_path_files: "replay_path p w = (r, w') \<Longrightarrow> files w' = files w"
proof -
  assume "replay_path p w = (r, w')"
  then have "w' = snd (ReadFile p w)"
    by (auto simp: replay_path_def split: prod.splits sum.splits if_splits)
  then show ?thesis by simp
qed

lemma replay_path_ok:
  assumes "replay_path p w = (Inr msgs, w')" "files w p = Some data"
  shows "replay_data data = Ret msgs"
  using assms by (auto simp: replay_path_def ReadFile_def split: if_splits sum.splits outcome.splits)

text \<open>The state of the WAL file around a compaction: it is the file it was, or it is the log
  of its live messages alone.\<close>

definition compacted :: "string \<Rightarrow> Message list \<Rightarrow> world \<Rightarrow> world \<Rightarrow> bool" where
  "compacted p msgs w w' \<longleftrightarrow>
     (\<forall>q. q \<noteq> p \<and> q \<noteq> tmp_path p \<longrightarrow> files w' q = files w q) \<and>
     (files w' p = files w p \<or> files w' p = Some (log_of frame (map message_record msgs)))"

lemma compact_replace_effect:
  assumes "compact_replace wr w = ((err, wr'), w')"
    and t: "files w (tmp_path (wPath wr)) = Some (log_of frame (map message_record msgs))"
  shows "compacted (wPath wr) msgs w w'"
    and "err = None \<Longrightarrow> wFile wr' = FOpen (wPath wr) \<and>
      files w' (wPath wr) = Some (log_of frame (map message_record msgs))"
proof -
  let ?p = "wPath wr" and ?t = "tmp_path (wPath wr)"
  obtain e5 w5 where w5: "Rename ?t ?p w = (e5, w5)" by (metis prod.exhaust)
  show "compacted ?p msgs w w'"
  proof (cases e5)
    case None
    then have f5: "files w5 = (files w)(?t := None, ?p \<mapsto> log_of frame (map message_record msgs))"
      using w5 t by (auto simp: Rename_def split: if_splits)
    moreover have "files w' = files w5"
      using assms(1) w5 None OpenFile_no_create [of ?p w5]
      by (auto simp: compact_replace_def split: prod.splits sum.splits)
    ultimately show ?thesis by (auto simp: compacted_def)
  next
    case (Some e)
    then have "files w5 = files w" using w5 t by (auto simp: Rename_def split: if_splits)
    with Some w5 assms(1) compact_abort_effect(2) [of _ _ wr w5 err wr' w'] show ?thesis
      by (auto simp: compact_replace_def compacted_def)
  qed
  assume "err = None"
  then have "e5 = None" using assms(1) w5 compact_abort_effect(1) [of _ _ wr w5 err wr' w']
    by (cases e5) (auto simp: compact_replace_def)
  with \<open>err = None\<close> show "wFile wr' = FOpen ?p \<and> files w' ?p = Some (log_of frame (map message_record msgs))"
    using assms(1) w5 t
    by (auto simp: compact_replace_def Rename_def OpenFile_def split: if_splits sum.splits)
qed

lemma compacted_trans:
  assumes "\<And>q. q \<noteq> tmp_path p \<Longrightarrow> files w1 q = files w q" and "compacted p msgs w1 w2"
  shows "compacted p msgs w w2"
  using assms by (auto simp: compacted_def)

lemma compact_rewrite_effect:
  assumes "compact_rewrite wr msgs w = ((err, wr'), w')"
  shows "compacted (wPath wr) msgs w w'"
    and "err = None \<Longrightarrow> wFile wr' = FOpen (wPath wr) \<and>
      files w' (wPath wr) = Some (log_of frame (map message_record msgs))"
proof -
  let ?p = "wPath wr" and ?t = "tmp_path (wPath wr)"
  obtain e3 w3 where w3: "writeCleanWAL ?t msgs w = (e3, w3)" by (metis prod.exhaust)
  obtain r4 w4 where w4: "replay_path ?t w3 = (r4, w4)" by (metis prod.exhaust)
  have F3: "\<And>q. q \<noteq> ?t \<Longrightarrow> files w3 q = files w q"
    using writeCleanWAL_effect [OF w3] by auto
  have F4: "files w4 = files w3" using replay_path_files [OF w4] .
  show "compacted ?p msgs w w'"
  proof (cases "e3 = None \<and> (\<exists>v. r4 = Inr v \<and> length v = length msgs)")
    case True
    then have "compact_replace wr w4 = ((err, wr'), w')"
      using assms w3 w4 by (auto simp: compact_rewrite_def replayFilePath_def)
    then have "compacted ?p msgs w4 w'"
      using compact_replace_effect(1) writeCleanWAL_effect [OF w3] True F4 by metis
    with F3 F4 show ?thesis by (auto intro: compacted_trans [of ?p w4 w])
  next
    case False
    then have "\<forall>q. q \<noteq> ?t \<longrightarrow> files w' q = files w q"
      using assms w3 w4 F3 F4 compact_abort_effect(2) [of _ _ wr w3 err wr' w']
        compact_abort_effect(2) [of _ _ wr w4 err wr' w']
      by (auto simp: compact_rewrite_def replayFilePath_def split: option.splits sum.splits if_splits)
    then show ?thesis by (simp add: compacted_def)
  qed
  assume "err = None"
  then have "e3 = None" "compact_replace wr w4 = ((err, wr'), w')"
    using assms w3 w4 compact_abort_effect(1) [of _ _ wr w3 err wr' w']
      compact_abort_effect(1) [of _ _ wr w4 err wr' w']
    by (auto simp: compact_rewrite_def replayFilePath_def split: option.splits sum.splits if_splits)
  then show "wFile wr' = FOpen ?p \<and> files w' ?p = Some (log_of frame (map message_record msgs))"
    using compact_replace_effect(2) writeCleanWAL_effect [OF w3] F4 \<open>err = None\<close> by metis
qed

lemma Compact_effect:
  assumes run: "Compact wr w = ((err, wr'), w')"
    and wr: "wPath wr = wal_path (wWalDir wr) (wQueue wr)" "files w (wPath wr) = Some data"
    and live: "replay_data data = Ret msgs"
  shows "compacted (wPath wr) msgs w w'"
    and "err = None \<Longrightarrow> wFile wr' = FOpen (wPath wr) \<and>
       files w' (wPath wr) = Some (log_of frame (map message_record msgs))"
proof -
  let ?p = "wPath wr" and ?wr = "wr\<lparr>wFile := FNil\<rparr>"
  obtain e1 f1 w1 where w1: "f_Close (wFile wr) w = ((e1, f1), w1)" by (metis prod.exhaust)
  have F1: "files w1 = files w" using f_Close_filesD [OF w1] .
  obtain r2 w2 where w2: "replay_path ?p w1 = (r2, w2)" by (metis prod.exhaust)
  have F2: "files w2 = files w" using replay_path_files [OF w2] F1 by simp
  have r2: "r2 = Inr ms \<Longrightarrow> ms = msgs" for ms
    using replay_path_ok [of ?p w1 ms w2 data] w2 F1 wr(2) live by simp
  have step: "compact_rewrite ?wr msgs w2 = ((err, wr'), w')" if "e1 = None" "r2 = Inr ms" for ms
    using that run w1 w2 r2 wr(1) by (auto simp: Compact_def Replay_def NewReader_def)
  have other: "files w' = files w \<and> err \<noteq> None" if "e1 \<noteq> None \<or> (\<forall>ms. r2 \<noteq> Inr ms)"
    using that run w1 w2 F1 F2 wr(1)
    by (auto simp: Compact_def Replay_def NewReader_def Let_def reopenOriginal_filesD
        split: option.splits sum.splits if_splits prod.splits)
  show "compacted ?p msgs w w'"
    using step other compact_rewrite_effect(1) [of ?wr msgs w2 err wr' w'] F2
    by (cases "e1 = None \<and> (\<exists>ms. r2 = Inr ms)") (auto simp: compacted_def)
  assume "err = None"
  then show "wFile wr' = FOpen ?p \<and> files w' ?p = Some (log_of frame (map message_record msgs))"
    using step other compact_rewrite_effect(2) [of ?wr msgs w2 err wr' w'] by auto
qed

text \<open>A compaction changes nothing of the writer but its file handle.\<close>

lemma reopenOriginal_writer: "reopenOriginal wr w = (wr', w') \<Longrightarrow> \<exists>f. wr' = wr\<lparr>wFile := f\<rparr>"
  by (auto simp: reopenOriginal_def split: prod.splits sum.splits) (metis Writer.surjective Writer.update_convs(1))+

lemma compact_abort_writer: "compact_abort what e wr w = ((err, wr'), w') \<Longrightarrow> \<exists>f. wr' = wr\<lparr>wFile := f\<rparr>"
  by (auto simp: compact_abort_def split: prod.splits dest: reopenOriginal_writer)

lemma compact_replace_writer: "compact_replace wr w = ((err, wr'), w') \<Longrightarrow> \<exists>f. wr' = wr\<lparr>wFile := f\<rparr>"
  by (auto simp: compact_replace_def split: prod.splits option.splits sum.splits dest: compact_abort_writer)
    (metis Writer.surjective Writer.update_convs(1))+

lemma compact_rewrite_writer: "compact_rewrite wr ms w = ((err, wr'), w') \<Longrightarrow> \<exists>f. wr' = wr\<lparr>wFile := f\<rparr>"
  by (auto simp: compact_rewrite_def Let_def split: prod.splits option.splits sum.splits if_splits
      dest: compact_abort_writer compact_replace_writer)
    (metis Writer.surjective Writer.update_convs(1))+

lemma Compact_writer:
  assumes "Compact wr w = ((err, wr'), w')" obtains f where "wr' = wr\<lparr>wFile := f\<rparr>"
  using assms
  by (auto simp: Compact_def Let_def split: prod.splits option.splits sum.splits if_splits
      dest!: reopenOriginal_writer compact_rewrite_writer)

text \<open>Without faults a compaction succeeds, since the temporary file replays to the messages
  that were written to it.\<close>

lemma write_records_ok:
  "faults w = [] \<Longrightarrow> files w p = Some d \<Longrightarrow>
     write_records (FOpen p) msgs w =
       (None, w\<lparr>files := (files w)(p \<mapsto> d @ log_of frame (map message_record msgs))\<rparr>)"
proof (induction msgs arbitrary: w d)
  case Nil
  then have "(files w)(p \<mapsto> d) = files w" by auto
  then show ?case by simp
next
  case (Cons m msgs)
  let ?w1 = "w\<lparr>files := (files w)(p \<mapsto> d @ frame (message_record m))\<rparr>"
  have "write_records (FOpen p) msgs ?w1 =
      (None, ?w1\<lparr>files := (files ?w1)(p \<mapsto> (d @ frame (message_record m)) @ log_of frame (map message_record msgs))\<rparr>)"
    using Cons.prems by (intro Cons.IH) simp_all
  with Cons.prems show ?case by (simp add: encode_frame f_Write_def fun_upd_def cong: if_cong)
qed

lemma writeCleanWAL_ok:
  assumes "faults w = []"
  shows "writeCleanWAL p msgs w = (None, w\<lparr>files := (files w)(p \<mapsto> log_of frame (map message_record msgs))\<rparr>)"
proof -
  have "OpenFile p True True w = (Inr (FOpen p), w\<lparr>files := (files w)(p \<mapsto> [])\<rparr>)"
    using assms by (simp add: OpenFile_def split: option.splits)
  then show ?thesis using assms
    by (simp add: writeCleanWAL_def write_records_ok f_Sync_def f_Close_def)
qed

lemma replay_path_log:
  assumes "faults w = []" "files w p = Some data" "wal_log rs data"
  shows "replay_path p w = (Inr (live_messages rs), w)"
  using assms by (simp add: replay_path_def ReadFile_def replay_wal_log)

lemma live_messages_encodable:
  "wal_log rs data \<Longrightarrow> \<forall>r \<in> set (map message_record (live_messages rs)). encodable r"
  using live_messages_replayed by (auto simp: wal_log_def)

lemma Compact_ok:
  assumes w: "faults w = []" and wr: "wFile wr = FOpen p" "wPath wr = wal_path (wWalDir wr) (wQueue wr)"
    and d: "files w (wPath wr) = Some data" "wal_log rs data"
  shows "fst (fst (Compact wr w)) = None"
proof -
  let ?t = "tmp_path (wPath wr)" and ?l = "log_of frame (map message_record (live_messages rs))"
  let ?w = "w\<lparr>files := (files w)(?t \<mapsto> ?l)\<rparr>"
  have "wal_log (map message_record (live_messages rs)) ?l"
    using wal_logI live_messages_encodable [OF d(2)] by blast
  then have "replay_path ?t ?w = (Inr (live_messages rs), ?w)"
    using w replay_path_log [of ?w ?t ?l "map message_record (live_messages rs)"]
    by (simp add: live_messages_idem)
  then show ?thesis
    using w wr replay_path_log [OF w d] w
    by (simp add: Compact_def f_Close_def Replay_def NewReader_def Let_def compact_rewrite_def
        writeCleanWAL_ok replayFilePath_def compact_replace_def Rename_def OpenFile_def)
qed

end
