(* ===== verification/RecordSize.thy ===== *)
theory RecordSize
  imports Wal
begin

text \<open>
  How long a WAL record can get. The decoder's slice arithmetic is 32 bits wide, so the round
  trip of the codec needs records below 4 GiB; here that bound is reduced to the size of the
  message, which the gRPC server limits.
\<close>

lemma length_escape_ascii: "length (escape_ascii c) \<le> 6"
  by (simp add: escape_ascii_def)

lemma length_quote_body: "length (quote_body s) \<le> 6 * length s"
proof (induction s rule: quote_body.induct)
  case (1 s)
  show ?case
  proof (cases s)
    case (Cons c cs)
    consider "ord c < 128" | "\<not> ord c < 128" "bad_rune s" | "\<not> ord c < 128" "\<not> bad_rune s" by blast
    then show ?thesis
    proof cases
      case 1
      with "1.IH"(1) [OF Cons] Cons length_escape_ascii [of c] show ?thesis
        by (simp add: quote_body.simps [of "c # cs"])
    next
      case 2
      with "1.IH"(2) [OF Cons] Cons show ?thesis by (simp add: quote_body.simps [of "c # cs"])
    next
      case 3
      let ?n = "snd (DecodeRune s)"
      have n: "0 < ?n" "?n \<le> length s" using DecodeRune_width_pos [of s] DecodeRune_width_le [of s] Cons by auto
      have "length (quote_body (drop ?n s)) \<le> 6 * (length s - ?n)"
        using "1.IH"(3) [OF Cons] 3 by simp
      with n have "6 + length (quote_body (drop ?n s)) \<le> 6 * length s" "?n + length (quote_body (drop ?n s)) \<le> 6 * length s"
        by linarith+
      with 3 Cons n show ?thesis by (simp add: quote_body.simps [of "c # cs"] Let_def)
    qed
  qed (simp add: quote_body.simps [of "[]"])
qed

lemma length_quote: "length (quote s) \<le> 6 * length s + 2"
  using length_quote_body [of s] by (simp add: quote_def)

lemma length_show_nat: "0 < k \<Longrightarrow> n < 10 ^ k \<Longrightarrow> length (show_nat n) \<le> k"
proof (induction k arbitrary: n)
  case (Suc k)
  show ?case
  proof (cases "n < 10")
    case False
    with Suc.prems have "0 < k" by (cases k) auto
    moreover have "n div 10 < 10 ^ k" using Suc.prems(2) by (simp add: less_mult_imp_div_less mult.commute)
    ultimately show ?thesis using Suc.IH [of "n div 10"] False by (simp add: show_nat.simps [of n])
  qed (simp add: show_nat.simps [of n])
qed simp

lemma length_show_int:
  assumes "- (2 ^ 63) \<le> i" "i < 2 ^ 63" shows "length (show_int i) \<le> 20"
proof -
  have "nat (- i) < 10 ^ 19" "nat i < 10 ^ 19" using assms by auto
  then have "length (show_nat (nat (- i))) \<le> 19" "length (show_nat (nat i)) \<le> 19"
    using length_show_nat [of 19] by auto
  then show ?thesis by (simp add: show_int_def)
qed

lemma length_sep_by_comma: "length (sep_by_comma xs) \<le> sum_list (map length xs) + length xs"
  by (induction xs rule: sep_by_comma.induct) auto

lemma length_base64: "length (EncodeToString64 bs) \<le> 4 * length bs"
  by (induction bs rule: EncodeToString64.induct) auto

subsection \<open>The size of a message\<close>

definition header_size :: "Header \<Rightarrow> nat" where
  "header_size h = 1 + length (Key h) + length (Value h)"

definition message_size :: "Message \<Rightarrow> nat" where
  "message_size m =
     length (ID m) + length (Queue m) + (case Payload m of None \<Rightarrow> 0 | Some p \<Rightarrow> length p) +
     sum_list (map header_size (Headers m))"

lemma length_json_header: "length (print_json (json_of_header (header_rec h))) \<le> 40 * header_size h"
  using length_quote [of "Key h"] length_quote [of "Value h"] length_quote [of "''k''"] length_quote [of "''v''"]
  by (simp add: json_of_header_def header_rec_def header_size_def)

lemma length_json_headers:
  "sum_list (map length (map print_json (map json_of_header (map header_rec hs)))) + length hs \<le>
     41 * sum_list (map header_size hs)"
proof (induction hs)
  case (Cons h hs)
  then show ?case using length_json_header [of h] by (simp add: header_size_def)
qed simp

lemma length_json_int32: "length (show_int (sint (w :: int32))) \<le> 20"
  using length_show_int [of "sint w"] sint_range [of w] by simp

lemma length_json_int64: "length (show_int (sint (w :: int64))) \<le> 20"
  using length_show_int [of "sint w"] sint_range [of w] by simp

lemma length_json_type: "length (show_int (uint (w :: byte))) \<le> 20"
  using length_show_int [of "uint w"] unsigned_less [of w, where 'a = int] unsigned_greater_eq [of w, where 'a = int] by simp

lemma length_json_payload: "length (print_json (json_of_bytes p)) \<le> 24 * (case p of None \<Rightarrow> 0 | Some b \<Rightarrow> length b) + 4"
proof (cases p)
  case (Some b)
  then show ?thesis using length_quote [of "EncodeToString64 b"] length_base64 [of b] by (simp add: json_of_bytes_def)
qed (simp add: json_of_bytes_def)

lemma length_json_message:
  assumes "recMsg (message_record m) = Some rm"
  shows "length (print_json (json_of_recordMsg rm)) \<le> 41 * message_size m + 120"
proof -
  have rm: "rm = \<lparr>rmQueue = Queue m, rmPayload = Payload m, rmHeaders = map header_rec (Headers m),
      rmRetryCount = RetryCount m, rmEnqueueTime = UnixNano (EnqueueTime m)\<rparr>"
    using assms by (simp add: message_record_def)
  let ?hs = "print_json (JArr (map json_of_header (map header_rec (Headers m))))"
  have hs: "length ?hs \<le> 41 * sum_list (map header_size (Headers m)) + 2"
    using length_json_headers [of "Headers m"]
      length_sep_by_comma [of "map print_json (map json_of_header (map header_rec (Headers m)))"] by simp
  have "length (print_json (json_of_recordMsg rm)) \<le>
      length (quote (Queue m)) + length (print_json (json_of_bytes (Payload m))) + length ?hs +
      length (show_int (sint (RetryCount m))) + length (show_int (sint (UnixNano (EnqueueTime m)))) +
      length (quote ''q'') + length (quote ''p'') + length (quote ''h'') + length (quote ''r'') + length (quote ''t'') + 12"
    by (auto simp: rm json_of_recordMsg_def)
  with hs length_quote [of "Queue m"] length_json_payload [of "Payload m"] length_json_int32 [of "RetryCount m"]
    length_json_int64 [of "UnixNano (EnqueueTime m)"] length_quote [of "''q''"] length_quote [of "''p''"]
    length_quote [of "''h''"] length_quote [of "''r''"] length_quote [of "''t''"]
  show ?thesis by (simp add: message_size_def)
qed

lemma length_payload_message: "length (payload_of (message_record m)) \<le> 47 * message_size m + 200"
proof -
  obtain rm where rm: "recMsg (message_record m) = Some rm" by (simp add: message_record_def)
  have "length (payload_of (message_record m)) \<le>
      length (quote ''t'') + length (quote ''id'') + length (quote ''m'') + length (quote (ID m)) +
      length (show_int (uint RecordMessage)) + length (print_json (json_of_recordMsg rm)) + 7"
    using rm by (simp add: payload_of_def json_of_record_def)
  with length_json_message [OF rm] length_quote [of "''t''"] length_quote [of "''id''"] length_quote [of "''m''"]
    length_quote [of "ID m"] length_json_type [of RecordMessage]
  show ?thesis by (simp add: message_size_def)
qed

lemma length_payload_tombstone: "length (payload_of (tombstone_record i)) \<le> 6 * length i + 60"
  using length_quote [of i] length_quote [of "''t''"] length_quote [of "''id''"] length_json_type [of RecordTombstone]
  by (simp add: payload_of_def json_of_record_def tombstone_record_def)

text \<open>Messages below 64 MiB with well-formed strings are safe in the log.\<close>

definition max_message :: nat where
  "max_message = 2 ^ 26"

lemma message_okI:
  assumes "valid_utf8 (ID m)" "valid_utf8 (Queue m)"
    "\<forall>h \<in> set (Headers m). valid_utf8 (Key h) \<and> valid_utf8 (Value h)" "message_size m \<le> max_message"
  shows "message_ok m"
proof -
  have "representable (message_record m)" using assms
    by (auto simp: message_record_def representable_def recordMsg_ok_def header_ok_def header_rec_def list_all_iff)
  with length_payload_message [of m] assms(4) show ?thesis
    by (simp add: message_ok_def encodable_def max_message_def)
qed

lemma tombstone_okI:
  assumes "valid_utf8 i" "length i \<le> max_message" shows "tombstone_ok i"
proof -
  have "representable (tombstone_record i)" using assms(1) by (simp add: representable_def tombstone_record_def)
  with length_payload_tombstone [of i] assms(2) show ?thesis
    by (simp add: tombstone_ok_def encodable_def max_message_def)
qed

text \<open>Where a message can be logged, so can its tombstone.\<close>

lemma show_int_digit: "0 \<le> i \<Longrightarrow> i < 10 \<Longrightarrow> length (show_int i) = 1"
  by (simp add: show_int_def show_nat.simps [of "nat i"] nat_less_iff)

lemma message_tombstone_ok:
  assumes "message_ok m" shows "tombstone_ok (ID m)"
proof -
  have "length (show_int (uint RecordTombstone)) = length (show_int (uint RecordMessage))"
    by (simp add: show_int_digit RecordTombstone_def RecordMessage_def)
  then have "length (payload_of (tombstone_record (ID m))) \<le> length (payload_of (message_record m))"
    by (simp add: payload_of_def json_of_record_def tombstone_record_def message_record_def)
  with assms show ?thesis
    by (auto simp: message_ok_def tombstone_ok_def encodable_def representable_def tombstone_record_def message_record_def)
qed

subsection \<open>A sample\<close>

text \<open>A concrete message and identifier, on which the properties are instantiated.\<close>

definition sample_message :: Message where
  "sample_message = zero_Message\<lparr>ID := ''00c0ffee'', Queue := ''orders'', Payload := Some [1, 2, 3]\<rparr>"

lemma sample_simps [simp]:
  "ID sample_message = ''00c0ffee''" "Queue sample_message = ''orders''" "Payload sample_message = Some [1, 2, 3]"
  "Headers sample_message = []" "RetryCount sample_message = 0" "Status sample_message = StatusPending"
  "DispatchedAt sample_message = time_zero" "EnqueueTime sample_message = time_zero"
  by (simp_all add: sample_message_def zero_Message_def)

lemma sample_ascii: "valid_utf8 ''00c0ffee''" "valid_utf8 ''orders''"
  by (rule valid_utf8_ascii, simp)+

lemma sample_ok [simp]: "message_ok sample_message"
  using sample_ascii by (intro message_okI) (simp_all add: message_size_def max_message_def)

lemma sample_tombstone_ok [simp]: "tombstone_ok ''00c0ffee''"
  using sample_ascii by (intro tombstone_okI) (simp_all add: max_message_def)

lemma sample_encodable [simp]:
  "encodable (message_record sample_message)" "encodable (tombstone_record ''00c0ffee'')"
  using sample_ok sample_tombstone_ok by (simp_all only: message_ok_def tombstone_ok_def)

lemma sample_settled [simp]:
  "live_messages [message_record sample_message, tombstone_record ''00c0ffee''] = []"
proof -
  have "messages_of [message_record sample_message, tombstone_record ''00c0ffee''] = [replayed sample_message]"
    unfolding messages_of_message message_record_simps(5) by simp
  then show ?thesis by (simp add: live_messages_def del: messages_of.simps)
qed

end
