(* ===== verification/WalProps.thy ===== *)
theory WalProps
  imports RecordSize
begin

text \<open>
  Properties of the write-ahead log: the record codec, replay, appends, crashes and compaction.
\<close>

section \<open>The record codec\<close>

text \<open>C16. Round trip: a record that \<open>encode\<close> wrote is what \<open>decode\<close> reads from the front of any
  buffer that starts with it, together with its length.\<close>

theorem codec_roundtrip:
  "encodable r \<Longrightarrow> \<exists>bs. encode r = Inr bs \<and> decode (bs @ rest) = Ret (Some (r, length bs))"
  by (simp add: encode_frame decode_frame)

theorem codec_roundtrip_witness:
  "\<exists>bs. encode (message_record sample_message) = Inr bs \<and>
     decode (bs @ [0]) = Ret (Some (message_record sample_message, length bs))"
  by (rule codec_roundtrip) simp

text \<open>A record cut short at any byte (a torn write) is rejected, never misread.\<close>

lemma torn_record_rejected:
  "encodable r \<Longrightarrow> encode r = Inr bs \<Longrightarrow> k < length bs \<Longrightarrow> decode (take k bs) = Ret None"
  using decode_frame_torn [of r k] by (auto simp: encode_frame)

text \<open>C17. One damaged byte outside the length field is detected by the magic number or the
  checksum, whatever follows the record.\<close>

theorem corrupt_byte_rejected:
  "encodable r \<Longrightarrow> encode r = Inr bs \<Longrightarrow> i < length bs \<Longrightarrow> i \<notin> {5..8} \<Longrightarrow> b \<noteq> bs ! i \<Longrightarrow>
     decode (bs[i := b] @ rest) = Ret None"
  using decode_corrupt_byte [of r i b rest] by (auto simp: encode_frame)

theorem corrupt_byte_rejected_witness:
  "decode ((frame (message_record sample_message))[4 := 0] @ [1]) = Ret None"
proof (rule corrupt_byte_rejected [of "message_record sample_message"])
  show "(0 :: byte) \<noteq> frame (message_record sample_message) ! 4"
    by (simp add: frame_def body_of_def magic_bytes RecordMessage_def)
qed (simp_all add: encode_frame length_frame)

text \<open>C18. On any buffer below 4 GiB \<open>decode\<close> evaluates no slice expression out of range, and
  what it consumes is at least a record's overhead and at most the buffer.\<close>

theorem decode_safe:
  "length buf < 2 ^ 32 \<Longrightarrow>
     decode buf = Ret None \<or> (\<exists>r n. decode buf = Ret (Some (r, n)) \<and> recordOverhead \<le> n \<and> n \<le> length buf)"
proof -
  assume "length buf < 2 ^ 32"
  then obtain x where x: "decode buf = Ret x" using decode_no_panic by (cases "decode buf") auto
  show ?thesis
  proof (cases x)
    case (Some p)
    then show ?thesis using x decode_consumes [of buf "fst p" "snd p"] by (cases p) auto
  qed (use x in simp)
qed

theorem decode_safe_witness:
  "decode [0xC0, 0xFF] = Ret None \<or>
     (\<exists>r n. decode [0xC0, 0xFF] = Ret (Some (r, n)) \<and> recordOverhead \<le> n \<and> n \<le> length [0xC0, 0xFF :: byte])"
  by (rule decode_safe) simp

text \<open>Bounds: a message of up to 64 MiB with well-formed strings is encodable, so the 32-bit
  arithmetic of the decoder is never reached by it (a gRPC request is limited to 4 MiB).\<close>

lemma message_record_bounded:
  "valid_utf8 (ID m) \<Longrightarrow> valid_utf8 (Queue m) \<Longrightarrow> list_all (\<lambda>h. valid_utf8 (Key h) \<and> valid_utf8 (Value h)) (Headers m) \<Longrightarrow>
     message_size m \<le> max_message \<Longrightarrow>
     \<exists>bs. encode (message_record m) = Inr bs \<and> length bs < 2 ^ 32 \<and>
       decode bs = Ret (Some (message_record m, length bs))"
  using message_okI [of m] decode_frame [of "message_record m" "[]"]
  by (auto simp: encode_frame list_all_iff message_ok_def encodable_def length_frame)

section \<open>Replay\<close>

text \<open>C8. Replaying a log of complete records returns its message records in order, without those
  whose identifier has a tombstone anywhere in the log.\<close>

theorem replay_live_messages:
  "list_all encodable rs \<Longrightarrow> faults w = [] \<Longrightarrow> files w (rdPath rd) = Some (log_of frame rs) \<Longrightarrow>
     Replay rd w = (Inr (live_messages rs), w)"
  using replay_path_log [OF _ _ wal_logI [of rs]] by (simp add: Replay_def list_all_iff)

theorem replay_live_messages_witness:
  "Replay (NewReader ''wal'' ''orders'')
     \<lparr>files = [wal_path ''wal'' ''orders'' \<mapsto>
        log_of frame [message_record sample_message, tombstone_record ''00c0ffee'']], faults = []\<rparr> =
   (Inr [], \<lparr>files = [wal_path ''wal'' ''orders'' \<mapsto>
        log_of frame [message_record sample_message, tombstone_record ''00c0ffee'']], faults = []\<rparr>)"
  using replay_live_messages [of "[message_record sample_message, tombstone_record ''00c0ffee'']"
        "\<lparr>files = [wal_path ''wal'' ''orders'' \<mapsto>
          log_of frame [message_record sample_message, tombstone_record ''00c0ffee'']], faults = []\<rparr>"
        "NewReader ''wal'' ''orders''"]
  by (simp add: NewReader_def del: log_of_simps)

text \<open>C5. Crash recovery: whatever prefix of a record an interrupted append leaves behind the
  complete records of a log, replay returns exactly what it returned before the append, or, when
  all bytes arrived, what it returns for the longer log. It never fails and never invents a
  message.\<close>

theorem crash_during_append:
  assumes "list_all encodable rs" "encodable r" "k \<le> length (frame r)" "faults w = []"
    and "files w (rdPath rd) = Some (log_of frame rs @ take k (frame r))"
  shows "Replay rd w = (Inr (live_messages (if k < length (frame r) then rs else rs @ [r])), w)"
proof -
  let ?rs = "if k < length (frame r) then rs else rs @ [r]"
  have "wal_log ?rs (log_of frame rs @ take k (frame r))"
  proof (cases "k < length (frame r)")
    case True
    with assms decode_frame_torn [of r k] wal_log_tail [of rs] show ?thesis by (simp add: list_all_iff)
  next
    case False
    with assms wal_logI [of "rs @ [r]"] show ?thesis by (auto simp: list_all_iff)
  qed
  from replay_path_log [OF assms(4,5) this] show ?thesis by (simp add: Replay_def)
qed

theorem crash_during_append_witness:
  "\<exists>w'. Replay (NewReader ''wal'' ''orders'')
     \<lparr>files = [wal_path ''wal'' ''orders'' \<mapsto>
        log_of frame [message_record sample_message] @ take 7 (frame (tombstone_record ''00c0ffee''))], faults = []\<rparr> =
   (Inr (live_messages [message_record sample_message]), w')"
  using crash_during_append [of "[message_record sample_message]" "tombstone_record ''00c0ffee''" 7
      "\<lparr>files = [wal_path ''wal'' ''orders'' \<mapsto>
        log_of frame [message_record sample_message] @ take 7 (frame (tombstone_record ''00c0ffee''))], faults = []\<rparr>"
      "NewReader ''wal'' ''orders''"]
  by (simp add: NewReader_def length_frame)

text \<open>Appending several records.\<close>

fun append_records :: "Writer \<Rightarrow> wal_record list \<Rightarrow> world \<Rightarrow> error option list \<times> world" where
  "append_records wr [] w = ([], w)"
| "append_records wr (r # rs) w =
     (case append_record wr r w of (err, w1) \<Rightarrow> (case append_records wr rs w1 of (errs, w2) \<Rightarrow> (err # errs, w2)))"

lemma append_records_ok:
  assumes "faults w = []" "wFile wr = FOpen p" "files w p = Some data"
  shows "append_records wr rs w = (map (\<lambda>_. None) rs, w\<lparr>files := (files w)(p \<mapsto> data @ log_of frame rs)\<rparr>)"
  using assms
proof (induction rs arbitrary: w data)
  case Nil
  then show ?case by (simp add: fun_upd_idem)
next
  case (Cons r rs)
  let ?w1 = "w\<lparr>files := (files w)(p \<mapsto> data @ frame r)\<rparr>"
  have "append_record wr r w = (None, ?w1)" by (rule append_record_ok [OF Cons.prems])
  with Cons.IH [of ?w1 "data @ frame r"] Cons.prems show ?case by (simp add: fun_upd_def cong: if_cong)
qed

text \<open>C40. A torn tail hides what comes after it. \<open>NewWriter\<close> opens the file for appending without
  cutting an incomplete record off, so records that are appended, synced and reported as durable
  after such a restart are not replayed. This holds for any number of records behind a tear in the
  magic number, and otherwise as long as the torn record and what follows it are shorter than what
  its header now announces: for a tear in the payload or the checksum until as many bytes follow as
  were lost, for a tear in the type or length field until the length that the decoder reads from
  the bytes there (192 at least).\<close>

theorem torn_tail_hides_later_records:
  assumes "list_all encodable rs" "encodable r" "0 < k" "k < length (frame r)" "faults w = []" "wFile wr = FOpen p"
    and "files w p = Some (log_of frame rs @ take k (frame r))"
    and "k < 4 \<or> k + length (log_of frame rs') < shadow r k"
  shows "\<exists>w'. append_records wr rs' w = (map (\<lambda>_. None) rs', w') \<and> replay_path p w' = (Inr (live_messages rs), w')"
proof -
  let ?d = "(log_of frame rs @ take k (frame r)) @ log_of frame rs'"
  let ?w = "w\<lparr>files := (files w)(p \<mapsto> ?d)\<rparr>"
  have "append_records wr rs' w = (map (\<lambda>_. None) rs', ?w)" using append_records_ok [OF assms(5,6,7)] .
  moreover have "wal_log rs ?d"
    using wal_log_tail [OF _ decode_after_torn [OF assms(2,3,4,8)], of rs] assms(1) by (simp add: list_all_iff)
  then have "replay_path p ?w = (Inr (live_messages rs), ?w)"
    using assms(5) by (intro replay_path_log) simp_all
  ultimately show ?thesis by blast
qed

theorem torn_tail_hides_later_records_witness:
  "\<exists>w'. append_records \<lparr>wFile = FOpen ''p'', wPath = ''p'', wWalDir = ''d'', wQueue = ''q''\<rparr>
     [message_record sample_message, tombstone_record ''00c0ffee'']
     \<lparr>files = [''p'' \<mapsto> log_of frame [] @ take 2 (frame (tombstone_record ''00c0ffee''))], faults = []\<rparr> = ([None, None], w') \<and>
   replay_path ''p'' w' = (Inr (live_messages []), w')"
  using torn_tail_hides_later_records [of "[]" "tombstone_record ''00c0ffee''" 2
      "\<lparr>files = [''p'' \<mapsto> log_of frame [] @ take 2 (frame (tombstone_record ''00c0ffee''))], faults = []\<rparr>"
      "\<lparr>wFile = FOpen ''p'', wPath = ''p'', wWalDir = ''d'', wQueue = ''q''\<rparr>" "''p''"
      "[message_record sample_message, tombstone_record ''00c0ffee'']"]
  by (simp add: length_frame)

section \<open>Appending\<close>

text \<open>C15. Append under every fault script: success means that the whole record is in the file;
  on failure the file is the old log with a prefix of the record, so replay still returns the old
  messages, or those of both.\<close>

theorem append_durable:
  assumes "list_all encodable rs" "encodable r" "wFile wr = FOpen p" "files w p = Some (log_of frame rs)"
    and "append_record wr r w = (err, w')"
  shows "(err = None \<longrightarrow> files w' p = Some (log_of frame (rs @ [r]))) \<and>
    (\<exists>data. files w' p = Some data \<and>
       (replay_data data = Ret (live_messages rs) \<or> replay_data data = Ret (live_messages (rs @ [r]))))"
proof
  have rs: "\<forall>r \<in> set rs. encodable r" using assms(1) by (simp add: list_all_iff)
  show "err = None \<longrightarrow> files w' p = Some (log_of frame (rs @ [r]))" using append_log(1) [OF assms(3,4) rs assms(2,5)] by blast
  show "\<exists>data. files w' p = Some data \<and>
       (replay_data data = Ret (live_messages rs) \<or> replay_data data = Ret (live_messages (rs @ [r])))"
    using append_log(2) [OF assms(3,4) rs assms(2,5)] replay_wal_log by blast
qed

theorem append_durable_witness:
  "\<exists>w'. append_record \<lparr>wFile = FOpen ''p'', wPath = ''p'', wWalDir = ''d'', wQueue = ''q''\<rparr>
      (message_record sample_message) \<lparr>files = [''p'' \<mapsto> []], faults = [IoOk, IoErr]\<rparr> = (Some ErrIO, w') \<and>
    (\<exists>data. files w' ''p'' = Some data \<and>
       (replay_data data = Ret (live_messages []) \<or> replay_data data = Ret (live_messages [message_record sample_message])))"
proof -
  let ?wr = "\<lparr>wFile = FOpen ''p'', wPath = ''p'', wWalDir = ''d'', wQueue = ''q''\<rparr>"
  let ?w = "\<lparr>files = [''p'' \<mapsto> []], faults = [IoOk, IoErr]\<rparr>"
  obtain w' where "append_record ?wr (message_record sample_message) ?w = (Some ErrIO, w')"
    by (simp add: append_record_def encode_frame f_Write_def f_Sync_def fault_now_def tick_def)
  with append_durable [of "[]" "message_record sample_message" ?wr "''p''" ?w "Some ErrIO" w'] show ?thesis by auto
qed

section \<open>Compaction\<close>

text \<open>C6. Compaction is invisible to replay under every script of I/O faults, at every point where
  it can fail: the queue's file replays to the same messages as before, and no file but it and
  its temporary file is touched.\<close>

theorem compact_preserves_replay:
  assumes "Compact wr w = ((err, wr'), w')" "wPath wr = wal_path (wWalDir wr) (wQueue wr)"
    and "files w (wPath wr) = Some data" "wal_log rs data"
  shows "(\<exists>data'. files w' (wPath wr) = Some data' \<and> replay_data data' = replay_data data) \<and>
    (\<forall>p. p \<noteq> wPath wr \<and> p \<noteq> tmp_path (wPath wr) \<longrightarrow> files w' p = files w p)"
proof -
  let ?l = "log_of frame (map message_record (live_messages rs))"
  have c: "compacted (wPath wr) (live_messages rs) w w'"
    using Compact_effect(1) [OF assms(1-3) replay_wal_log [OF assms(4)]] .
  have "replay_data ?l = Ret (live_messages rs)"
    using replay_wal_log [OF wal_logI [OF live_messages_encodable [OF assms(4)]]] by (simp add: live_messages_idem)
  with c assms(3) replay_wal_log [OF assms(4)] show ?thesis by (auto simp: compacted_def)
qed

theorem compact_preserves_replay_witness:
  "\<exists>err wr' w' data'. Compact \<lparr>wFile = FOpen (wal_path ''d'' ''q''), wPath = wal_path ''d'' ''q'', wWalDir = ''d'', wQueue = ''q''\<rparr>
      \<lparr>files = [wal_path ''d'' ''q'' \<mapsto> log_of frame [message_record sample_message]], faults = [IoOk, IoOk, IoOk, IoShort 3]\<rparr>
      = ((err, wr'), w') \<and>
    files w' (wal_path ''d'' ''q'') = Some data' \<and>
    replay_data data' = replay_data (log_of frame [message_record sample_message])"
proof -
  let ?wr = "\<lparr>wFile = FOpen (wal_path ''d'' ''q''), wPath = wal_path ''d'' ''q'', wWalDir = ''d'', wQueue = ''q''\<rparr>"
  let ?d = "log_of frame [message_record sample_message]"
  let ?w = "\<lparr>files = [wal_path ''d'' ''q'' \<mapsto> ?d], faults = [IoOk, IoOk, IoOk, IoShort 3]\<rparr>"
  obtain err wr' w' where c: "Compact ?wr ?w = ((err, wr'), w')" by (metis prod.exhaust)
  have "wal_log [message_record sample_message] ?d" by (rule wal_logI) simp
  with compact_preserves_replay [OF c, of ?d "[message_record sample_message]"] c show ?thesis by auto
qed

text \<open>C33. Without faults compaction succeeds and leaves exactly the live messages, one record each,
  with the writer open on the new file.\<close>

theorem compact_exact:
  assumes "faults w = []" "wFile wr = FOpen (wPath wr)" "wPath wr = wal_path (wWalDir wr) (wQueue wr)"
    and "files w (wPath wr) = Some data" "wal_log rs data"
  shows "\<exists>wr' w'. Compact wr w = ((None, wr'), w') \<and> wFile wr' = FOpen (wPath wr) \<and>
    files w' (wPath wr) = Some (log_of frame (map message_record (live_messages rs)))"
proof -
  obtain err wr' w' where c: "Compact wr w = ((err, wr'), w')" by (metis prod.exhaust)
  then have "err = None" using Compact_ok [OF assms] by simp
  with Compact_effect(2) [OF c assms(3,4) replay_wal_log [OF assms(5)]] c show ?thesis by blast
qed

theorem compact_exact_witness:
  "\<exists>wr' w'. Compact \<lparr>wFile = FOpen (wal_path ''d'' ''q''), wPath = wal_path ''d'' ''q'', wWalDir = ''d'', wQueue = ''q''\<rparr>
      \<lparr>files = [wal_path ''d'' ''q'' \<mapsto> log_of frame [message_record sample_message, tombstone_record ''00c0ffee'']], faults = []\<rparr>
      = ((None, wr'), w') \<and>
    files w' (wal_path ''d'' ''q'') = Some []"
proof -
  let ?wr = "\<lparr>wFile = FOpen (wal_path ''d'' ''q''), wPath = wal_path ''d'' ''q'', wWalDir = ''d'', wQueue = ''q''\<rparr>"
  let ?rs = "[message_record sample_message, tombstone_record ''00c0ffee'']"
  let ?w = "\<lparr>files = [wal_path ''d'' ''q'' \<mapsto> log_of frame ?rs], faults = []\<rparr>"
  have "wal_log ?rs (log_of frame ?rs)" by (rule wal_logI) simp
  then show ?thesis using compact_exact [of ?w ?wr "log_of frame ?rs" ?rs] by (auto simp del: log_of_simps(2))
qed

end
