(* ===== verification/Topic.thy ===== *)
theory Topic
  imports Core
begin

text \<open>
  \<open>internal/queue/topic.go\<close>: the in-memory FIFO of one queue. Every method runs under the
  topic's mutex. A \<open>Dequeue\<close> that finds the topic open and empty waits on the condition
  variable; its result \<open>None\<close> says that it waits and has changed nothing.
\<close>

record Topic =
  tMsgs :: "Message list"
  tClosed :: bool

definition NewTopic :: Topic where
  "NewTopic = \<lparr>tMsgs = [], tClosed = False\<rparr>"

definition Topic_Enqueue :: "Message \<Rightarrow> Topic \<Rightarrow> Topic" where
  "Topic_Enqueue msg t = t\<lparr>tMsgs := tMsgs t @ [msg]\<rparr>"

definition Topic_Dequeue :: "Topic \<Rightarrow> (Message \<times> bool) option \<times> Topic" where
  "Topic_Dequeue t =
     (if tMsgs t = [] \<and> \<not> tClosed t then (None, t)
      else case tMsgs t of
        [] \<Rightarrow> (Some (zero_Message, False), t)
      | msg # rest \<Rightarrow> (Some (msg, True), t\<lparr>tMsgs := rest\<rparr>))"

text \<open>The loop of \<open>RemoveIf\<close>, over the messages with \<open>removed\<close> and \<open>kept\<close> so far. \<open>kept\<close>
  shares the backing array of \<open>t.msgs\<close> in the source; it never overtakes the element being
  read, so the aliasing is not observable.\<close>

fun remove_loop :: "(Message \<Rightarrow> bool) \<Rightarrow> Message list \<Rightarrow> Message list \<Rightarrow> Message list
    \<Rightarrow> Message list \<times> Message list" where
  "remove_loop pred [] removed kept = (removed, kept)"
| "remove_loop pred (msg # msgs) removed kept =
     (if pred msg then remove_loop pred msgs (removed @ [msg]) kept
      else remove_loop pred msgs removed (kept @ [msg]))"

definition RemoveIf :: "(Message \<Rightarrow> bool) \<Rightarrow> Topic \<Rightarrow> Message list \<times> Topic" where
  "RemoveIf pred t =
     (case remove_loop pred (tMsgs t) [] [] of (removed, kept) \<Rightarrow> (removed, t\<lparr>tMsgs := kept\<rparr>))"

definition Topic_Len :: "Topic \<Rightarrow> nat" where
  "Topic_Len t = length (tMsgs t)"

definition Topic_Close :: "Topic \<Rightarrow> Topic" where
  "Topic_Close t = t\<lparr>tClosed := True\<rparr>"

subsection \<open>The queue interface\<close>

text \<open>What the queue manager relies on: a queue whose abstract content is a list, extended at
  the back and consumed at the front.\<close>

fun deq_n :: "('q \<Rightarrow> ('m \<times> bool) option \<times> 'q) \<Rightarrow> nat \<Rightarrow> 'q \<Rightarrow> 'm list \<times> 'q" where
  "deq_n deq 0 q = ([], q)"
| "deq_n deq (Suc n) q =
     (case deq q of
        (Some (m, True), q') \<Rightarrow> (case deq_n deq n q' of (ms, q'') \<Rightarrow> (m # ms, q''))
      | (_, q') \<Rightarrow> ([], q'))"

text \<open>Any sequence of operations, with the messages the successful dequeues returned, against the
  same sequence on a list.\<close>

datatype 'm queue_op = Enq 'm | Deq

fun run_ops :: "('m \<Rightarrow> 'q \<Rightarrow> 'q) \<Rightarrow> ('q \<Rightarrow> ('m \<times> bool) option \<times> 'q) \<Rightarrow> 'm queue_op list \<Rightarrow> 'q \<Rightarrow> 'm list \<times> 'q" where
  "run_ops enq deq [] q = ([], q)"
| "run_ops enq deq (Enq m # ops) q = run_ops enq deq ops (enq m q)"
| "run_ops enq deq (Deq # ops) q =
     (case deq q of
        (res, q') \<Rightarrow> (case run_ops enq deq ops q' of (ms, q'') \<Rightarrow>
          (case res of Some (m, True) \<Rightarrow> m # ms | _ \<Rightarrow> ms, q'')))"

fun spec_ops :: "'m queue_op list \<Rightarrow> 'm list \<Rightarrow> 'm list \<times> 'm list" where
  "spec_ops [] xs = ([], xs)"
| "spec_ops (Enq m # ops) xs = spec_ops ops (xs @ [m])"
| "spec_ops (Deq # ops) [] = spec_ops ops []"
| "spec_ops (Deq # ops) (x # xs) = (case spec_ops ops xs of (ms, ys) \<Rightarrow> (x # ms, ys))"

locale fifo =
  fixes enq :: "'m \<Rightarrow> 'q \<Rightarrow> 'q"
    and deq :: "'q \<Rightarrow> ('m \<times> bool) option \<times> 'q"
    and items :: "'q \<Rightarrow> 'm list"
  assumes items_enq: "items (enq m q) = items q @ [m]"
    and deq_front: "items q = m # ms \<Longrightarrow> fst (deq q) = Some (m, True) \<and> items (snd (deq q)) = ms"
    and deq_empty: "items q = [] \<Longrightarrow> (\<forall>m. fst (deq q) \<noteq> Some (m, True)) \<and> items (snd (deq q)) = []"
begin

lemma items_fold_enq: "items (fold enq ms q) = items q @ ms"
  by (induction ms arbitrary: q) (simp_all add: items_enq)

text \<open>Messages leave in the order in which they entered.\<close>

lemma deq_n_items:
  "n \<le> length (items q) \<Longrightarrow>
     fst (deq_n deq n q) = take n (items q) \<and> items (snd (deq_n deq n q)) = drop n (items q)"
proof (induction n arbitrary: q)
  case (Suc n)
  then obtain m ms where q: "items q = m # ms" by (cases "items q") auto
  obtain q' where d: "deq q = (Some (m, True), q')" "items q' = ms"
    using deq_front [OF q] by (metis prod.collapse)
  with Suc q have "fst (deq_n deq n q') = take n ms \<and> items (snd (deq_n deq n q')) = drop n ms"
    by simp
  with d q show ?case by (simp add: case_prod_beta)
qed simp

lemma fifo_order:
  assumes "items q = []"
  shows "fst (deq_n deq (length ms) (fold enq ms q)) = ms"
  using deq_n_items [of "length ms" "fold enq ms q"] assms by (simp add: items_fold_enq)

lemma run_ops_spec:
  "fst (run_ops enq deq ops q) = fst (spec_ops ops (items q)) \<and>
   items (snd (run_ops enq deq ops q)) = snd (spec_ops ops (items q))"
proof (induction ops arbitrary: q)
  case (Cons op ops)
  show ?case
  proof (cases op)
    case (Enq m)
    with Cons.IH [of "enq m q"] show ?thesis by (simp add: items_enq)
  next
    case Deq
    obtain res q' where d: "deq q = (res, q')" by (metis prod.exhaust)
    show ?thesis
    proof (cases "items q")
      case Nil
      then have "\<forall>m. res \<noteq> Some (m, True)" "items q' = []" using deq_empty [of q] d by auto
      with Cons.IH [of q'] Deq Nil d show ?thesis by (auto split: prod.splits option.splits bool.splits)
    next
      case (Cons m ms)
      then have "res = Some (m, True)" "items q' = ms" using deq_front [OF Cons] d by auto
      with Cons.IH [of q'] Deq Cons d show ?thesis by (auto split: prod.splits)
    qed
  qed
qed simp

end

interpretation topicq: fifo Topic_Enqueue Topic_Dequeue tMsgs
  by unfold_locales (simp_all add: Topic_Enqueue_def Topic_Dequeue_def)

subsection \<open>Facts\<close>

lemma Topic_simps [simp]:
  "tMsgs NewTopic = []" "tClosed NewTopic = False"
  "tMsgs (Topic_Enqueue m t) = tMsgs t @ [m]" "tClosed (Topic_Enqueue m t) = tClosed t"
  "tMsgs (Topic_Close t) = tMsgs t" "tClosed (Topic_Close t) = True"
  by (simp_all add: NewTopic_def Topic_Enqueue_def Topic_Close_def)

lemma Dequeue_blocks_iff: "fst (Topic_Dequeue t) = None \<longleftrightarrow> tMsgs t = [] \<and> \<not> tClosed t"
  by (simp add: Topic_Dequeue_def split: list.splits)

lemma Dequeue_closed: "fst (Topic_Dequeue t) = Some (m, False) \<Longrightarrow> tMsgs t = [] \<and> tClosed t"
  by (auto simp: Topic_Dequeue_def split: list.splits if_splits)

lemma Dequeue_cases:
  obtains (blocks) "tMsgs t = []" "\<not> tClosed t" "Topic_Dequeue t = (None, t)"
    | (closed) "tMsgs t = []" "tClosed t" "Topic_Dequeue t = (Some (zero_Message, False), t)"
    | (got) m ms where "tMsgs t = m # ms" "Topic_Dequeue t = (Some (m, True), t\<lparr>tMsgs := ms\<rparr>)"
  by (cases "tMsgs t"; cases "tClosed t") (auto simp: Topic_Dequeue_def)

lemma Topic_Dequeue_tClosed [simp]: "tClosed (snd (Topic_Dequeue t)) = tClosed t"
  by (cases t rule: Dequeue_cases) simp_all

lemma deq_n_tClosed: "tClosed (snd (deq_n Topic_Dequeue n t)) = tClosed t"
proof (induction n arbitrary: t)
  case (Suc n)
  show ?case
  proof (cases t rule: Dequeue_cases)
    case (got m ms)
    with Suc.IH [of "t\<lparr>tMsgs := ms\<rparr>"] show ?thesis by (simp add: case_prod_beta)
  qed simp_all
qed simp

lemma remove_loop_filter:
  "remove_loop pred msgs removed kept =
     (removed @ filter pred msgs, kept @ filter (\<lambda>m. \<not> pred m) msgs)"
  by (induction msgs arbitrary: removed kept) simp_all

lemma RemoveIf_filter:
  "RemoveIf pred t = (filter pred (tMsgs t), t\<lparr>tMsgs := filter (\<lambda>m. \<not> pred m) (tMsgs t)\<rparr>)"
  by (simp add: RemoveIf_def remove_loop_filter)

end
