(* ===== verification/Manager.thy ===== *)
theory Manager
  imports RecordSize Topic
begin

text \<open>
  \<open>internal/queue/queue.go\<close>: the queue manager, one topic and one WAL writer per queue name.
  The methods are functions on the manager and the world. Topics and writers are pointers in
  the source; the map entry of a name is created once by \<open>initQueue\<close> and never replaced, so
  the entries themselves are the objects. A method that ranges over a Go map takes the order
  of the visit as an argument, and one that reads the clock takes the reading.
\<close>

record Manager =
  mWalDir :: string
  mTopics :: "string \<rightharpoonup> Topic"
  mWriters :: "string \<rightharpoonup> Writer"
  mClosing :: bool

definition initQueue :: "string \<Rightarrow> Manager \<Rightarrow> world \<Rightarrow> error option \<times> Manager \<times> world" where
  "initQueue queue m w =
     (if mTopics m queue \<noteq> None then (None, m, w)
      else case Replay (NewReader (mWalDir m) queue) w of
        (Inl err, w1) \<Rightarrow> (Some err, m, w1)
      | (Inr msgs, w1) \<Rightarrow>
          (case NewWriter (mWalDir m) queue w1 of
             (Inl err, w2) \<Rightarrow> (Some err, m, w2)
           | (Inr wr, w2) \<Rightarrow>
               (None, m\<lparr>mTopics := (mTopics m)(queue \<mapsto> fold Topic_Enqueue msgs NewTopic),
                        mWriters := (mWriters m)(queue \<mapsto> wr)\<rparr>, w2)))"

text \<open>\<open>NewManager\<close>: \<open>entries\<close> is what \<open>os.ReadDir\<close> returns, names with their \<open>IsDir\<close>.\<close>

fun init_entries :: "(string \<times> bool) list \<Rightarrow> Manager \<Rightarrow> world \<Rightarrow> error option \<times> Manager \<times> world" where
  "init_entries [] m w = (None, m, w)"
| "init_entries ((name, isDir) # es) m w =
     (if isDir \<or> \<not> HasSuffix name ''.wal'' then init_entries es m w
      else
        (let queue = TrimSuffix name ''.wal'' in
         case initQueue queue m w of
           (Some err, m', w') \<Rightarrow> (Some (ErrWrap (''replay '' @ queue) (Some err)), m', w')
         | (None, m', w') \<Rightarrow> init_entries es m' w'))"

definition empty_Manager :: "string \<Rightarrow> Manager" where
  "empty_Manager walDir =
     \<lparr>mWalDir = walDir, mTopics = Map.empty, mWriters = Map.empty, mClosing = False\<rparr>"

definition NewManager :: "string \<Rightarrow> (string \<times> bool) list \<Rightarrow> world \<Rightarrow> (error + Manager) \<times> world" where
  "NewManager walDir entries w =
     (if fault_now w = IoErr then (Inl ErrIO, tick w)
      else let w1 = tick w in
        if fault_now w1 = IoErr then (Inl ErrIO, tick w1)
        else case init_entries entries (empty_Manager walDir) (tick w1) of
          (Some err, m, w2) \<Rightarrow> (Inl err, w2)
        | (None, m, w2) \<Rightarrow> (Inr m, w2))"

definition Manager_Enqueue :: "Message \<Rightarrow> Manager \<Rightarrow> world \<Rightarrow> error option \<times> Manager \<times> world" where
  "Manager_Enqueue msg m w =
     (if mClosing m then (Some ErrShuttingDown, m, w)
      else case initQueue (Queue msg) m w of
        (Some err, m1, w1) \<Rightarrow> (Some err, m1, w1)
      | (None, m1, w1) \<Rightarrow>
          (case (mWriters m1 (Queue msg), mTopics m1 (Queue msg)) of
             (Some wr, Some t) \<Rightarrow>
               (case WriteMessage wr msg w1 of
                  (Some err, w2) \<Rightarrow> (Some err, m1, w2)
                | (None, w2) \<Rightarrow>
                    (None, m1\<lparr>mTopics := (mTopics m1)(Queue msg \<mapsto> Topic_Enqueue msg t)\<rparr>, w2))
           | _ \<Rightarrow> (Some ErrPanic, m1, w1)))"

text \<open>The two parts of \<open>Enqueue\<close> that follow the manager's critical section, each under a lock of its
  own: the write to the log and, when it succeeded, the push to the topic. The writer and the
  topic are the objects that the critical section looked up.\<close>

definition Enqueue_write :: "Message \<Rightarrow> Manager \<Rightarrow> world \<Rightarrow> error option \<times> world" where
  "Enqueue_write msg m w =
     (case mWriters m (Queue msg) of
        None \<Rightarrow> (Some ErrPanic, w)
      | Some wr \<Rightarrow> WriteMessage wr msg w)"

definition Enqueue_push :: "Message \<Rightarrow> Manager \<Rightarrow> Manager" where
  "Enqueue_push msg m =
     (case mTopics m (Queue msg) of
        None \<Rightarrow> m
      | Some t \<Rightarrow> m\<lparr>mTopics := (mTopics m)(Queue msg \<mapsto> Topic_Enqueue msg t)\<rparr>)"

definition Manager_Dequeue :: "string \<Rightarrow> Manager \<Rightarrow> world
    \<Rightarrow> (Message \<times> bool) option \<times> Manager \<times> world" where
  "Manager_Dequeue queue m w =
     (case initQueue queue m w of
        (Some err, m1, w1) \<Rightarrow> (Some (zero_Message, False), m1, w1)
      | (None, m1, w1) \<Rightarrow>
          (case mTopics m1 queue of
             Some t \<Rightarrow>
               (case Topic_Dequeue t of
                  (res, t') \<Rightarrow> (res, m1\<lparr>mTopics := (mTopics m1)(queue \<mapsto> t')\<rparr>, w1))
           | None \<Rightarrow> (Some (zero_Message, False), m1, w1)))"

definition Manager_WriteTombstone :: "MessageID \<Rightarrow> string \<Rightarrow> Manager \<Rightarrow> world \<Rightarrow> error option \<times> world" where
  "Manager_WriteTombstone mid queue m w =
     (case mWriters m queue of
        None \<Rightarrow> (Some (ErrQueueNotFound queue), w)
      | Some wr \<Rightarrow> WriteTombstone wr mid w)"

text \<open>\<open>expireDLQQueue\<close> up to the tombstones: what \<open>RemoveIf\<close> takes off the topic.\<close>

definition expire_remove :: "string \<Rightarrow> time \<Rightarrow> Manager \<Rightarrow> world \<Rightarrow> Message list \<times> Manager \<times> world" where
  "expire_remove queue cutoff m w =
     (case initQueue queue m w of
        (Some err, m1, w1) \<Rightarrow> ([], m1, w1)
      | (None, m1, w1) \<Rightarrow>
          (case mTopics m1 queue of
             Some t \<Rightarrow>
               (case RemoveIf (\<lambda>msg. time_Before (EnqueueTime msg) cutoff) t of
                  (removed, t') \<Rightarrow> (removed, m1\<lparr>mTopics := (mTopics m1)(queue \<mapsto> t')\<rparr>, w1))
           | None \<Rightarrow> ([], m1, w1)))"

text \<open>The tombstone loop of \<open>expireDLQQueue\<close>.\<close>

fun tombstone_all :: "Writer \<Rightarrow> Message list \<Rightarrow> error option \<Rightarrow> world \<Rightarrow> error option \<times> world" where
  "tombstone_all wr [] firstErr w = (firstErr, w)"
| "tombstone_all wr (msg # msgs) firstErr w =
     (case WriteTombstone wr (ID msg) w of
        (err, w') \<Rightarrow> tombstone_all wr msgs (first_err firstErr err) w')"

definition expireDLQQueue :: "string \<Rightarrow> time \<Rightarrow> Manager \<Rightarrow> world
    \<Rightarrow> (nat \<times> error option) \<times> Manager \<times> world" where
  "expireDLQQueue queue cutoff m w =
     (case initQueue queue m w of
        (Some err, m1, w1) \<Rightarrow> ((0, Some err), m1, w1)
      | (None, m1, w1) \<Rightarrow>
          (case (mTopics m1 queue, mWriters m1 queue) of
             (Some t, Some wr) \<Rightarrow>
               (case RemoveIf (\<lambda>msg. time_Before (EnqueueTime msg) cutoff) t of
                  (removed, t') \<Rightarrow>
                    (let m2 = m1\<lparr>mTopics := (mTopics m1)(queue \<mapsto> t')\<rparr> in
                     if removed = [] then ((0, None), m2, w1)
                     else case tombstone_all wr removed None w1 of
                       (firstErr, w2) \<Rightarrow> ((length removed, firstErr), m2, w2)))
           | _ \<Rightarrow> ((0, Some ErrPanic), m1, w1)))"

fun expire_queues :: "string list \<Rightarrow> time \<Rightarrow> nat \<Rightarrow> error option \<Rightarrow> Manager \<Rightarrow> world
    \<Rightarrow> (nat \<times> error option) \<times> Manager \<times> world" where
  "expire_queues [] cutoff acc firstErr m w = ((acc, firstErr), m, w)"
| "expire_queues (q # qs) cutoff acc firstErr m w =
     (case expireDLQQueue q cutoff m w of
        ((n, err), m', w') \<Rightarrow>
          if err = Some ErrPanic then ((acc, err), m', w')
          else expire_queues qs cutoff (acc + n) (first_err firstErr err) m' w')"

text \<open>\<open>order\<close> is the order in which \<open>range m.writers\<close> visits the queues.\<close>

definition ExpireDLQOlderThan :: "duration \<Rightarrow> time \<Rightarrow> string list \<Rightarrow> Manager \<Rightarrow> world
    \<Rightarrow> (nat \<times> error option) \<times> Manager \<times> world" where
  "ExpireDLQOlderThan retention now order m w =
     (if sint retention \<le> 0 then ((0, None), m, w)
      else
        (let cutoff = time_Add now (- retention);
             dlqQueues = filter IsDLQQueue order
         in expire_queues dlqQueues cutoff 0 None m w))"

definition Manager_Compact :: "string \<Rightarrow> Manager \<Rightarrow> world \<Rightarrow> error option \<times> Manager \<times> world" where
  "Manager_Compact queue m w =
     (case mWriters m queue of
        None \<Rightarrow> (None, m, w)
      | Some wr \<Rightarrow>
          (case Compact wr w of
             ((err, wr'), w') \<Rightarrow> (err, m\<lparr>mWriters := (mWriters m)(queue \<mapsto> wr')\<rparr>, w')))"

fun compact_queues :: "string list \<Rightarrow> error option \<Rightarrow> Manager \<Rightarrow> world \<Rightarrow> error option \<times> Manager \<times> world" where
  "compact_queues [] firstErr m w = (firstErr, m, w)"
| "compact_queues (q # qs) firstErr m w =
     (case Manager_Compact q m w of
        (err, m', w') \<Rightarrow>
          if err = Some ErrPanic then (err, m', w')
          else compact_queues qs (first_err firstErr err) m' w')"

definition CompactAll :: "string list \<Rightarrow> Manager \<Rightarrow> world \<Rightarrow> error option \<times> Manager \<times> world" where
  "CompactAll order m w = compact_queues order None m w"

definition BeginShutdown :: "Manager \<Rightarrow> Manager" where
  "BeginShutdown m = m\<lparr>mClosing := True\<rparr>"

fun close_writers :: "string list \<Rightarrow> error option \<Rightarrow> Manager \<Rightarrow> world \<Rightarrow> error option \<times> Manager \<times> world" where
  "close_writers [] firstErr m w = (firstErr, m, w)"
| "close_writers (q # qs) firstErr m w =
     (case mWriters m q of
        None \<Rightarrow> close_writers qs firstErr m w
      | Some wr \<Rightarrow>
          (case Writer_Close wr w of
             ((err, wr'), w') \<Rightarrow>
               close_writers qs (first_err firstErr err)
                 (m\<lparr>mWriters := (mWriters m)(q \<mapsto> wr')\<rparr>) w'))"

text \<open>Closing a topic is the same for every topic, so the order of the first loop does not
  matter; \<open>order\<close> is that of the loop over the writers.\<close>

definition Manager_Close :: "string list \<Rightarrow> Manager \<Rightarrow> world \<Rightarrow> error option \<times> Manager \<times> world" where
  "Manager_Close order m w =
     close_writers order None
       (m\<lparr>mTopics := (\<lambda>q. map_option Topic_Close (mTopics m q))\<rparr>) w"

subsection \<open>Initialising a queue\<close>

abbreviation qpath :: "Manager \<Rightarrow> string \<Rightarrow> string" where
  "qpath m q \<equiv> wal_path (mWalDir m) q"

text \<open>The writer \<open>initQueue\<close> installs, open on the queue's file.\<close>

definition open_writer :: "string \<Rightarrow> string \<Rightarrow> Writer" where
  "open_writer dir q = \<lparr>wFile = FOpen (wal_path dir q), wPath = wal_path dir q, wWalDir = dir, wQueue = q\<rparr>"

lemma open_writer_simps [simp]:
  "wFile (open_writer dir q) = FOpen (wal_path dir q)" "wPath (open_writer dir q) = wal_path dir q"
  "wWalDir (open_writer dir q) = dir" "wQueue (open_writer dir q) = q"
  by (simp_all add: open_writer_def)

lemma initQueue_known [simp]: "mTopics m q = Some t \<Longrightarrow> initQueue q m w = (None, m, w)"
  by (simp add: initQueue_def)

text \<open>A failing \<open>initQueue\<close> leaves the manager as it was, and never creates a queue.\<close>

lemma initQueue_error:
  "initQueue q m w = (Some err, m', w') \<Longrightarrow> m' = m"
  by (auto simp: initQueue_def split: if_splits prod.splits sum.splits)

lemma NewWriter_ok:
  assumes "faults w = []"
  shows "NewWriter dir q w =
    (Inr (open_writer dir q),
     case files w (wal_path dir q) of
       None \<Rightarrow> w\<lparr>files := (files w)(wal_path dir q \<mapsto> [])\<rparr> | Some _ \<Rightarrow> w)"
  using assms by (simp add: NewWriter_def OpenFile_def open_writer_def Let_def split: option.splits)

text \<open>Replaying an existing log fills the topic with its live messages, in order.\<close>

lemma initQueue_replay:
  assumes "faults w = []" "mTopics m q = None" "files w (qpath m q) = Some data" "wal_log rs data"
  shows "initQueue q m w =
    (None, m\<lparr>mTopics := (mTopics m)(q \<mapsto> fold Topic_Enqueue (live_messages rs) NewTopic),
             mWriters := (mWriters m)(q \<mapsto> open_writer (mWalDir m) q)\<rparr>, w)"
  using assms replay_path_log [OF assms(1,3,4)]
  by (simp add: initQueue_def Replay_def NewReader_def NewWriter_ok)

lemma initQueue_new:
  assumes "faults w = []" "mTopics m q = None" "files w (qpath m q) = None"
  shows "initQueue q m w =
    (None, m\<lparr>mTopics := (mTopics m)(q \<mapsto> NewTopic),
             mWriters := (mWriters m)(q \<mapsto> open_writer (mWalDir m) q)\<rparr>,
     w\<lparr>files := (files w)(qpath m q \<mapsto> [])\<rparr>)"
  using assms
  by (simp add: initQueue_def Replay_def NewReader_def NewWriter_ok replay_path_def ReadFile_def)

subsection \<open>A queue and its log\<close>

text \<open>Queue \<open>q\<close> of the manager is backed by a log of exactly the records \<open>rs\<close>.\<close>

definition queue_open :: "string \<Rightarrow> wal_record list \<Rightarrow> Manager \<Rightarrow> world \<Rightarrow> bool" where
  "queue_open q rs m w \<longleftrightarrow>
     mWriters m q = Some (open_writer (mWalDir m) q) \<and> mTopics m q \<noteq> None \<and>
     files w (qpath m q) = Some (log_of frame rs) \<and> (\<forall>r \<in> set rs. encodable r)"

lemma queue_openD:
  assumes "queue_open q rs m w"
  shows "mWriters m q = Some (open_writer (mWalDir m) q)" "mTopics m q \<noteq> None"
    "files w (qpath m q) = Some (log_of frame rs)" "\<forall>r \<in> set rs. encodable r"
    "wal_log rs (log_of frame rs)"
  using assms wal_logI by (auto simp: queue_open_def)

text \<open>\<open>Enqueue\<close> on a known queue is the append followed by the in-memory enqueue.\<close>

lemma Enqueue_known:
  assumes "queue_open (Queue msg) rs m w" "mTopics m (Queue msg) = Some t" "\<not> mClosing m"
  shows "Manager_Enqueue msg m w =
    (case append_record (open_writer (mWalDir m) (Queue msg)) (message_record msg) w of
       (Some err, w2) \<Rightarrow> (Some err, m, w2)
     | (None, w2) \<Rightarrow> (None, m\<lparr>mTopics := (mTopics m)(Queue msg \<mapsto> Topic_Enqueue msg t)\<rparr>, w2))"
  using assms queue_openD(1) [OF assms(1)] by (simp add: Manager_Enqueue_def WriteMessage_def)

text \<open>Success: the record is in the log and the message at the back of the topic.\<close>

lemma Enqueue_success:
  assumes q: "queue_open (Queue msg) rs m w" and t: "mTopics m (Queue msg) = Some t"
    and ok: "message_ok msg" and run: "Manager_Enqueue msg m w = (None, m', w')"
  shows "queue_open (Queue msg) (rs @ [message_record msg]) m' w'"
    and "m' = m\<lparr>mTopics := (mTopics m)(Queue msg \<mapsto> Topic_Enqueue msg t)\<rparr>"
proof -
  have "\<not> mClosing m" using run by (auto simp: Manager_Enqueue_def)
  note known = Enqueue_known [OF q t this]
  obtain e w2 where e: "append_record (open_writer (mWalDir m) (Queue msg)) (message_record msg) w = (e, w2)"
    by (metis prod.exhaust)
  have a: "append_record (open_writer (mWalDir m) (Queue msg)) (message_record msg) w = (None, w')"
    and m': "m' = m\<lparr>mTopics := (mTopics m)(Queue msg \<mapsto> Topic_Enqueue msg t)\<rparr>"
    using known run e by (cases e; simp)+
  show "m' = m\<lparr>mTopics := (mTopics m)(Queue msg \<mapsto> Topic_Enqueue msg t)\<rparr>" by (rule m')
  have "files w' (qpath m (Queue msg)) = Some (log_of frame (rs @ [message_record msg]))"
    using append_log(1) [OF _ queue_openD(3,4) [OF q] _ a] ok by (simp add: message_ok_def)
  with q ok m' show "queue_open (Queue msg) (rs @ [message_record msg]) m' w'"
    by (auto simp: queue_open_def message_ok_def)
qed

text \<open>Failure: nothing is in memory that is not in the log.\<close>

lemma Enqueue_failure:
  assumes q: "queue_open (Queue msg) rs m w" and ok: "message_ok msg"
    and run: "Manager_Enqueue msg m w = (Some err, m', w')"
  shows "m' = m" and "\<exists>data. files w' (qpath m (Queue msg)) = Some data \<and>
     (wal_log rs data \<or> wal_log (rs @ [message_record msg]) data)"
proof -
  obtain t where t: "mTopics m (Queue msg) = Some t" using queue_openD(2) [OF q] by auto
  consider "mClosing m" "m' = m" "w' = w"
    | "append_record (open_writer (mWalDir m) (Queue msg)) (message_record msg) w = (Some err, w')" "m' = m"
  proof (cases "mClosing m")
    case True
    with run show ?thesis by (intro that(1)) (simp_all add: Manager_Enqueue_def)
  next
    case False
    obtain e w2 where e: "append_record (open_writer (mWalDir m) (Queue msg)) (message_record msg) w = (e, w2)"
      by (metis prod.exhaust)
    with run Enqueue_known [OF q t False] show ?thesis by (cases e) (auto intro: that(2))
  qed
  then show "m' = m" and "\<exists>data. files w' (qpath m (Queue msg)) = Some data \<and>
     (wal_log rs data \<or> wal_log (rs @ [message_record msg]) data)"
    using queue_openD [OF q] append_log(2) [OF _ queue_openD(3,4) [OF q], of "open_writer (mWalDir m) (Queue msg)"
        "message_record msg" "Some err" w'] ok
    by (cases; auto simp: message_ok_def)+
qed

lemma Tombstone_success:
  assumes q: "queue_open q rs m w" and ok: "tombstone_ok i"
    and run: "Manager_WriteTombstone i q m w = (None, w')"
  shows "queue_open q (rs @ [tombstone_record i]) m w'"
  using assms queue_openD(1) [OF q] append_log(1) [OF _ queue_openD(3,4) [OF q], of "open_writer (mWalDir m) q"
      "tombstone_record i" None w']
  by (auto simp: queue_open_def Manager_WriteTombstone_def WriteTombstone_def tombstone_ok_def)

text \<open>A restart on the same files restores the live messages of the log.\<close>

lemma restart_queue:
  assumes q: "queue_open q rs m w" and w': "files w' = files w" "faults w' = []"
    and fresh: "mWalDir m0 = mWalDir m" "mTopics m0 q = None"
  shows "\<exists>m1. initQueue q m0 w' = (None, m1, w') \<and> queue_open q rs m1 w' \<and>
     map_option tMsgs (mTopics m1 q) = Some (live_messages rs)"
proof -
  note i = initQueue_replay [OF w'(2) fresh(2), of "log_of frame rs" rs]
  have "files w' (qpath m0 q) = Some (log_of frame rs)" using queue_openD(3) [OF q] w' fresh by simp
  with i queue_openD [OF q] fresh show ?thesis
    by (auto simp: queue_open_def topicq.items_fold_enq)
qed

subsection \<open>Expiring dead letters\<close>

lemma append_record_frame:
  assumes "append_record (open_writer dir q) r w = (err, w')" "p \<noteq> wal_path dir q"
  shows "files w' p = files w p"
proof -
  obtain n e w1 where w1: "f_Write (FOpen (wal_path dir q)) (frame r) w = ((n, e), w1)"
    by (metis prod.exhaust)
  have "files w1 p = files w p" using f_Write_frame [OF assms(2)] w1 by (metis snd_conv)
  moreover have "files w' = files w1"
    using assms(1) w1
    by (auto simp: append_record_def encode_frame f_Sync_filesD split: option.splits if_splits)
  ultimately show ?thesis by simp
qed

lemma tombstone_all_frame:
  "tombstone_all (open_writer dir q) msgs fe w = (err, w') \<Longrightarrow> p \<noteq> wal_path dir q \<Longrightarrow> files w' p = files w p"
proof (induction msgs arbitrary: fe w)
  case (Cons m msgs)
  obtain e w1 where w1: "WriteTombstone (open_writer dir q) (ID m) w = (e, w1)" by (metis prod.exhaust)
  with Cons.prems have "tombstone_all (open_writer dir q) msgs (first_err fe e) w1 = (err, w')" by simp
  with Cons.IH Cons.prems(2) w1 append_record_frame show ?case by (metis WriteTombstone_def)
qed simp

lemma tombstone_all_ok:
  assumes "faults w = []" "files w (wal_path dir q) = Some (log_of frame rs)"
  shows "tombstone_all (open_writer dir q) msgs None w =
    (None, w\<lparr>files := (files w)(wal_path dir q \<mapsto> log_of frame (rs @ map (tombstone_record \<circ> ID) msgs))\<rparr>)"
  using assms
proof (induction msgs arbitrary: w rs)
  case Nil
  then have "(files w)(wal_path dir q \<mapsto> log_of frame rs) = files w" by auto
  then show ?case by simp
next
  case (Cons m msgs)
  let ?p = "wal_path dir q"
  let ?w1 = "w\<lparr>files := (files w)(?p \<mapsto> log_of frame (rs @ [tombstone_record (ID m)]))\<rparr>"
  have "WriteTombstone (open_writer dir q) (ID m) w = (None, ?w1)"
    using append_record_ok [OF Cons.prems(1) _ Cons.prems(2), of "open_writer dir q" "tombstone_record (ID m)"]
    by (simp add: WriteTombstone_def)
  moreover have "tombstone_all (open_writer dir q) msgs None ?w1 =
      (None, ?w1\<lparr>files := (files ?w1)(?p \<mapsto> log_of frame ((rs @ [tombstone_record (ID m)]) @ map (tombstone_record \<circ> ID) msgs))\<rparr>)"
    using Cons.prems by (intro Cons.IH) simp_all
  ultimately show ?case by (simp add: fun_upd_def o_def cong: if_cong)
qed

text \<open>The manager knows a queue by its topic and its open writer.\<close>

definition known :: "Manager \<Rightarrow> string \<Rightarrow> bool" where
  "known m q \<longleftrightarrow> mTopics m q \<noteq> None \<and> mWriters m q = Some (open_writer (mWalDir m) q)"

definition mgr_inv :: "Manager \<Rightarrow> bool" where
  "mgr_inv m \<longleftrightarrow> (\<forall>q. mTopics m q \<noteq> None \<or> mWriters m q \<noteq> None \<longrightarrow> known m q)"

definition expired :: "time \<Rightarrow> Message \<Rightarrow> bool" where
  "expired cutoff msg \<longleftrightarrow> time_Before (EnqueueTime msg) cutoff"

definition expire_topic :: "time \<Rightarrow> Topic \<Rightarrow> Topic" where
  "expire_topic cutoff t = t\<lparr>tMsgs := filter (\<lambda>msg. \<not> expired cutoff msg) (tMsgs t)\<rparr>"

lemma expireDLQQueue_known:
  assumes "known m q" "mTopics m q = Some t"
  shows "expireDLQQueue q cutoff m w =
    (let removed = filter (expired cutoff) (tMsgs t);
         m' = m\<lparr>mTopics := (mTopics m)(q \<mapsto> expire_topic cutoff t)\<rparr>
     in if removed = [] then ((0, None), m', w)
        else case tombstone_all (open_writer (mWalDir m) q) removed None w of
          (firstErr, w2) \<Rightarrow> ((length removed, firstErr), m', w2))"
  using assms
  by (simp add: known_def expireDLQQueue_def RemoveIf_filter expired_def [abs_def] expire_topic_def Let_def)

text \<open>One expiry changes one topic and one file.\<close>

lemma expireDLQQueue_effect:
  assumes "known m q" "mTopics m q = Some t" "expireDLQQueue q cutoff m w = ((n, err), m', w')"
  shows "n = length (filter (expired cutoff) (tMsgs t))"
    and "m' = m\<lparr>mTopics := (mTopics m)(q \<mapsto> expire_topic cutoff t)\<rparr>"
    and "p \<noteq> qpath m q \<Longrightarrow> files w' p = files w p"
  using assms tombstone_all_frame [of "mWalDir m" q "filter (expired cutoff) (tMsgs t)" None w err w' p]
  by (auto simp: expireDLQQueue_known Let_def split: if_splits prod.splits)

lemma tombstone_all_no_panic:
  "fe \<noteq> Some ErrPanic \<Longrightarrow> fst (tombstone_all wr msgs fe w) \<noteq> Some ErrPanic"
proof (induction msgs arbitrary: fe w)
  case (Cons m msgs)
  obtain e w1 where w1: "WriteTombstone wr (ID m) w = (e, w1)" by (metis prod.exhaust)
  then have "e \<noteq> Some ErrPanic"
    by (auto simp: WriteTombstone_def append_record_def encode_frame f_Write_def f_Sync_def Let_def
        split: fhandle.splits io_fault.splits if_splits)
  with Cons.prems have "first_err fe e \<noteq> Some ErrPanic" by (auto simp: first_err_def)
  with Cons.IH w1 show ?case by simp
qed simp

lemma expireDLQQueue_no_panic:
  assumes "known m q"
  shows "snd (fst (expireDLQQueue q cutoff m w)) \<noteq> Some ErrPanic"
proof -
  obtain t where t: "mTopics m q = Some t" using assms by (auto simp: known_def)
  have "fst (tombstone_all (open_writer (mWalDir m) q) (filter (expired cutoff) (tMsgs t)) None w) \<noteq> Some ErrPanic"
    by (simp add: tombstone_all_no_panic)
  then show ?thesis using assms t by (simp add: expireDLQQueue_known Let_def case_prod_beta)
qed

lemma known_upd_topic [simp]: "known m q \<Longrightarrow> known (m\<lparr>mTopics := (mTopics m)(p \<mapsto> t)\<rparr>) q"
  by (simp add: known_def)

definition expired_count :: "time \<Rightarrow> Topic option \<Rightarrow> nat" where
  "expired_count cutoff t = (case t of None \<Rightarrow> 0 | Some t \<Rightarrow> length (filter (expired cutoff) (tMsgs t)))"

lemma expire_queues_Cons:
  assumes k: "known m q" and t: "mTopics m q = Some t"
  obtains e w1 where "\<And>p. p \<noteq> qpath m q \<Longrightarrow> files w1 p = files w p"
    "expire_queues (q # qs) cutoff acc fe m w =
       expire_queues qs cutoff (acc + expired_count cutoff (Some t)) (first_err fe e)
         (m\<lparr>mTopics := (mTopics m)(q \<mapsto> expire_topic cutoff t)\<rparr>) w1"
proof -
  obtain n e m1 w1 where s: "expireDLQQueue q cutoff m w = ((n, e), m1, w1)" by (metis prod.exhaust)
  have "e \<noteq> Some ErrPanic" using expireDLQQueue_no_panic [OF k, of cutoff w] s by simp
  with s expireDLQQueue_effect [OF k t s] show ?thesis
    by (intro that [of w1 e]) (simp_all add: expired_count_def)
qed

lemma expire_queues_topics:
  "distinct qs \<Longrightarrow> \<forall>q \<in> set qs. known m q \<Longrightarrow> expire_queues qs cutoff acc fe m w = ((n, err), m', w') \<Longrightarrow>
     m' = m\<lparr>mTopics := (\<lambda>q. if q \<in> set qs then map_option (expire_topic cutoff) (mTopics m q) else mTopics m q)\<rparr>"
proof (induction qs arbitrary: acc fe m w)
  case (Cons q qs)
  obtain t where t: "mTopics m q = Some t" using Cons.prems(2) by (auto simp: known_def)
  let ?m = "m\<lparr>mTopics := (mTopics m)(q \<mapsto> expire_topic cutoff t)\<rparr>"
  obtain e w1 where "expire_queues qs cutoff (acc + expired_count cutoff (Some t)) (first_err fe e) ?m w1 = ((n, err), m', w')"
    using expire_queues_Cons [OF _ t, of w qs cutoff acc fe] Cons.prems by (metis list.set_intros(1))
  with Cons.IH [of ?m] Cons.prems(1,2)
  have "m' = ?m\<lparr>mTopics := (\<lambda>q. if q \<in> set qs then map_option (expire_topic cutoff) (mTopics ?m q) else mTopics ?m q)\<rparr>"
    by simp
  with Cons.prems(1) t show ?case by (auto simp: fun_eq_iff intro!: Manager.equality)
qed simp

lemma expire_queues_count:
  "distinct qs \<Longrightarrow> \<forall>q \<in> set qs. known m q \<Longrightarrow> expire_queues qs cutoff acc fe m w = ((n, err), m', w') \<Longrightarrow>
     n = acc + (\<Sum>q \<leftarrow> qs. expired_count cutoff (mTopics m q))"
proof (induction qs arbitrary: acc fe m w)
  case (Cons q qs)
  obtain t where t: "mTopics m q = Some t" using Cons.prems(2) by (auto simp: known_def)
  let ?m = "m\<lparr>mTopics := (mTopics m)(q \<mapsto> expire_topic cutoff t)\<rparr>"
  obtain e w1 where "expire_queues qs cutoff (acc + expired_count cutoff (Some t)) (first_err fe e) ?m w1 = ((n, err), m', w')"
    using expire_queues_Cons [OF _ t, of w qs cutoff acc fe] Cons.prems by (metis list.set_intros(1))
  with Cons.IH [of ?m] Cons.prems(1,2)
  have "n = acc + expired_count cutoff (Some t) + (\<Sum>q \<leftarrow> qs. expired_count cutoff (mTopics ?m q))" by simp
  moreover have "map (\<lambda>q. expired_count cutoff (mTopics ?m q)) qs = map (\<lambda>q. expired_count cutoff (mTopics m q)) qs"
    using Cons.prems(1) by auto
  ultimately have "n = acc + expired_count cutoff (Some t) + (\<Sum>q \<leftarrow> qs. expired_count cutoff (mTopics m q))" by metis
  with t show ?case by simp
qed simp

lemma expire_queues_files:
  "\<forall>q \<in> set qs. known m q \<and> p \<noteq> qpath m q \<Longrightarrow> expire_queues qs cutoff acc fe m w = ((n, err), m', w') \<Longrightarrow>
     files w' p = files w p"
proof (induction qs arbitrary: acc fe m w)
  case (Cons q qs)
  obtain t where t: "mTopics m q = Some t" using Cons.prems(1) by (auto simp: known_def)
  let ?m = "m\<lparr>mTopics := (mTopics m)(q \<mapsto> expire_topic cutoff t)\<rparr>"
  obtain e w1 where "expire_queues qs cutoff (acc + expired_count cutoff (Some t)) (first_err fe e) ?m w1 = ((n, err), m', w')"
    "files w1 p = files w p"
    using expire_queues_Cons [OF _ t, of w qs cutoff acc fe] Cons.prems by (metis list.set_intros(1))
  with Cons.IH [of ?m] Cons.prems(1) show ?case by simp
qed simp

subsection \<open>Start-up\<close>

text \<open>The queues whose WAL files a directory listing names.\<close>

definition wal_queues :: "(string \<times> bool) list \<Rightarrow> string set" where
  "wal_queues es = {q. (q @ ''.wal'', False) \<in> set es}"

lemma wal_queues_simps [simp]:
  "wal_queues [] = {}"
  "wal_queues ((n, d) # es) =
     (if \<not> d \<and> HasSuffix n ''.wal'' then insert (TrimSuffix n ''.wal'') (wal_queues es) else wal_queues es)"
  by (auto simp: wal_queues_def HasSuffix_iff)

definition restored :: "wal_record list \<Rightarrow> Topic" where
  "restored rs = fold Topic_Enqueue (live_messages rs) NewTopic"

lemma tClosed_fold_Enqueue [simp]: "tClosed (fold Topic_Enqueue ms t) = tClosed t"
  by (induction ms arbitrary: t) simp_all

lemma restored_simps [simp]: "tMsgs (restored rs) = live_messages rs" "tClosed (restored rs) = False"
  by (simp_all add: restored_def topicq.items_fold_enq)

lemma init_entries_ok:
  assumes "faults w = []"
    and "\<And>q. q \<in> wal_queues es \<Longrightarrow> \<exists>data. files w (qpath m q) = Some data \<and> wal_log (R q) data"
    and "\<And>q. mTopics m q = None \<or> mTopics m q = Some (restored (R q)) \<and> mWriters m q = Some (open_writer (mWalDir m) q)"
  shows "\<exists>m'. init_entries es m w = (None, m', w) \<and> mWalDir m' = mWalDir m \<and> mClosing m' = mClosing m \<and>
    (\<forall>q. mTopics m' q = (if q \<in> wal_queues es then Some (restored (R q)) else mTopics m q)) \<and>
    (\<forall>q. mWriters m' q = (if q \<in> wal_queues es then Some (open_writer (mWalDir m) q) else mWriters m q))"
  using assms
proof (induction es arbitrary: m)
  case (Cons e es)
  obtain n d where e: "e = (n, d)" by (cases e)
  show ?case
  proof (cases "\<not> d \<and> HasSuffix n ''.wal''")
    case False
    with e have "wal_queues (e # es) = wal_queues es" "init_entries (e # es) m w = init_entries es m w" by auto
    with Cons.IH [of m] Cons.prems show ?thesis by presburger
  next
    case True
    let ?q = "TrimSuffix n ''.wal''"
    obtain data where data: "files w (qpath m ?q) = Some data" "wal_log (R ?q) data"
      using Cons.prems(2) [of ?q] True e by auto
    let ?m1 = "m\<lparr>mTopics := (mTopics m)(?q \<mapsto> restored (R ?q)),
        mWriters := (mWriters m)(?q \<mapsto> open_writer (mWalDir m) ?q)\<rparr>"
    have "mTopics m ?q = Some t \<Longrightarrow> ?m1 = m" for t using Cons.prems(3) [of ?q] by (simp add: fun_upd_idem)
    then have i: "initQueue ?q m w = (None, ?m1, w)"
      using initQueue_replay [OF Cons.prems(1) _ data] by (cases "mTopics m ?q") (simp_all add: restored_def)
    obtain m1 where m1: "initQueue ?q m w = (None, m1, w)" "mWalDir m1 = mWalDir m" "mClosing m1 = mClosing m"
      "mTopics m1 = (mTopics m)(?q \<mapsto> restored (R ?q))"
      "mWriters m1 = (mWriters m)(?q \<mapsto> open_writer (mWalDir m) ?q)"
      using that [OF i] by simp
    have "\<exists>m'. init_entries es m1 w = (None, m', w) \<and> mWalDir m' = mWalDir m1 \<and> mClosing m' = mClosing m1 \<and>
      (\<forall>q. mTopics m' q = (if q \<in> wal_queues es then Some (restored (R q)) else mTopics m1 q)) \<and>
      (\<forall>q. mWriters m' q = (if q \<in> wal_queues es then Some (open_writer (mWalDir m1) q) else mWriters m1 q))"
      using Cons.prems m1 True e by (intro Cons.IH) auto
    with m1 True e show ?thesis by auto
  qed
qed simp

text \<open>Start-up on an intact directory loads every listed queue with its live messages.\<close>

lemma NewManager_ok:
  assumes "faults w = []"
    and "\<And>q. q \<in> wal_queues es \<Longrightarrow> \<exists>data. files w (wal_path dir q) = Some data \<and> wal_log (R q) data"
  obtains m where "NewManager dir es w = (Inr m, w)" "mWalDir m = dir" "\<not> mClosing m"
    "\<And>q. mTopics m q = (if q \<in> wal_queues es then Some (restored (R q)) else None)"
    "\<And>q. mWriters m q = (if q \<in> wal_queues es then Some (open_writer dir q) else None)"
proof -
  obtain m' where "init_entries es (empty_Manager dir) w = (None, m', w)" "mWalDir m' = dir" "\<not> mClosing m'"
    "\<forall>q. mTopics m' q = (if q \<in> wal_queues es then Some (restored (R q)) else None)"
    "\<forall>q. mWriters m' q = (if q \<in> wal_queues es then Some (open_writer dir q) else None)"
    using init_entries_ok [of w es "empty_Manager dir" R] assms by (auto simp: empty_Manager_def)
  then show ?thesis using assms(1) by (intro that [of m']) (simp_all add: NewManager_def)
qed

subsection \<open>Shutdown\<close>

lemma close_writers_topics: "close_writers qs fe m w = (err, m', w') \<Longrightarrow> mTopics m' = mTopics m"
proof (induction qs arbitrary: fe m w)
  case (Cons q qs)
  show ?case
  proof (cases "mWriters m q")
    case (Some wr)
    obtain e wr' w1 where "Writer_Close wr w = ((e, wr'), w1)" by (metis prod.exhaust)
    with Cons Some show ?thesis by fastforce
  qed (use Cons in simp)
qed simp

lemma Manager_Close_topics:
  "Manager_Close order m w = (err, m', w') \<Longrightarrow> mTopics m' q = map_option Topic_Close (mTopics m q)"
  by (auto simp: Manager_Close_def dest!: close_writers_topics)

subsection \<open>Compaction\<close>

lemma Manager_Compact_effect:
  assumes "queue_open q rs m w" "Manager_Compact q m w = (err, m', w')"
  shows "mTopics m' = mTopics m" "mWalDir m' = mWalDir m"
    and "\<exists>data rs'. files w' (qpath m q) = Some data \<and> wal_log rs' data \<and> live_messages rs' = live_messages rs"
    and "err = None \<Longrightarrow> queue_open q (map message_record (live_messages rs)) m' w'"
    and "p \<noteq> qpath m q \<Longrightarrow> p \<noteq> tmp_path (qpath m q) \<Longrightarrow> files w' p = files w p"
proof -
  let ?wr = "open_writer (mWalDir m) q" and ?ls = "map message_record (live_messages rs)"
  note q = queue_openD [OF assms(1)]
  obtain wr' where c: "Compact ?wr w = ((err, wr'), w')" and m': "m' = m\<lparr>mWriters := (mWriters m)(q \<mapsto> wr')\<rparr>"
    using assms(2) q(1) by (auto simp: Manager_Compact_def split: prod.splits)
  have pathc: "wPath ?wr = wal_path (wWalDir ?wr) (wQueue ?wr)" by simp
  note eff = Compact_effect [OF c pathc _ replay_wal_log [OF q(5)]]
  have enc: "\<forall>r \<in> set ?ls. encodable r" using live_messages_encodable [OF q(5)] .
  show "mTopics m' = mTopics m" "mWalDir m' = mWalDir m" by (simp_all add: m')
  have "live_messages ?ls = live_messages rs" by (simp add: live_messages_idem)
  with q(3,5) wal_logI [OF enc] eff(1)
  show "\<exists>data rs'. files w' (qpath m q) = Some data \<and> wal_log rs' data \<and> live_messages rs' = live_messages rs"
    by (metis compacted_def open_writer_simps(2))
  show "p \<noteq> qpath m q \<Longrightarrow> p \<noteq> tmp_path (qpath m q) \<Longrightarrow> files w' p = files w p"
    using eff(1) q(3) by (simp add: compacted_def)
  assume "err = None"
  then have F: "wFile wr' = FOpen (qpath m q)" "files w' (qpath m q) = Some (log_of frame ?ls)"
    using eff(2) q(3) by simp_all
  obtain f where f: "wr' = ?wr\<lparr>wFile := f\<rparr>" using Compact_writer [OF c] .
  with F(1) have "wr' = ?wr" by (simp add: open_writer_def)
  with F(2) q(2) enc m' show "queue_open q ?ls m' w'" by (simp add: queue_open_def)
qed

subsection \<open>The waiting messages of a queue\<close>

definition queued :: "Manager \<Rightarrow> string \<Rightarrow> Message list" where
  "queued m q = (case mTopics m q of None \<Rightarrow> [] | Some t \<Rightarrow> tMsgs t)"

lemma initQueue_topics:
  assumes "initQueue q m w = (err, m', w')"
  shows "mWalDir m' = mWalDir m" "mClosing m' = mClosing m"
    and "p \<noteq> q \<Longrightarrow> mTopics m' p = mTopics m p \<and> mWriters m' p = mWriters m p"
    and "err = None \<Longrightarrow> mTopics m' q \<noteq> None"
    and "mTopics m q \<noteq> None \<Longrightarrow> m' = m"
    and "err \<noteq> None \<Longrightarrow> m' = m"
  using assms by (auto simp: initQueue_def split: if_splits prod.splits sum.splits)

text \<open>A successful \<open>Enqueue\<close> puts the message at the back of its queue, whatever the queue's
  first use had to replay, and touches no other queue. A failing one adds nothing to a queue
  in use.\<close>

lemma Manager_Enqueue_queued:
  assumes "Manager_Enqueue msg m w = (err, m', w')"
  shows "q \<noteq> Queue msg \<Longrightarrow> mTopics m' q = mTopics m q"
    and "err = None \<Longrightarrow> \<exists>ms. queued m' (Queue msg) = queued m (Queue msg) @ ms @ [msg]"
    and "err = None \<Longrightarrow> mTopics m (Queue msg) \<noteq> None \<Longrightarrow> queued m' (Queue msg) = queued m (Queue msg) @ [msg]"
    and "err \<noteq> None \<Longrightarrow> mTopics m (Queue msg) \<noteq> None \<Longrightarrow> m' = m"
    and "mClosing m' = mClosing m" "mWalDir m' = mWalDir m"
proof -
  obtain e m1 w1 where i: "initQueue (Queue msg) m w = (e, m1, w1)" by (metis prod.exhaust)
  note t = initQueue_topics [OF i]
  have cases: "(err \<noteq> None \<and> (m' = m \<or> m' = m1)) \<or>
      (e = None \<and> err = None \<and> (\<exists>tp. mTopics m1 (Queue msg) = Some tp \<and>
         m' = m1\<lparr>mTopics := (mTopics m1)(Queue msg \<mapsto> Topic_Enqueue msg tp)\<rparr>))"
    using assms i by (auto simp: Manager_Enqueue_def split: if_splits option.splits prod.splits)
  show "q \<noteq> Queue msg \<Longrightarrow> mTopics m' q = mTopics m q" "mClosing m' = mClosing m" "mWalDir m' = mWalDir m"
    and "err \<noteq> None \<Longrightarrow> mTopics m (Queue msg) \<noteq> None \<Longrightarrow> m' = m"
    using cases t by auto
  show "err = None \<Longrightarrow> mTopics m (Queue msg) \<noteq> None \<Longrightarrow> queued m' (Queue msg) = queued m (Queue msg) @ [msg]"
    using cases t(5) by (auto simp: queued_def)
  show "err = None \<Longrightarrow> \<exists>ms. queued m' (Queue msg) = queued m (Queue msg) @ ms @ [msg]"
    using cases t(5) by (cases "mTopics m (Queue msg)") (auto simp: queued_def)
qed

lemma Enqueue_monotone:
  assumes "Manager_Enqueue msg m w = (err, m', w')" "x \<in> set (queued m q)"
  shows "x \<in> set (queued m' q)"
proof (cases "q = Queue msg")
  case True
  then have "mTopics m (Queue msg) \<noteq> None" using assms(2) by (cases "mTopics m (Queue msg)") (auto simp: queued_def)
  with Manager_Enqueue_queued(3,4) [OF assms(1)] assms(2) True show ?thesis by (cases err) auto
next
  case False
  with Manager_Enqueue_queued(1) [OF assms(1)] assms(2) show ?thesis by (simp add: queued_def)
qed

text \<open>The manager's two maps stay in step.\<close>

lemma NewWriter_open: "NewWriter dir q w = (Inr wr, w') \<Longrightarrow> wr = open_writer dir q"
  by (auto simp: NewWriter_def OpenFile_def open_writer_def Let_def split: sum.splits if_splits option.splits prod.splits)

lemma mgr_invI: "(\<And>q. mTopics m q \<noteq> None \<or> mWriters m q \<noteq> None \<Longrightarrow> known m q) \<Longrightarrow> mgr_inv m"
  by (simp add: mgr_inv_def)

lemma mgr_invD: "mgr_inv m \<Longrightarrow> mTopics m q \<noteq> None \<or> mWriters m q \<noteq> None \<Longrightarrow> known m q"
  unfolding mgr_inv_def by blast

lemma known_upd:
  "known (m\<lparr>mTopics := (mTopics m)(q \<mapsto> t), mWriters := (mWriters m)(q \<mapsto> open_writer (mWalDir m) q)\<rparr>) p \<longleftrightarrow>
     p = q \<or> known m p"
  by (simp add: known_def)

lemma mgr_inv_add:
  assumes "mgr_inv m"
  shows "mgr_inv (m\<lparr>mTopics := (mTopics m)(q \<mapsto> t), mWriters := (mWriters m)(q \<mapsto> open_writer (mWalDir m) q)\<rparr>)"
  by (rule mgr_invI, unfold known_upd) (use mgr_invD [OF assms] in \<open>auto split: if_splits\<close>)

lemma mgr_inv_topic:
  assumes "mgr_inv m" "mTopics m q = Some t0" shows "mgr_inv (m\<lparr>mTopics := (mTopics m)(q \<mapsto> t)\<rparr>)"
    "known (m\<lparr>mTopics := (mTopics m)(q \<mapsto> t)\<rparr>) q"
proof -
  show "mgr_inv (m\<lparr>mTopics := (mTopics m)(q \<mapsto> t)\<rparr>)"
    by (rule mgr_invI) (use mgr_invD [OF assms(1)] assms(2) in \<open>auto intro!: known_upd_topic split: if_splits\<close>)
  show "known (m\<lparr>mTopics := (mTopics m)(q \<mapsto> t)\<rparr>) q"
    using mgr_invD [OF assms(1), of q] assms(2) by simp
qed

lemma initQueue_inv:
  assumes "mgr_inv m" "initQueue q m w = (err, m', w')" shows "mgr_inv m'"
proof -
  have "m' = m \<or> (\<exists>t. m' = m\<lparr>mTopics := (mTopics m)(q \<mapsto> t), mWriters := (mWriters m)(q \<mapsto> open_writer (mWalDir m) q)\<rparr>)"
    using assms(2) by (auto simp: initQueue_def split: if_splits prod.splits sum.splits dest!: NewWriter_open)
  with assms(1) mgr_inv_add show ?thesis by auto
qed

lemma Manager_Enqueue_inv:
  assumes "mgr_inv m" "Manager_Enqueue msg m w = (err, m', w')"
  shows "mgr_inv m'" "err \<noteq> None \<or> known m' (Queue msg)"
proof -
  obtain e m1 w1 where i: "initQueue (Queue msg) m w = (e, m1, w1)" by (metis prod.exhaust)
  have m1: "mgr_inv m1" using initQueue_inv [OF assms(1) i] .
  have "m' = m \<or> m' = m1 \<or> (\<exists>tp. err = None \<and> mTopics m1 (Queue msg) = Some tp \<and>
       m' = m1\<lparr>mTopics := (mTopics m1)(Queue msg \<mapsto> Topic_Enqueue msg tp)\<rparr>)"
    using assms(2) i by (auto simp: Manager_Enqueue_def split: if_splits option.splits prod.splits)
  with m1 assms(1) show "mgr_inv m'" using mgr_inv_topic(1) by blast
  have "err \<noteq> None \<or> (\<exists>tp. mTopics m1 (Queue msg) = Some tp \<and>
       m' = m1\<lparr>mTopics := (mTopics m1)(Queue msg \<mapsto> Topic_Enqueue msg tp)\<rparr>)"
    using assms(2) i by (auto simp: Manager_Enqueue_def split: if_splits option.splits prod.splits)
  with m1 show "err \<noteq> None \<or> known m' (Queue msg)" using mgr_inv_topic(2) by blast
qed

text \<open>The whole methods are their parts in sequence.\<close>

lemma Enqueue_parts:
  assumes "mgr_inv m"
  shows "Manager_Enqueue msg m w =
    (if mClosing m then (Some ErrShuttingDown, m, w)
     else case initQueue (Queue msg) m w of
       (Some err, m1, w1) \<Rightarrow> (Some err, m1, w1)
     | (None, m1, w1) \<Rightarrow>
         (case Enqueue_write msg m1 w1 of
            (Some err, w2) \<Rightarrow> (Some err, m1, w2)
          | (None, w2) \<Rightarrow> (None, Enqueue_push msg m1, w2)))"
proof -
  obtain e m1 w1 where i: "initQueue (Queue msg) m w = (e, m1, w1)" by (metis prod.exhaust)
  have "known m1 (Queue msg)" if "e = None"
    using mgr_invD [OF initQueue_inv [OF assms i]] initQueue_topics(4) [OF i that] by blast
  then show ?thesis using i
    by (auto simp: Manager_Enqueue_def Enqueue_write_def Enqueue_push_def known_def split: option.splits prod.splits)
qed

lemma expire_parts:
  assumes "known m q" "expire_remove q cutoff m w = (removed, m1, w1)"
  shows "expireDLQQueue q cutoff m w =
    (case tombstone_all (open_writer (mWalDir m) q) removed None w1 of (err, w2) \<Rightarrow> ((length removed, err), m1, w2))"
  using assms by (auto simp: expireDLQQueue_def expire_remove_def known_def split: prod.splits)

lemma expire_remove_known:
  assumes "known m q" "mTopics m q = Some t"
  shows "expire_remove q cutoff m w =
    (filter (expired cutoff) (tMsgs t), m\<lparr>mTopics := (mTopics m)(q \<mapsto> expire_topic cutoff t)\<rparr>, w)"
  using assms by (simp add: expire_remove_def RemoveIf_filter expired_def [abs_def] expire_topic_def)

text \<open>No operation on a queue touches the file of another.\<close>

lemma initQueue_files:
  assumes "initQueue q m w = (err, m', w')" "p \<noteq> qpath m q"
  shows "files w' p = files w p"
proof -
  have "files w1 = files w" if "Replay (NewReader (mWalDir m) q) w = (r, w1)" for r w1
    using replay_path_files that by (simp add: Replay_def)
  moreover have "files w2 p = files w1 p" if "NewWriter (mWalDir m) q w1 = (r, w2)" for r w1 w2
    using OpenFile_frame [OF assms(2), of True False w1] that
    by (auto simp: NewWriter_def Let_def split: prod.splits sum.splits)
  ultimately show ?thesis using assms(1)
    by (auto simp: initQueue_def split: if_splits prod.splits sum.splits)
qed

lemma Manager_Enqueue_files:
  assumes "mgr_inv m" "Manager_Enqueue msg m w = (err, m', w')" "p \<noteq> qpath m (Queue msg)"
  shows "files w' p = files w p"
proof -
  obtain e m1 w1 where i: "initQueue (Queue msg) m w = (e, m1, w1)" by (metis prod.exhaust)
  note f1 = initQueue_files [OF i assms(3)]
  have inv: "mgr_inv m1" using initQueue_inv [OF assms(1) i] .
  have dir: "mWalDir m1 = mWalDir m" using initQueue_topics(1) [OF i] .
  consider "w' = w" | "w' = w1" | e2 where "mWriters m1 (Queue msg) \<noteq> None"
      "WriteMessage (the (mWriters m1 (Queue msg))) msg w1 = (e2, w')"
    using assms(2) i by (auto simp: Manager_Enqueue_def split: if_splits option.splits prod.splits)
  then show ?thesis
  proof cases
    case 3
    then have "mWriters m1 (Queue msg) = Some (open_writer (mWalDir m) (Queue msg))"
      using mgr_invD [OF inv, of "Queue msg"] dir by (simp add: known_def)
    with 3 append_record_frame [of "mWalDir m" "Queue msg" "message_record msg" w1 e2 w' p] assms(3) f1
    show ?thesis by (simp add: WriteMessage_def)
  qed (use f1 in simp_all)
qed

end
