(* ===== verification/QueueProps.thy ===== *)
theory QueueProps
  imports Manager
begin

text \<open>
  Properties of the queues: the in-memory FIFO, and the manager that keeps every queue's topic
  in step with its write-ahead log.
\<close>

section \<open>The topic\<close>

text \<open>C1. The topic refines a list: any sequence of \<open>Enqueue\<close> and \<open>Dequeue\<close> calls returns the
  same messages in the same order, and leaves the same content, as on a plain list (a \<open>Dequeue\<close>
  that finds nothing returns no message).\<close>

theorem topic_refines_list:
  "(case run_ops Topic_Enqueue Topic_Dequeue ops t of (out, t') \<Rightarrow> (out, tMsgs t')) = spec_ops ops (tMsgs t)"
  using topicq.run_ops_spec [of ops t] by (simp add: case_prod_beta prod_eq_iff)

text \<open>C31. \<open>Dequeue\<close> waits exactly while the topic is open and empty. After \<open>Close\<close> it hands out
  every message that is left, in order, and then reports the end, so a dispatcher always comes to
  its stop.\<close>

theorem closed_topic_drains:
  "(fst (Topic_Dequeue t) = None \<longleftrightarrow> tMsgs t = [] \<and> \<not> tClosed t) \<and>
   (case deq_n Topic_Dequeue (length (tMsgs t)) (Topic_Close t) of
      (out, t') \<Rightarrow> out = tMsgs t \<and> Topic_Dequeue t' = (Some (zero_Message, False), t'))"
proof
  show "fst (Topic_Dequeue t) = None \<longleftrightarrow> tMsgs t = [] \<and> \<not> tClosed t" by (rule Dequeue_blocks_iff)
  let ?r = "deq_n Topic_Dequeue (length (tMsgs t)) (Topic_Close t)"
  have "fst ?r = tMsgs t \<and> tMsgs (snd ?r) = []" using topicq.deq_n_items [of "length (tMsgs t)" "Topic_Close t"] by simp
  moreover have "Topic_Dequeue (snd ?r) = (Some (zero_Message, False), snd ?r)"
    using calculation deq_n_tClosed [of "length (tMsgs t)" "Topic_Close t"] by (simp add: Topic_Dequeue_def)
  ultimately show "case ?r of (out, t') \<Rightarrow> out = tMsgs t \<and> Topic_Dequeue t' = (Some (zero_Message, False), t')"
    by (simp add: case_prod_beta)
qed

section \<open>The manager\<close>

text \<open>A manager with one open, empty queue, and the disk below it.\<close>

definition sample_manager :: Manager where
  "sample_manager = (empty_Manager ''wal'')\<lparr>mTopics := [''orders'' \<mapsto> NewTopic],
     mWriters := [''orders'' \<mapsto> open_writer ''wal'' ''orders'']\<rparr>"

definition sample_disk :: world where
  "sample_disk = \<lparr>files = [wal_path ''wal'' ''orders'' \<mapsto> []], faults = []\<rparr>"

lemma sample_queue_open: "queue_open ''orders'' [] sample_manager sample_disk"
  by (simp add: queue_open_def sample_manager_def sample_disk_def empty_Manager_def)

lemma sample_manager_inv: "mgr_inv sample_manager"
  by (rule mgr_invI) (auto simp: sample_manager_def empty_Manager_def known_def split: if_splits)

text \<open>C7. Write-ahead: under every script of I/O faults, an \<open>Enqueue\<close> that reports success has put
  the message's record at the end of the queue's log and the message at the back of the topic; one
  that reports an error leaves all topics as they were, and the log replays to the old messages or,
  at most, these and the new one.\<close>

theorem enqueue_write_ahead:
  assumes "queue_open (Queue msg) rs m w" "message_ok msg" "Manager_Enqueue msg m w = (err, m', w')"
  shows "(err = None \<longrightarrow> queue_open (Queue msg) (rs @ [message_record msg]) m' w' \<and>
            queued m' (Queue msg) = queued m (Queue msg) @ [msg]) \<and>
    (err \<noteq> None \<longrightarrow> m' = m \<and>
       (\<exists>data. files w' (qpath m (Queue msg)) = Some data \<and>
          (replay_data data = Ret (live_messages rs) \<or> replay_data data = Ret (live_messages (rs @ [message_record msg])))))"
proof -
  obtain t where t: "mTopics m (Queue msg) = Some t" using queue_openD(2) [OF assms(1)] by auto
  have s: "queue_open (Queue msg) (rs @ [message_record msg]) m' w' \<and> queued m' (Queue msg) = queued m (Queue msg) @ [msg]"
    if "err = None"
    using Enqueue_success(1) [OF assms(1) t assms(2)] Manager_Enqueue_queued(3) [OF assms(3)] assms(3) t that by simp
  have "m' = m" if "err \<noteq> None" using Manager_Enqueue_queued(4) [OF assms(3)] t that by simp
  moreover have "\<exists>data. files w' (qpath m (Queue msg)) = Some data \<and> (wal_log rs data \<or> wal_log (rs @ [message_record msg]) data)"
    if "err \<noteq> None" using Enqueue_failure(2) [OF assms(1,2)] assms(3) that by blast
  ultimately show ?thesis using s replay_wal_log by blast
qed

theorem enqueue_write_ahead_witness:
  "\<exists>m' w'. Manager_Enqueue sample_message sample_manager sample_disk = (None, m', w') \<and>
     queue_open ''orders'' [message_record sample_message] m' w' \<and> queued m' ''orders'' = [sample_message]"
proof -
  obtain err m' w' where e: "Manager_Enqueue sample_message sample_manager sample_disk = (err, m', w')" by (metis prod.exhaust)
  have "append_record (open_writer ''wal'' ''orders'') (message_record sample_message) sample_disk =
      (None, sample_disk\<lparr>files := (files sample_disk)(wal_path ''wal'' ''orders'' \<mapsto> frame (message_record sample_message))\<rparr>)"
    using append_record_ok [of sample_disk "open_writer ''wal'' ''orders''" "wal_path ''wal'' ''orders''" "[]"]
    by (simp add: sample_disk_def)
  then have "err = None" using e Enqueue_known [OF sample_queue_open [folded sample_simps(2)], of NewTopic]
    by (auto simp: sample_manager_def empty_Manager_def)
  moreover have "queued sample_manager ''orders'' = []" by (simp add: queued_def sample_manager_def)
  ultimately show ?thesis
    using enqueue_write_ahead [OF sample_queue_open [folded sample_simps(2)] sample_ok e] e by simp
qed

text \<open>C9. Restart: on a directory of intact logs \<open>NewManager\<close> succeeds, opens exactly the queues
  that have a WAL file, and fills each topic with the live messages of its log, in order.\<close>

theorem restart_restores_queues:
  assumes "faults w = []"
    and "\<And>q. (q @ ''.wal'', False) \<in> set entries \<Longrightarrow>
      files w (wal_path dir q) = Some (log_of frame (R q)) \<and> list_all encodable (R q)"
  shows "\<exists>m. NewManager dir entries w = (Inr m, w) \<and> mgr_inv m \<and>
    (\<forall>q. known m q \<longleftrightarrow> (q @ ''.wal'', False) \<in> set entries) \<and>
    (\<forall>q. (q @ ''.wal'', False) \<in> set entries \<longrightarrow> queued m q = live_messages (R q) \<and> queue_open q (R q) m w)"
proof -
  have logs: "\<exists>data. files w (wal_path dir q) = Some data \<and> wal_log (R q) data" if "q \<in> wal_queues entries" for q
    using assms(2) [of q] that wal_logI [of "R q"] by (auto simp: wal_queues_def list_all_iff)
  obtain m where m: "NewManager dir entries w = (Inr m, w)" "mWalDir m = dir"
    "\<And>q. mTopics m q = (if q \<in> wal_queues entries then Some (restored (R q)) else None)"
    "\<And>q. mWriters m q = (if q \<in> wal_queues entries then Some (open_writer dir q) else None)"
    using NewManager_ok [OF assms(1) logs] by blast
  have k: "known m q \<longleftrightarrow> q \<in> wal_queues entries" for q using m(2-4) by (auto simp: known_def)
  moreover have "mgr_inv m" by (rule mgr_invI) (auto simp: k m(3,4) split: if_splits)
  moreover have "queued m q = live_messages (R q) \<and> queue_open q (R q) m w" if "q \<in> wal_queues entries" for q
    using m(2-4) assms(2) [of q] that by (auto simp: queued_def queue_open_def list_all_iff wal_queues_def)
  ultimately show ?thesis using m(1) by (auto simp: wal_queues_def)
qed

theorem restart_restores_queues_witness:
  "\<exists>m. NewManager ''wal'' [(''orders.wal'', False)] sample_disk = (Inr m, sample_disk) \<and> queued m ''orders'' = []"
proof -
  have "q = ''orders''" if "(q @ ''.wal'', False) \<in> set [(''orders.wal'', False)]" for q :: string
  proof -
    have "q @ ''.wal'' = ''orders'' @ ''.wal''" using that by simp
    then show ?thesis by (simp only: append_same_eq)
  qed
  then have *: "files sample_disk (wal_path ''wal'' q) = Some (log_of frame []) \<and> list_all encodable []"
    if "(q @ ''.wal'', False) \<in> set [(''orders.wal'', False)]" for q
    using that by (auto simp: sample_disk_def)
  have "faults sample_disk = []" by (simp add: sample_disk_def)
  from restart_restores_queues [OF this *] obtain m where
    "NewManager ''wal'' [(''orders.wal'', False)] sample_disk = (Inr m, sample_disk)"
    "(''orders'' @ ''.wal'', False) \<in> set [(''orders.wal'', False)] \<longrightarrow> queued m ''orders'' = live_messages []"
    by blast
  then show ?thesis by (auto simp: live_messages_def)
qed

text \<open>C23. Expiry touches dead-letter queues only: a scan with a positive retention removes from each
  of them exactly the messages enqueued before the cutoff, keeps the others in order, leaves every
  other queue and every file of another queue alone, and reports the number of messages removed. A
  retention that is not positive disables it.\<close>

theorem expire_dlq_exact:
  assumes "mgr_inv m" "range_order order (mWriters m)"
    and "ExpireDLQOlderThan retention now order m w = ((n, err), m', w')"
  shows "(sint retention \<le> 0 \<longrightarrow> n = 0 \<and> err = None \<and> m' = m \<and> w' = w) \<and>
    (0 < sint retention \<longrightarrow>
       n = (\<Sum>q \<leftarrow> filter IsDLQQueue order. length (filter (expired (now + sint (- retention))) (queued m q))) \<and>
       (\<forall>q. queued m' q = (if IsDLQQueue q then filter (\<lambda>x. \<not> expired (now + sint (- retention)) x) (queued m q)
                           else queued m q)) \<and>
       (\<forall>p. (\<forall>q. IsDLQQueue q \<longrightarrow> known m q \<longrightarrow> p \<noteq> qpath m q) \<longrightarrow> files w' p = files w p))"
proof (intro conjI impI)
  let ?c = "now + sint (- retention)" and ?qs = "filter IsDLQQueue order"
  assume pos: "0 < sint retention"
  have run: "expire_queues ?qs ?c 0 None m w = ((n, err), m', w')"
    using assms(3) pos by (simp add: ExpireDLQOlderThan_def time_Add_def)
  have d: "distinct ?qs" using range_orderD(1) [OF assms(2)] by simp
  have inq: "q \<in> set ?qs \<longleftrightarrow> IsDLQQueue q \<and> known m q" for q
    using range_orderD(3) [OF assms(2), of q] mgr_invD [OF assms(1), of q] by (auto simp: known_def)
  then have k: "\<forall>q \<in> set ?qs. known m q" by blast
  have cnt: "expired_count ?c (mTopics m q) = length (filter (expired ?c) (queued m q))" for q
    by (simp add: expired_count_def queued_def split: option.splits)
  show "n = (\<Sum>q \<leftarrow> ?qs. length (filter (expired ?c) (queued m q)))"
    using expire_queues_count [OF d k run] by (simp add: cnt)
  have unk: "\<not> known m q \<Longrightarrow> queued m q = []" for q
    using mgr_invD [OF assms(1), of q] by (auto simp: queued_def split: option.splits)
  show "\<forall>q. queued m' q = (if IsDLQQueue q then filter (\<lambda>x. \<not> expired ?c x) (queued m q) else queued m q)"
  proof
    fix q
    show "queued m' q = (if IsDLQQueue q then filter (\<lambda>x. \<not> expired ?c x) (queued m q) else queued m q)"
      using expire_queues_topics [OF d k run] inq [of q] unk [of q]
      by (cases "mTopics m q") (auto simp: queued_def expire_topic_def)
  qed
  show "\<forall>p. (\<forall>q. IsDLQQueue q \<longrightarrow> known m q \<longrightarrow> p \<noteq> qpath m q) \<longrightarrow> files w' p = files w p"
    using expire_queues_files [OF _ run] inq by blast
qed (use assms(3) in \<open>simp_all add: ExpireDLQOlderThan_def\<close>)

theorem expire_dlq_exact_witness:
  "\<exists>n err m' w'. ExpireDLQOlderThan 5 100 [''orders''] sample_manager sample_disk = ((n, err), m', w') \<and>
     n = 0 \<and> queued m' ''orders'' = queued sample_manager ''orders''"
proof -
  obtain n err m' w' where r: "ExpireDLQOlderThan 5 100 [''orders''] sample_manager sample_disk = ((n, err), m', w')"
    by (metis prod.exhaust)
  have o: "range_order [''orders''] (mWriters sample_manager)" by (auto simp: range_order_def sample_manager_def)
  have "\<not> IsDLQQueue ''orders''" by (simp add: IsDLQQueue_def HasSuffix_def DLQSuffix_def)
  with expire_dlq_exact [OF sample_manager_inv o r] r show ?thesis by auto
qed

end
