(* ===== verification/ConnMgr.thy ===== *)
theory ConnMgr
  imports Core JsonText Base64
begin

text \<open>
  Package \<open>internal/connmgr\<close>: a connected consumer (\<open>client.go\<close>) and the registry of the
  connected consumers (\<open>connmgr.go\<close>).

  A \<open>*Consumer\<close> is shared by the registry's two maps, the subscription that created it and
  the dispatcher that picked it, and outlives its deregistration. The consumers therefore live
  in a store, a map from addresses, and the registry holds addresses. The channel \<open>Send\<close> is
  its buffered messages and its capacity. The in-flight counter is an \<open>atomic.Int32\<close>, a
  32-bit word whose additions wrap.
\<close>

type_synonym cref = nat

record Consumer =
  cID :: string
  cQueue :: string
  cSend :: "Message list"
  cSendCap :: nat
  cPrefetchLimit :: int32
  cConnectedAt :: time
  cInFlight :: int32

type_synonym cstore = "cref \<rightharpoonup> Consumer"

record Registry =
  byQueue :: "string \<rightharpoonup> (string \<rightharpoonup> cref)"
  byID :: "string \<rightharpoonup> cref"

subsection \<open>client.go\<close>

text \<open>\<open>hex.EncodeToString\<close>.\<close>

definition hexdigits :: string where
  "hexdigits = ''0123456789abcdef''"

definition hextable :: "nat \<Rightarrow> char" where
  "hextable n = hexdigits ! n"

fun hex_EncodeToString :: "bytes \<Rightarrow> string" where
  "hex_EncodeToString [] = []"
| "hex_EncodeToString (b # bs) =
     hextable (unat b div 16) # hextable (unat b mod 16) # hex_EncodeToString bs"

text \<open>\<open>rnd\<close> is what \<open>rand.Read\<close> does with the buffer: an error, or the eight bytes it fills in.\<close>

definition newConsumerID :: "bytes option \<Rightarrow> error + string" where
  "newConsumerID rnd =
     (case rnd of None \<Rightarrow> Inl ErrRand | Some randomBytes \<Rightarrow> Inr (hex_EncodeToString randomBytes))"

definition NewConsumer :: "string \<Rightarrow> int32 \<Rightarrow> bytes option \<Rightarrow> time \<Rightarrow> error + Consumer" where
  "NewConsumer queue prefetchLimit rnd now =
     (case newConsumerID rnd of
        Inl err \<Rightarrow> Inl err
      | Inr cid \<Rightarrow>
          (let bufferSize = (if sint prefetchLimit < 1 then 1 else prefetchLimit) in
           Inr \<lparr>cID = cid, cQueue = queue, cSend = [], cSendCap = nat (sint bufferSize),
                cPrefetchLimit = prefetchLimit, cConnectedAt = now, cInFlight = 0\<rparr>))"

definition IsEligible :: "Consumer \<Rightarrow> bool" where
  "IsEligible c \<longleftrightarrow> sint (cInFlight c) < sint (cPrefetchLimit c)"

definition InFlight :: "Consumer \<Rightarrow> int32" where
  "InFlight c = cInFlight c"

definition Consumer_IncrementInFlight :: "Consumer \<Rightarrow> Consumer" where
  "Consumer_IncrementInFlight c = c\<lparr>cInFlight := cInFlight c + 1\<rparr>"

definition Consumer_DecrementInFlight :: "Consumer \<Rightarrow> Consumer" where
  "Consumer_DecrementInFlight c = c\<lparr>cInFlight := cInFlight c - 1\<rparr>"

subsection \<open>connmgr.go\<close>

definition NewRegistry :: Registry where
  "NewRegistry = \<lparr>byQueue = Map.empty, byID = Map.empty\<rparr>"

text \<open>\<open>r.byQueue[q]\<close> read: a missing entry is a nil map, which reads as empty.\<close>

definition queue_consumers :: "Registry \<Rightarrow> string \<Rightarrow> (string \<rightharpoonup> cref)" where
  "queue_consumers r q = (case byQueue r q of None \<Rightarrow> Map.empty | Some cs \<Rightarrow> cs)"

text \<open>\<open>Register\<close> of the consumer at address \<open>ref\<close>, whose fields are those of \<open>c\<close>.\<close>

definition Registry_Register :: "cref \<Rightarrow> Consumer \<Rightarrow> Registry \<Rightarrow> Registry" where
  "Registry_Register ref c r =
     (let bq = (if byQueue r (cQueue c) = None then (byQueue r)(cQueue c \<mapsto> Map.empty) else byQueue r);
          r1 = r\<lparr>byQueue := bq\<rparr>
      in r1\<lparr>byQueue := (byQueue r1)(cQueue c \<mapsto> (queue_consumers r1 (cQueue c))(cID c \<mapsto> ref)),
            byID := (byID r1)(cID c \<mapsto> ref)\<rparr>)"

text \<open>\<open>delete\<close> on a missing (nil) inner map does nothing.\<close>

definition Deregister :: "string \<Rightarrow> cstore \<Rightarrow> Registry \<Rightarrow> Registry" where
  "Deregister consumerID st r =
     (case byID r consumerID of
        None \<Rightarrow> r
      | Some ref \<Rightarrow>
          (case st ref of
             None \<Rightarrow> r
           | Some consumer \<Rightarrow>
               (case byQueue r (cQueue consumer) of
                  None \<Rightarrow> r\<lparr>byID := (byID r)(consumerID := None)\<rparr>
                | Some cs \<Rightarrow>
                    r\<lparr>byID := (byID r)(consumerID := None),
                      byQueue := (byQueue r)(cQueue consumer \<mapsto> cs(consumerID := None))\<rparr>)))"

text \<open>\<open>EligibleConsumers\<close>; \<open>order\<close> is the order in which the range visits the queue's map.\<close>

fun eligible_loop :: "string list \<Rightarrow> (string \<rightharpoonup> cref) \<Rightarrow> cstore \<Rightarrow> cref list" where
  "eligible_loop [] cs st = []"
| "eligible_loop (k # ks) cs st =
     (case cs k of
        None \<Rightarrow> eligible_loop ks cs st
      | Some ref \<Rightarrow>
          (case st ref of
             None \<Rightarrow> eligible_loop ks cs st
           | Some c \<Rightarrow> if IsEligible c then ref # eligible_loop ks cs st else eligible_loop ks cs st))"

definition EligibleConsumers :: "string \<Rightarrow> string list \<Rightarrow> Registry \<Rightarrow> cstore \<Rightarrow> cref list" where
  "EligibleConsumers queue order r st = eligible_loop order (queue_consumers r queue) st"

text \<open>A method call on the consumer a registry lookup returned, if it is not nil.\<close>

definition on_consumer :: "(Consumer \<Rightarrow> Consumer) \<Rightarrow> string \<Rightarrow> Registry \<Rightarrow> cstore \<Rightarrow> cstore" where
  "on_consumer f consumerID r st =
     (case byID r consumerID of
        None \<Rightarrow> st
      | Some ref \<Rightarrow> (case st ref of None \<Rightarrow> st | Some c \<Rightarrow> st(ref \<mapsto> f c)))"

definition Registry_IncrementInFlight :: "string \<Rightarrow> Registry \<Rightarrow> cstore \<Rightarrow> cstore" where
  "Registry_IncrementInFlight consumerID r st = on_consumer Consumer_IncrementInFlight consumerID r st"

definition Registry_DecrementInFlight :: "string \<Rightarrow> Registry \<Rightarrow> cstore \<Rightarrow> cstore" where
  "Registry_DecrementInFlight consumerID r st = on_consumer Consumer_DecrementInFlight consumerID r st"

subsection \<open>Consumer identifiers\<close>

lemma hextable_inj: "m < 16 \<Longrightarrow> n < 16 \<Longrightarrow> hextable m = hextable n \<Longrightarrow> m = n"
  by (auto simp: hextable_def hexdigits_def nth_eq_iff_index_eq)

lemma hex_inj: "hex_EncodeToString xs = hex_EncodeToString ys \<Longrightarrow> xs = ys"
proof (induction xs arbitrary: ys)
  case Nil
  then show ?case by (cases ys) auto
next
  case (Cons x xs)
  then obtain y ys' where ys: "ys = y # ys'" by (cases ys) auto
  have "unat x div 16 < 16" "unat y div 16 < 16" using unat_byte_less [of x] unat_byte_less [of y] by linarith+
  with Cons.prems ys have "unat x div 16 = unat y div 16" "unat x mod 16 = unat y mod 16"
    using hextable_inj [of "unat x mod 16" "unat y mod 16"] by (auto dest: hextable_inj)
  then have "unat x = unat y" by (metis div_mult_mod_eq)
  then have "x = y" by (simp add: word_unat_eq_iff)
  with Cons ys show ?case by auto
qed

lemma length_hex [simp]: "length (hex_EncodeToString bs) = 2 * length bs"
  by (induction bs) simp_all

lemma hextable_mem: "n < 16 \<Longrightarrow> hextable n \<in> set hexdigits"
  unfolding hextable_def by (rule nth_mem) (simp add: hexdigits_def)

lemma hex_alphabet: "set (hex_EncodeToString bs) \<subseteq> set hexdigits"
proof (induction bs)
  case (Cons b bs)
  have "unat b div 16 < 16" using unat_byte_less [of b] by linarith
  with Cons hextable_mem [of "unat b div 16"] hextable_mem [of "unat b mod 16"] show ?case
    by simp
qed simp

lemma valid_utf8_hex [simp]: "valid_utf8 (hex_EncodeToString bs)"
  using hex_alphabet [of bs] by (intro valid_utf8_ascii) (auto simp: hexdigits_def)

subsection \<open>The registry's invariant\<close>

text \<open>Every address of \<open>byID\<close> is a consumer of that name, listed under its queue, and the two
  maps agree.\<close>

definition reg_inv :: "Registry \<Rightarrow> cstore \<Rightarrow> bool" where
  "reg_inv r st \<longleftrightarrow>
     (\<forall>k ref. byID r k = Some ref \<longrightarrow>
        (\<exists>c. st ref = Some c \<and> cID c = k \<and> queue_consumers r (cQueue c) k = Some ref)) \<and>
     (\<forall>q k ref. queue_consumers r q k = Some ref \<longrightarrow>
        byID r k = Some ref \<and> (\<exists>c. st ref = Some c \<and> cQueue c = q))"

lemma reg_invD:
  assumes "reg_inv r st"
  shows "byID r k = Some ref \<Longrightarrow> \<exists>c. st ref = Some c \<and> cID c = k \<and> queue_consumers r (cQueue c) k = Some ref"
    and "queue_consumers r q k = Some ref \<Longrightarrow> byID r k = Some ref \<and> (\<exists>c. st ref = Some c \<and> cQueue c = q)"
  using assms by (auto simp: reg_inv_def)

text \<open>The registry's content: the connected consumers by name.\<close>

definition connected :: "Registry \<Rightarrow> cstore \<Rightarrow> string \<Rightarrow> Consumer option" where
  "connected r st k = (case byID r k of None \<Rightarrow> None | Some ref \<Rightarrow> st ref)"

lemma connected_iff: "connected r st k = Some c \<longleftrightarrow> (\<exists>ref. byID r k = Some ref \<and> st ref = Some c)"
  by (auto simp: connected_def split: option.splits)

lemma byID_inj: "reg_inv r st \<Longrightarrow> byID r k = Some ref \<Longrightarrow> byID r j = Some ref \<Longrightarrow> k = j"
  using reg_invD(1) [of r st k ref] reg_invD(1) [of r st j ref] by auto

lemma NewRegistry_inv: "reg_inv NewRegistry st" "connected NewRegistry st = Map.empty"
  by (auto simp: reg_inv_def NewRegistry_def queue_consumers_def connected_def)

lemma queue_consumers_Register:
  "queue_consumers (Registry_Register ref c r) q =
     (if q = cQueue c then (queue_consumers r q)(cID c \<mapsto> ref) else queue_consumers r q)"
  by (auto simp: Registry_Register_def queue_consumers_def Let_def)

lemma byID_Register [simp]: "byID (Registry_Register ref c r) = (byID r)(cID c \<mapsto> ref)"
  by (simp add: Registry_Register_def Let_def)

lemma Register_inv:
  assumes "reg_inv r st" "byID r (cID c) = None" "st ref = None"
  shows "reg_inv (Registry_Register ref c r) (st(ref \<mapsto> c))"
    and "connected (Registry_Register ref c r) (st(ref \<mapsto> c)) = (connected r st)(cID c \<mapsto> c)"
proof -
  have fresh: "byID r k \<noteq> Some ref" for k using reg_invD(1) [OF assms(1)] assms(3) by fastforce
  have none: "queue_consumers r q (cID c) = None" for q
    using reg_invD(2) [OF assms(1), of q "cID c"] assms(2) by (cases "queue_consumers r q (cID c)") auto
  show "reg_inv (Registry_Register ref c r) (st(ref \<mapsto> c))"
    using reg_invD [OF assms(1)] assms(2) fresh none
    by (auto simp: reg_inv_def queue_consumers_Register split: if_splits) fastforce+
  show "connected (Registry_Register ref c r) (st(ref \<mapsto> c)) = (connected r st)(cID c \<mapsto> c)"
    using fresh by (auto simp: connected_def fun_eq_iff split: option.splits)
qed

lemma Deregister_known:
  assumes "reg_inv r st" "byID r k = Some ref" "st ref = Some c"
  shows "Deregister k st r = r\<lparr>byID := (byID r)(k := None),
     byQueue := (byQueue r)(cQueue c \<mapsto> (queue_consumers r (cQueue c))(k := None))\<rparr>"
  using reg_invD(1) [OF assms(1,2)] assms(2,3)
  by (auto simp: Deregister_def queue_consumers_def split: option.splits)

lemma Deregister_unknown: "byID r k = None \<Longrightarrow> Deregister k st r = r"
  by (simp add: Deregister_def)

lemma Deregister_maps:
  assumes "reg_inv r st"
  shows "byID (Deregister k st r) = (byID r)(k := None)"
    and "queue_consumers (Deregister k st r) q = (queue_consumers r q)(k := None)"
proof -
  have "byID (Deregister k st r) = (byID r)(k := None) \<and>
    queue_consumers (Deregister k st r) q = (queue_consumers r q)(k := None)"
  proof (cases "byID r k")
    case None
    then have "queue_consumers r q k = None"
      using reg_invD(2) [OF assms, of q k] by (cases "queue_consumers r q k") auto
    with None show ?thesis by (auto simp: Deregister_unknown)
  next
    case (Some ref)
    then obtain c where c: "st ref = Some c" using reg_invD(1) [OF assms] by blast
    have "q \<noteq> cQueue c \<Longrightarrow> queue_consumers r q k = None"
      using reg_invD(2) [OF assms, of q k] Some c by (cases "queue_consumers r q k") auto
    then show ?thesis
      unfolding Deregister_known [OF assms Some c] by (auto simp: queue_consumers_def split: option.splits)
  qed
  then show "byID (Deregister k st r) = (byID r)(k := None)"
    "queue_consumers (Deregister k st r) q = (queue_consumers r q)(k := None)" by auto
qed

lemma Deregister_inv:
  assumes "reg_inv r st"
  shows "reg_inv (Deregister k st r) st" "connected (Deregister k st r) st = (connected r st)(k := None)"
  using reg_invD [OF assms] by (auto simp: reg_inv_def Deregister_maps [OF assms] connected_def fun_eq_iff)

subsection \<open>The in-flight counters\<close>

lemma on_consumer_inv:
  assumes "reg_inv r st" "\<And>c. cID (f c) = cID c" "\<And>c. cQueue (f c) = cQueue c"
  shows "reg_inv r (on_consumer f k r st)"
  using reg_invD [OF assms(1)] assms(2,3)
  by (auto simp: reg_inv_def on_consumer_def split: option.splits) fastforce+

lemma connected_on_consumer:
  assumes "reg_inv r st"
  shows "connected r (on_consumer f k r st) j =
    (if j = k then map_option f (connected r st k) else connected r st j)"
  using reg_invD(1) [OF assms] byID_inj [OF assms]
  by (auto simp: connected_def on_consumer_def split: option.splits)

definition count_of :: "Registry \<times> cstore \<Rightarrow> string \<Rightarrow> int32 option" where
  "count_of s k = map_option cInFlight (connected (fst s) (snd s) k)"

definition count_up :: "string \<Rightarrow> Registry \<times> cstore \<Rightarrow> Registry \<times> cstore" where
  "count_up k s = (fst s, Registry_IncrementInFlight k (fst s) (snd s))"

definition count_down :: "string \<Rightarrow> Registry \<times> cstore \<Rightarrow> Registry \<times> cstore" where
  "count_down k s = (fst s, Registry_DecrementInFlight k (fst s) (snd s))"

text \<open>What the dispatcher and the acknowledgement manager rely on: a counter per connected
  consumer, moved by one at a time and only by calls that name it.\<close>

locale inflight_counters =
  fixes inv :: "'s \<Rightarrow> bool"
    and up down :: "'k \<Rightarrow> 's \<Rightarrow> 's"
    and count :: "'s \<Rightarrow> 'k \<Rightarrow> int32 option"
  assumes inv_up: "inv s \<Longrightarrow> inv (up k s)" and inv_down: "inv s \<Longrightarrow> inv (down k s)"
    and count_up: "inv s \<Longrightarrow> count (up k s) j = (if j = k then map_option (\<lambda>n. n + 1) (count s k) else count s j)"
    and count_down: "inv s \<Longrightarrow> count (down k s) j = (if j = k then map_option (\<lambda>n. n - 1) (count s k) else count s j)"
begin

primrec move :: "'k \<times> bool \<Rightarrow> 's \<Rightarrow> 's" where
  "move (k, b) = (if b then up k else down k)"

text \<open>Any interleaving of increments and decrements leaves each counter at its value plus the
  increments less the decrements that name it.\<close>

lemma count_moves:
  "inv s \<Longrightarrow> count (fold move ms s) k =
     map_option (\<lambda>n. n + of_nat (count_list ms (k, True)) - of_nat (count_list ms (k, False))) (count s k)"
proof (induction ms arbitrary: s)
  case (Cons m ms)
  obtain j b where m: "m = (j, b)" by (cases m)
  have "inv (move m s)" using Cons.prems inv_up inv_down m by auto
  with Cons.IH have "count (fold move (m # ms) s) k =
      map_option (\<lambda>n. n + of_nat (count_list ms (k, True)) - of_nat (count_list ms (k, False))) (count (move m s) k)"
    by simp
  then show ?case using Cons.prems m by (cases b) (auto simp: count_up count_down option.map_comp o_def algebra_simps)
qed (simp add: option.map_ident)

lemma up_down: "inv s \<Longrightarrow> count (down k (up k s)) = count s"
  by (auto simp: fun_eq_iff count_up count_down inv_up option.map_comp o_def option.map_ident)

end

lemma Registry_counters:
  assumes "reg_inv r st"
  shows "reg_inv r (Registry_IncrementInFlight k r st)" "reg_inv r (Registry_DecrementInFlight k r st)"
    and "connected r (Registry_IncrementInFlight k r st) j =
      (if j = k then map_option Consumer_IncrementInFlight (connected r st k) else connected r st j)"
    and "connected r (Registry_DecrementInFlight k r st) j =
      (if j = k then map_option Consumer_DecrementInFlight (connected r st k) else connected r st j)"
  using assms
  by (auto simp: Registry_IncrementInFlight_def Registry_DecrementInFlight_def connected_on_consumer
      Consumer_IncrementInFlight_def Consumer_DecrementInFlight_def intro!: on_consumer_inv)

interpretation regc: inflight_counters "\<lambda>s. reg_inv (fst s) (snd s)" count_up count_down count_of
  by unfold_locales
    (auto simp: count_up_def count_down_def count_of_def Registry_counters option.map_comp o_def
      Consumer_IncrementInFlight_def Consumer_DecrementInFlight_def)

subsection \<open>Selecting consumers\<close>

lemma eligible_loop_filter:
  "eligible_loop ks cs st =
     map (the \<circ> cs) (filter (\<lambda>k. \<exists>ref c. cs k = Some ref \<and> st ref = Some c \<and> IsEligible c) ks)"
  by (induction ks) (auto split: option.splits)

lemma EligibleConsumers_set:
  assumes "reg_inv r st" "range_order order (queue_consumers r q)"
  shows "set (EligibleConsumers q order r st) =
    {ref. \<exists>k c. byID r k = Some ref \<and> st ref = Some c \<and> cQueue c = q \<and> IsEligible c}"
  using reg_invD [OF assms(1)] range_orderD(3) [OF assms(2)]
  by (auto simp: EligibleConsumers_def eligible_loop_filter image_iff) fastforce+

lemma EligibleConsumers_distinct:
  assumes "reg_inv r st" "range_order order (queue_consumers r q)"
  shows "distinct (EligibleConsumers q order r st)"
proof -
  have "inj_on (the \<circ> queue_consumers r q) (dom (queue_consumers r q))"
    using reg_invD(2) [OF assms(1)] byID_inj [OF assms(1)]
    by (auto simp: inj_on_def dom_def)
  then show ?thesis using assms(2)
    by (auto simp: EligibleConsumers_def eligible_loop_filter distinct_map range_order_def inj_on_def)
qed

end
