(* ===== verification/AckMgr.thy ===== *)
theory AckMgr
  imports Manager ConnMgr
begin

text \<open>
  Package \<open>internal/ackmgr\<close>: the in-flight map and what becomes of a message that is
  acknowledged, refused or timed out.

  The acknowledgement manager calls the queue manager and the registry, so its methods run on
  the broker's shared state: the world (files), the queue manager, the registry with the
  consumer store, and the in-flight map. Methods that read the clock take the reading; those
  that range over the in-flight map take the order of the visit.
\<close>

record inFlightEntry =
  eMessage :: Message
  eConsumerID :: string

record Broker =
  bWorld :: world
  bManager :: Manager
  bRegistry :: Registry
  bConsumers :: cstore
  bInFlight :: "MessageID \<rightharpoonup> inFlightEntry"
  bMaxRetries :: int32

subsection \<open>Calls into the other components\<close>

definition b_DecrementInFlight :: "string \<Rightarrow> Broker \<Rightarrow> Broker" where
  "b_DecrementInFlight consumerID b =
     b\<lparr>bConsumers := Registry_DecrementInFlight consumerID (bRegistry b) (bConsumers b)\<rparr>"

definition b_IncrementInFlight :: "string \<Rightarrow> Broker \<Rightarrow> Broker" where
  "b_IncrementInFlight consumerID b =
     b\<lparr>bConsumers := Registry_IncrementInFlight consumerID (bRegistry b) (bConsumers b)\<rparr>"

definition b_WriteTombstone :: "MessageID \<Rightarrow> string \<Rightarrow> Broker \<Rightarrow> error option \<times> Broker" where
  "b_WriteTombstone mid queue b =
     (case Manager_WriteTombstone mid queue (bManager b) (bWorld b) of
        (err, w) \<Rightarrow> (err, b\<lparr>bWorld := w\<rparr>))"

definition b_Enqueue :: "Message \<Rightarrow> Broker \<Rightarrow> error option \<times> Broker" where
  "b_Enqueue msg b =
     (case Manager_Enqueue msg (bManager b) (bWorld b) of
        (err, m, w) \<Rightarrow> (err, b\<lparr>bManager := m, bWorld := w\<rparr>))"

subsection \<open>ackmgr.go\<close>

text \<open>\<open>NewAckManager\<close>: an empty in-flight map over the given manager and registry.\<close>

definition NewAckManager :: "world \<Rightarrow> Manager \<Rightarrow> Registry \<Rightarrow> int32 \<Rightarrow> Broker" where
  "NewAckManager w manager registry maxRetries =
     \<lparr>bWorld = w, bManager = manager, bRegistry = registry, bConsumers = Map.empty,
      bInFlight = Map.empty, bMaxRetries = maxRetries\<rparr>"

definition Ack_Register :: "Message \<Rightarrow> string \<Rightarrow> Broker \<Rightarrow> Broker" where
  "Ack_Register msg consumerID b =
     b\<lparr>bInFlight := (bInFlight b)(ID msg \<mapsto> \<lparr>eMessage = msg, eConsumerID = consumerID\<rparr>)\<rparr>"

definition drop_entry :: "MessageID \<Rightarrow> Broker \<Rightarrow> Broker" where
  "drop_entry mid b = b\<lparr>bInFlight := (bInFlight b)(mid := None)\<rparr>"

definition Unregister :: "MessageID \<Rightarrow> Broker \<Rightarrow> Broker" where
  "Unregister mid b =
     (case bInFlight b mid of
        None \<Rightarrow> b
      | Some entry \<Rightarrow> b_DecrementInFlight (eConsumerID entry) (drop_entry mid b))"

definition Ack :: "MessageID \<Rightarrow> Broker \<Rightarrow> error option \<times> Broker" where
  "Ack mid b =
     (case bInFlight b mid of
        None \<Rightarrow> (None, b)
      | Some entry \<Rightarrow>
          b_WriteTombstone mid (Queue (eMessage entry))
            (b_DecrementInFlight (eConsumerID entry) (drop_entry mid b)))"

definition nackEntry :: "time \<Rightarrow> inFlightEntry \<Rightarrow> Broker \<Rightarrow> error option \<times> Broker" where
  "nackEntry now entry b =
     (let b1 = b_DecrementInFlight (eConsumerID entry) b;
          msg = eMessage entry
      in if sint (bMaxRetries b1) \<le> sint (RetryCount msg)
         then b_Enqueue (msg\<lparr>Queue := Queue msg @ DLQSuffix, EnqueueTime := now, Status := StatusDead\<rparr>) b1
         else b_Enqueue (WithRetry msg) b1)"

definition Nack :: "time \<Rightarrow> MessageID \<Rightarrow> Broker \<Rightarrow> error option \<times> Broker" where
  "Nack now mid b =
     (case bInFlight b mid of
        None \<Rightarrow> (None, b)
      | Some entry \<Rightarrow> nackEntry now entry (drop_entry mid b))"

text \<open>The two scans first move the entries that satisfy a condition out of the map.\<close>

fun collect_entries :: "(inFlightEntry \<Rightarrow> bool) \<Rightarrow> MessageID list \<Rightarrow> inFlightEntry list \<Rightarrow> Broker
    \<Rightarrow> inFlightEntry list \<times> Broker" where
  "collect_entries P [] acc b = (acc, b)"
| "collect_entries P (mid # mids) acc b =
     (case bInFlight b mid of
        None \<Rightarrow> collect_entries P mids acc b
      | Some entry \<Rightarrow>
          if P entry then collect_entries P mids (acc @ [entry]) (drop_entry mid b)
          else collect_entries P mids acc b)"

text \<open>\<open>clock\<close> gives the reading made while the entry of a message is handled.\<close>

fun nack_all :: "(MessageID \<Rightarrow> time) \<Rightarrow> inFlightEntry list \<Rightarrow> error option \<Rightarrow> Broker \<Rightarrow> error option \<times> Broker" where
  "nack_all clock [] firstErr b = (firstErr, b)"
| "nack_all clock (entry # es) firstErr b =
     (case nackEntry (clock (ID (eMessage entry))) entry b of
        (err, b') \<Rightarrow>
          if err = Some ErrPanic then (err, b')
          else nack_all clock es (first_err firstErr err) b')"

definition ScanAndTimeout :: "duration \<Rightarrow> time \<Rightarrow> (MessageID \<Rightarrow> time) \<Rightarrow> MessageID list \<Rightarrow> Broker
    \<Rightarrow> error option \<times> Broker" where
  "ScanAndTimeout dispatchTimeout now clock order b =
     (let threshold = time_Add now (- dispatchTimeout) in
      case collect_entries (\<lambda>e. time_Before (DispatchedAt (eMessage e)) threshold) order [] b of
        (timedOut, b1) \<Rightarrow> nack_all clock timedOut None b1)"

fun expire_all :: "inFlightEntry list \<Rightarrow> error option \<Rightarrow> Broker \<Rightarrow> error option \<times> Broker" where
  "expire_all [] firstErr b = (firstErr, b)"
| "expire_all (entry # es) firstErr b =
     (case b_WriteTombstone (ID (eMessage entry)) (Queue (eMessage entry))
             (b_DecrementInFlight (eConsumerID entry) b) of
        (err, b') \<Rightarrow> expire_all es (first_err firstErr err) b')"

definition ExpireDLQInFlight :: "time \<Rightarrow> MessageID list \<Rightarrow> Broker \<Rightarrow> (nat \<times> error option) \<times> Broker" where
  "ExpireDLQInFlight cutoff order b =
     (case collect_entries (\<lambda>e. IsDLQQueue (Queue (eMessage e)) \<and> time_Before (EnqueueTime (eMessage e)) cutoff)
             order [] b of
        (es, b1) \<Rightarrow>
          (case expire_all es None b1 of (firstErr, b2) \<Rightarrow> ((length es, firstErr), b2)))"

text \<open>\<open>WaitDrained\<close> polls while other goroutines work: \<open>obs\<close> holds, per iteration, the clock
  reading of the loop test and the number of in-flight entries read after it (on the last
  iteration, by the final check). \<open>None\<close>: still polling at the end of the observations.\<close>

fun wait_loop :: "time \<Rightarrow> (time \<times> nat) list \<Rightarrow> bool option" where
  "wait_loop deadline [] = None"
| "wait_loop deadline ((t, n) # obs) =
     (if time_Before t deadline
      then (if n = 0 then Some True else wait_loop deadline obs)
      else Some (n = 0))"

definition WaitDrained :: "duration \<Rightarrow> time \<Rightarrow> (time \<times> nat) list \<Rightarrow> bool option" where
  "WaitDrained timeout now obs = wait_loop (time_Add now timeout) obs"

subsection \<open>Frames\<close>

lemma b_frame [frame_simps, simp]:
  "bInFlight (b_DecrementInFlight c b) = bInFlight b" "bManager (b_DecrementInFlight c b) = bManager b"
  "bWorld (b_DecrementInFlight c b) = bWorld b" "bRegistry (b_DecrementInFlight c b) = bRegistry b"
  "bMaxRetries (b_DecrementInFlight c b) = bMaxRetries b"
  "bInFlight (b_IncrementInFlight c b) = bInFlight b" "bManager (b_IncrementInFlight c b) = bManager b"
  "bWorld (b_IncrementInFlight c b) = bWorld b" "bRegistry (b_IncrementInFlight c b) = bRegistry b"
  "bMaxRetries (b_IncrementInFlight c b) = bMaxRetries b"
  "bInFlight (drop_entry i b) = (bInFlight b)(i := None)" "bManager (drop_entry i b) = bManager b"
  "bWorld (drop_entry i b) = bWorld b" "bRegistry (drop_entry i b) = bRegistry b"
  "bMaxRetries (drop_entry i b) = bMaxRetries b" "bConsumers (drop_entry i b) = bConsumers b"
  "bInFlight (Ack_Register msg c b) = (bInFlight b)(ID msg \<mapsto> \<lparr>eMessage = msg, eConsumerID = c\<rparr>)"
  "bManager (Ack_Register msg c b) = bManager b" "bWorld (Ack_Register msg c b) = bWorld b"
  "bRegistry (Ack_Register msg c b) = bRegistry b" "bConsumers (Ack_Register msg c b) = bConsumers b"
  "bMaxRetries (Ack_Register msg c b) = bMaxRetries b"
  by (simp_all add: b_DecrementInFlight_def b_IncrementInFlight_def drop_entry_def Ack_Register_def)

lemma b_Enqueue_frame [frame_simps, simp]:
  "bInFlight (snd (b_Enqueue msg b)) = bInFlight b" "bRegistry (snd (b_Enqueue msg b)) = bRegistry b"
  "bConsumers (snd (b_Enqueue msg b)) = bConsumers b" "bMaxRetries (snd (b_Enqueue msg b)) = bMaxRetries b"
  by (simp_all add: b_Enqueue_def split: prod.splits)

lemma b_WriteTombstone_frame [frame_simps, simp]:
  "bInFlight (snd (b_WriteTombstone i q b)) = bInFlight b" "bRegistry (snd (b_WriteTombstone i q b)) = bRegistry b"
  "bConsumers (snd (b_WriteTombstone i q b)) = bConsumers b" "bMaxRetries (snd (b_WriteTombstone i q b)) = bMaxRetries b"
  "bManager (snd (b_WriteTombstone i q b)) = bManager b"
  by (simp_all add: b_WriteTombstone_def split: prod.splits)

subsection \<open>Acknowledgement\<close>

text \<open>The in-flight map is keyed by the messages' identifiers.\<close>

definition ack_inv :: "Broker \<Rightarrow> bool" where
  "ack_inv b \<longleftrightarrow> (\<forall>i e. bInFlight b i = Some e \<longrightarrow> ID (eMessage e) = i)"

lemma ack_invD: "ack_inv b \<Longrightarrow> bInFlight b i = Some e \<Longrightarrow> ID (eMessage e) = i"
  by (simp add: ack_inv_def)

lemma ack_inv_Register: "ack_inv b \<Longrightarrow> ack_inv (Ack_Register msg c b)"
  by (simp add: ack_inv_def)

lemma ack_inv_restrict:
  "ack_inv b \<Longrightarrow> (\<And>i. bInFlight b' i = None \<or> bInFlight b' i = bInFlight b i) \<Longrightarrow> ack_inv b'"
  unfolding ack_inv_def by (metis option.distinct(1))

lemma Ack_unknown: "bInFlight b i = None \<Longrightarrow> Ack i b = (None, b)"
  and Nack_unknown: "bInFlight b i = None \<Longrightarrow> Nack now i b = (None, b)"
  by (simp_all add: Ack_def Nack_def)

lemma Ack_inFlight [simp]: "bInFlight (snd (Ack i b)) = (bInFlight b)(i := None)"
  by (auto simp: Ack_def split: option.splits)

lemma Ack_known:
  assumes "bInFlight b i = Some e" "Ack i b = (err, b')"
  shows "bManager b' = bManager b" "bRegistry b' = bRegistry b" "bMaxRetries b' = bMaxRetries b"
    "bConsumers b' = Registry_DecrementInFlight (eConsumerID e) (bRegistry b) (bConsumers b)"
    "Manager_WriteTombstone i (Queue (eMessage e)) (bManager b) (bWorld b) = (err, bWorld b')"
  using assms by (auto simp: Ack_def b_WriteTombstone_def b_DecrementInFlight_def drop_entry_def split: prod.splits)

text \<open>An identifier with a tombstone in the log is never replayed, whatever is appended later.\<close>

lemma tombstone_final:
  "tombstone_record i \<in> set rs \<Longrightarrow> i \<notin> ID ` set (live_messages (rs @ rs'))"
  by (force simp: live_messages_def tombs_of_def image_iff)

lemma Ack_durable:
  assumes e: "bInFlight b i = Some e" "Queue (eMessage e) = q"
    and q: "queue_open q rs (bManager b) (bWorld b)" "tombstone_ok i" and run: "Ack i b = (None, b')"
  shows "queue_open q (rs @ [tombstone_record i]) (bManager b') (bWorld b')"
    and "i \<notin> ID ` set (live_messages ((rs @ [tombstone_record i]) @ rs'))"
proof -
  show "queue_open q (rs @ [tombstone_record i]) (bManager b') (bWorld b')"
    using Tombstone_success [OF q(1) q(2)] Ack_known [OF e(1) run] e(2) by auto
  show "i \<notin> ID ` set (live_messages ((rs @ [tombstone_record i]) @ rs'))"
    by (rule tombstone_final) simp
qed

subsection \<open>Refusal: retry or dead letter\<close>

text \<open>The message that \<open>nackEntry\<close> enqueues.\<close>

definition nack_target :: "int32 \<Rightarrow> time \<Rightarrow> Message \<Rightarrow> Message" where
  "nack_target maxRetries now msg =
     (if sint maxRetries \<le> sint (RetryCount msg)
      then msg\<lparr>Queue := Queue msg @ DLQSuffix, EnqueueTime := now, Status := StatusDead\<rparr>
      else WithRetry msg)"

lemma nackEntry_target:
  "nackEntry now e b =
     b_Enqueue (nack_target (bMaxRetries b) now (eMessage e)) (b_DecrementInFlight (eConsumerID e) b)"
  by (simp add: nackEntry_def nack_target_def Let_def)

lemma nack_target_simps [simp]:
  "ID (nack_target mr now msg) = ID msg" "Payload (nack_target mr now msg) = Payload msg"
  "Headers (nack_target mr now msg) = Headers msg"
  by (simp_all add: nack_target_def)

lemma nackEntry_frame [frame_simps, simp]:
  "bInFlight (snd (nackEntry now e b)) = bInFlight b" "bRegistry (snd (nackEntry now e b)) = bRegistry b"
  "bMaxRetries (snd (nackEntry now e b)) = bMaxRetries b"
  "bConsumers (snd (nackEntry now e b)) = Registry_DecrementInFlight (eConsumerID e) (bRegistry b) (bConsumers b)"
  by (simp_all add: nackEntry_target) (simp add: b_DecrementInFlight_def)

lemma Nack_inFlight [simp]: "bInFlight (snd (Nack now i b)) = (bInFlight b)(i := None)"
  by (auto simp: Nack_def split: option.splits)

lemma nackEntry_run:
  assumes "nackEntry now e b = (err, b')"
  shows "Manager_Enqueue (nack_target (bMaxRetries b) now (eMessage e)) (bManager b) (bWorld b) =
    (err, bManager b', bWorld b')"
  using assms by (auto simp: nackEntry_target b_Enqueue_def split: prod.splits)

lemma Nack_known:
  assumes "bInFlight b i = Some e" "Nack now i b = (err, b')"
  shows "Manager_Enqueue (nack_target (bMaxRetries b) now (eMessage e)) (bManager b) (bWorld b) =
      (err, bManager b', bWorld b')"
    "bRegistry b' = bRegistry b" "bMaxRetries b' = bMaxRetries b"
    "bConsumers b' = Registry_DecrementInFlight (eConsumerID e) (bRegistry b) (bConsumers b)"
proof -
  have n: "nackEntry now e (drop_entry i b) = (err, b')" using assms by (simp add: Nack_def)
  show "Manager_Enqueue (nack_target (bMaxRetries b) now (eMessage e)) (bManager b) (bWorld b) =
      (err, bManager b', bWorld b')" using nackEntry_run [OF n] by simp
  show "bRegistry b' = bRegistry b" "bMaxRetries b' = bMaxRetries b"
    "bConsumers b' = Registry_DecrementInFlight (eConsumerID e) (bRegistry b) (bConsumers b)"
    using nackEntry_frame [of now e "drop_entry i b"] n by simp_all
qed

subsection \<open>Scans\<close>

lemma collect_entries_result:
  "distinct order \<Longrightarrow> collect_entries P order acc b =
     (acc @ map (the \<circ> bInFlight b) (filter (\<lambda>i. \<exists>e. bInFlight b i = Some e \<and> P e) order),
      b\<lparr>bInFlight := (\<lambda>i. if i \<in> set order \<and> (\<exists>e. bInFlight b i = Some e \<and> P e) then None else bInFlight b i)\<rparr>)"
proof (induction order arbitrary: acc b)
  case (Cons i order)
  show ?case
  proof (cases "\<exists>e. bInFlight b i = Some e \<and> P e")
    case True
    then obtain e where e: "bInFlight b i = Some e" "P e" by blast
    have "filter (\<lambda>j. \<exists>e. ((bInFlight b)(i := None)) j = Some e \<and> P e) order =
        filter (\<lambda>j. \<exists>e. bInFlight b j = Some e \<and> P e) order"
      using Cons.prems by (intro filter_cong) auto
    moreover have "map (the \<circ> (bInFlight b)(i := None)) (filter R order) = map (the \<circ> bInFlight b) (filter R order)" for R
      using Cons.prems by (intro map_cong) auto
    moreover have "(\<lambda>j. if j \<in> set order \<and> (\<exists>e. ((bInFlight b)(i := None)) j = Some e \<and> P e) then None
          else ((bInFlight b)(i := None)) j) =
        (\<lambda>j. if j \<in> set (i # order) \<and> (\<exists>e. bInFlight b j = Some e \<and> P e) then None else bInFlight b j)"
      using e by (intro ext) auto
    ultimately show ?thesis using Cons e by (simp add: drop_entry_def del: fun_upd_apply cong: if_cong)
  next
    case False
    then have "collect_entries P (i # order) acc b = collect_entries P order acc b"
      by (auto split: option.splits)
    moreover have "j \<in> set (i # order) \<and> (\<exists>e. bInFlight b j = Some e \<and> P e) \<longleftrightarrow>
        j \<in> set order \<and> (\<exists>e. bInFlight b j = Some e \<and> P e)" for j using False by auto
    ultimately show ?thesis using Cons False by simp
  qed
qed simp

text \<open>The part of the in-flight map that a scan keeps.\<close>

definition keep_entries :: "(inFlightEntry \<Rightarrow> bool) \<Rightarrow> (MessageID \<rightharpoonup> inFlightEntry) \<Rightarrow> MessageID \<rightharpoonup> inFlightEntry" where
  "keep_entries P m = (\<lambda>i. case m i of None \<Rightarrow> None | Some e \<Rightarrow> if P e then None else Some e)"

lemma collect_entries_all:
  assumes "range_order order (bInFlight b)" "collect_entries P order [] b = (es, b1)"
  shows "b1 = b\<lparr>bInFlight := keep_entries P (bInFlight b)\<rparr>"
    and "es = map (the \<circ> bInFlight b) (filter (\<lambda>i. \<exists>e. bInFlight b i = Some e \<and> P e) order)"
    and "set es = {e. \<exists>i. bInFlight b i = Some e \<and> P e}"
proof -
  note r = collect_entries_result [OF range_orderD(1) [OF assms(1)], of P "[]" b]
  have "(if i \<in> set order \<and> (\<exists>e. bInFlight b i = Some e \<and> P e) then None else bInFlight b i) =
      keep_entries P (bInFlight b) i" for i
    using range_orderD(3) [OF assms(1), of i] by (auto simp: keep_entries_def split: option.splits)
  then show "b1 = b\<lparr>bInFlight := keep_entries P (bInFlight b)\<rparr>" using r assms(2) by simp
  show es: "es = map (the \<circ> bInFlight b) (filter (\<lambda>i. \<exists>e. bInFlight b i = Some e \<and> P e) order)"
    using r assms(2) by simp
  show "set es = {e. \<exists>i. bInFlight b i = Some e \<and> P e}"
    unfolding es using range_orderD(3) [OF assms(1)] by (force simp: image_iff)
qed

lemma nack_all_frame:
  "nack_all clock es fe b = (err, b') \<Longrightarrow>
     bInFlight b' = bInFlight b \<and> bRegistry b' = bRegistry b \<and> bMaxRetries b' = bMaxRetries b"
proof (induction es arbitrary: fe b)
  case (Cons e es)
  obtain err1 b1 where n: "nackEntry (clock (ID (eMessage e))) e b = (err1, b1)" by (metis prod.exhaust)
  with nackEntry_frame [of "clock (ID (eMessage e))" e b] Cons show ?case by (auto split: if_splits)
qed simp

text \<open>A scan that reports no error has enqueued every entry it took out of the map.\<close>

lemma nack_all_queued:
  "nack_all clock es None b = (None, b') \<Longrightarrow>
     (\<forall>e \<in> set es. let t = nack_target (bMaxRetries b) (clock (ID (eMessage e))) (eMessage e) in
        t \<in> set (queued (bManager b') (Queue t))) \<and>
     (\<forall>q. set (queued (bManager b) q) \<subseteq> set (queued (bManager b') q))"
proof (induction es arbitrary: b)
  case (Cons e es)
  let ?t = "nack_target (bMaxRetries b) (clock (ID (eMessage e))) (eMessage e)"
  obtain err1 b1 where n: "nackEntry (clock (ID (eMessage e))) e b = (err1, b1)" by (metis prod.exhaust)
  have fe: "nack_all clock es' (Some x) b2 \<noteq> (None, b')" for es' x b2
  proof (induction es' arbitrary: b2)
    case (Cons e' es')
    then show ?case by (auto split: prod.splits)
  qed simp
  have e1: "err1 = None" and rest: "nack_all clock es None b1 = (None, b')"
    using Cons.prems n fe by (auto split: if_splits) (metis first_err_simps(2) not_None_eq)+
  note run = nackEntry_run [OF n]
  have "?t \<in> set (queued (bManager b1) (Queue ?t))"
    using Manager_Enqueue_queued(2) [OF run] e1 by fastforce
  moreover have "set (queued (bManager b) q) \<subseteq> set (queued (bManager b1) q)" for q
    using Enqueue_monotone [OF run] by blast
  moreover have "bMaxRetries b1 = bMaxRetries b"
    using nackEntry_frame(3) [of "clock (ID (eMessage e))" e b] n by simp
  ultimately show ?case using Cons.IH [OF rest] by (simp add: Let_def) blast
qed simp

lemma nack_all_counters:
  "nack_all clock es fe b = (err, b') \<Longrightarrow> err \<noteq> Some ErrPanic \<Longrightarrow>
     (bRegistry b', bConsumers b') =
       fold regc.move (map (\<lambda>e. (eConsumerID e, False)) es) (bRegistry b, bConsumers b)"
proof (induction es arbitrary: fe b)
  case (Cons e es)
  obtain err1 b1 where n: "nackEntry (clock (ID (eMessage e))) e b = (err1, b1)" by (metis prod.exhaust)
  then have "(bRegistry b1, bConsumers b1) = count_down (eConsumerID e) (bRegistry b, bConsumers b)"
    using nackEntry_frame [of "clock (ID (eMessage e))" e b] by (simp add: count_down_def)
  with Cons n show ?case by (auto split: if_splits)
qed simp

lemma count_list_decrements:
  "count_list (map (\<lambda>e. (f e, False)) es) (k, False) = length (filter (\<lambda>e. f e = k) es)"
  "count_list (map (\<lambda>e. (f e, False)) es) (k, True) = 0"
  by (induction es) simp_all

lemma expire_all_frame:
  "expire_all es fe b = (err, b') \<Longrightarrow>
     bInFlight b' = bInFlight b \<and> bRegistry b' = bRegistry b \<and> bManager b' = bManager b \<and>
     (bRegistry b', bConsumers b') =
       fold regc.move (map (\<lambda>e. (eConsumerID e, False)) es) (bRegistry b, bConsumers b)"
proof (induction es arbitrary: fe b)
  case (Cons e es)
  obtain err1 b1 where n: "b_WriteTombstone (ID (eMessage e)) (Queue (eMessage e))
      (b_DecrementInFlight (eConsumerID e) b) = (err1, b1)" by (metis prod.exhaust)
  then have "(bRegistry b1, bConsumers b1) = count_down (eConsumerID e) (bRegistry b, bConsumers b)"
    "bInFlight b1 = bInFlight b" "bManager b1 = bManager b" "bRegistry b1 = bRegistry b"
    using b_WriteTombstone_frame [of "ID (eMessage e)" "Queue (eMessage e)" "b_DecrementInFlight (eConsumerID e) b"]
    by (simp_all add: count_down_def b_DecrementInFlight_def)
  with Cons.IH [of "first_err fe err1" b1] Cons.prems n show ?case by auto
qed simp

text \<open>The decrements of a scan, per consumer.\<close>

lemma scan_counters:
  assumes "reg_inv r st" "(r', st') = fold regc.move (map (\<lambda>e. (eConsumerID e, False)) es) (r, st)"
  shows "count_of (r', st') k =
    map_option (\<lambda>n. n - of_nat (length (filter (\<lambda>e. eConsumerID e = k) es))) (count_of (r, st) k)"
  using regc.count_moves [of "(r, st)" "map (\<lambda>e. (eConsumerID e, False)) es" k] assms
  by (simp add: count_list_decrements)

subsection \<open>Draining\<close>

lemma wait_loop_returns:
  assumes "\<And>i. Suc i < length obs \<Longrightarrow> fst (obs ! i) + step \<le> fst (obs ! Suc i)" "0 < step"
    and "deadline \<le> t0 + step * int n" "obs \<noteq> []" "t0 \<le> fst (obs ! 0)" "n < length obs"
  shows "wait_loop deadline obs \<noteq> None"
  using assms
proof (induction obs arbitrary: t0 n)
  case (Cons x obs)
  obtain t k where x: "x = (t, k)" by (cases x)
  show ?case
  proof (cases "t < deadline \<and> k \<noteq> 0")
    case True
    then obtain n' where n: "n = Suc n'" using Cons.prems(3,5) x by (cases n) auto
    then have ne: "obs \<noteq> []" using Cons.prems(6) by auto
    have "fst (obs ! i) + step \<le> fst (obs ! Suc i)" if "Suc i < length obs" for i
      using Cons.prems(1) [of "Suc i"] that by simp
    moreover have "t0 + step \<le> fst (obs ! 0)" using Cons.prems(1) [of 0] Cons.prems(5) ne x by (cases obs) auto
    moreover have "deadline \<le> (t0 + step) + step * int n'" using Cons.prems(3) n by (simp add: algebra_simps)
    ultimately show ?thesis using Cons.IH [of "t0 + step" n'] Cons.prems(2,6) ne n True x
      by (simp add: time_Before_def)
  next
    case False
    then have "wait_loop deadline (x # obs) = Some (k = 0)" by (auto simp: x time_Before_def)
    then show ?thesis by simp
  qed
qed simp

lemma wait_loop_true: "wait_loop deadline obs = Some True \<Longrightarrow> \<exists>t. (t, 0) \<in> set obs"
  by (induction deadline obs rule: wait_loop.induct) (auto split: if_splits)

lemma wait_loop_false:
  "wait_loop deadline obs = Some False \<Longrightarrow> \<exists>t n. (t, n) \<in> set obs \<and> deadline \<le> t \<and> n \<noteq> 0"
  by (induction deadline obs rule: wait_loop.induct) (fastforce simp: time_Before_def split: if_splits)+

end
