(* ===== verification/Dispatcher.thy ===== *)
theory Dispatcher
  imports AckMgr
begin

text \<open>
  Package \<open>internal/dispatcher\<close>: the delivery loop of one queue. The goroutine is a program
  counter with the variables that are live there; \<open>Run\<close> is one step function, cut at the calls
  that other goroutines can interleave with. A step takes what the environment decides: the
  order in which the registry ranges over the queue's consumers, the clock, whether the context
  is cancelled, and which ready case a \<open>select\<close> takes.
\<close>

datatype dispatcher =
    DDequeue                    \<comment> \<open>at \<open>queueManager.Dequeue\<close>\<close>
  | DSelect Message             \<comment> \<open>holds a message, at the top of the inner loop\<close>
  | DPicked Message cref        \<comment> \<open>a consumer is chosen, before \<open>IncrementInFlight\<close>\<close>
  | DCounted Message cref       \<comment> \<open>before \<open>ackManager.Register\<close>\<close>
  | DSending Message cref       \<comment> \<open>registered, at the \<open>select\<close> on \<open>consumer.Send\<close>\<close>
  | DReturned

definition inflight_key :: "cstore \<Rightarrow> cref \<Rightarrow> int" where
  "inflight_key st ref = (case st ref of None \<Rightarrow> 0 | Some c \<Rightarrow> sint (InFlight c))"

text \<open>\<open>sort.Slice\<close> is not stable; which of several least loaded consumers comes first is
  already open, since \<open>consumers\<close> is in the order of a map iteration.\<close>

definition leastInFlight :: "cstore \<Rightarrow> cref list \<Rightarrow> cref" where
  "leastInFlight st consumers = hd (sort_key (inflight_key st) consumers)"

text \<open>The identifier of the consumer at an address.\<close>

definition ref_ID :: "Broker \<Rightarrow> cref \<Rightarrow> string" where
  "ref_ID b ref = (case bConsumers b ref of None \<Rightarrow> [] | Some c \<Rightarrow> cID c)"

definition chan_full :: "Broker \<Rightarrow> cref \<Rightarrow> bool" where
  "chan_full b ref = (case bConsumers b ref of None \<Rightarrow> True | Some c \<Rightarrow> cSendCap c \<le> length (cSend c))"

definition chan_push :: "cref \<Rightarrow> Message \<Rightarrow> Broker \<Rightarrow> Broker" where
  "chan_push ref msg b =
     (case bConsumers b ref of
        None \<Rightarrow> b
      | Some c \<Rightarrow> b\<lparr>bConsumers := (bConsumers b)(ref \<mapsto> c\<lparr>cSend := cSend c @ [msg]\<rparr>)\<rparr>)"

definition stamp :: "time \<Rightarrow> Message \<Rightarrow> Message" where
  "stamp now msg = msg\<lparr>DispatchedAt := now, Status := StatusInFlight\<rparr>"

text \<open>
  One step of \<open>Run\<close>. A blocked \<open>Dequeue\<close>, the wait for an eligible consumer and a full channel
  without cancellation leave the program counter where it is. \<open>preferDone\<close> decides the last
  \<open>select\<close> when both of its cases are ready.
\<close>

fun Run :: "string list \<Rightarrow> time \<Rightarrow> bool \<Rightarrow> bool \<Rightarrow> string \<Rightarrow> dispatcher \<Rightarrow> Broker \<Rightarrow> dispatcher \<times> Broker" where
  "Run order now ctxDone preferDone queueName DDequeue b =
     (case Manager_Dequeue queueName (bManager b) (bWorld b) of
        (res, m, w) \<Rightarrow>
          (let b' = b\<lparr>bManager := m, bWorld := w\<rparr> in
           case res of
             None \<Rightarrow> (DDequeue, b')
           | Some (msg, ok) \<Rightarrow> (if ok then DSelect msg else DReturned, b')))"
| "Run order now ctxDone preferDone queueName (DSelect msg) b =
     (if ctxDone then (DReturned, b)
      else
        (let eligible = EligibleConsumers queueName order (bRegistry b) (bConsumers b) in
         if eligible = [] then (DSelect msg, b)
         else (DPicked msg (leastInFlight (bConsumers b) eligible), b)))"
| "Run order now ctxDone preferDone queueName (DPicked msg ref) b =
     (DCounted msg ref, b_IncrementInFlight (ref_ID b ref) b)"
| "Run order now ctxDone preferDone queueName (DCounted msg ref) b =
     (let msg' = stamp now msg in (DSending msg' ref, Ack_Register msg' (ref_ID b ref) b))"
| "Run order now ctxDone preferDone queueName (DSending msg ref) b =
     (if \<not> chan_full b ref \<and> \<not> (ctxDone \<and> preferDone) then (DDequeue, chan_push ref msg b)
      else if ctxDone then (DReturned, Unregister (ID msg) b)
      else (DSending msg ref, b))"
| "Run order now ctxDone preferDone queueName DReturned b = (DReturned, b)"

subsection \<open>Choosing a consumer\<close>

lemma leastInFlight_min:
  assumes "consumers \<noteq> []"
  shows "leastInFlight st consumers \<in> set consumers"
    and "\<And>ref. ref \<in> set consumers \<Longrightarrow> inflight_key st (leastInFlight st consumers) \<le> inflight_key st ref"
proof -
  let ?s = "sort_key (inflight_key st) consumers"
  have ne: "?s \<noteq> []" using assms by (metis length_0_conv length_sort)
  then show "leastInFlight st consumers \<in> set consumers"
    unfolding leastInFlight_def by (metis hd_in_set set_sort)
  fix ref assume "ref \<in> set consumers"
  then obtain i where i: "i < length ?s" "ref = ?s ! i" by (metis in_set_conv_nth set_sort)
  have "sorted (map (inflight_key st) ?s)" by (rule sorted_sort_key)
  then have "map (inflight_key st) ?s ! 0 \<le> map (inflight_key st) ?s ! i"
    using i ne by (intro sorted_nth_mono) auto
  then show "inflight_key st (leastInFlight st consumers) \<le> inflight_key st ref"
    using i ne assms nth_map [of 0 ?s "inflight_key st"] by (simp add: leastInFlight_def hd_conv_nth)
qed

text \<open>The dispatcher picks a connected consumer of its queue that is below its limit and no
  busier than any other such consumer.\<close>

lemma Run_picks:
  assumes inv: "reg_inv (bRegistry b) (bConsumers b)"
    and ord: "range_order order (queue_consumers (bRegistry b) q)"
    and step: "Run order now False pd q (DSelect msg) b = (DPicked msg ref, b')"
  shows "b' = b"
    and "\<exists>c. connected (bRegistry b) (bConsumers b) (cID c) = Some c \<and> bConsumers b ref = Some c \<and>
      cQueue c = q \<and> IsEligible c \<and>
      (\<forall>k d. connected (bRegistry b) (bConsumers b) k = Some d \<longrightarrow> cQueue d = q \<longrightarrow> IsEligible d \<longrightarrow>
         sint (InFlight c) \<le> sint (InFlight d))"
proof -
  let ?el = "EligibleConsumers q order (bRegistry b) (bConsumers b)"
  have ne: "?el \<noteq> []" and ref: "ref = leastInFlight (bConsumers b) ?el" and "b' = b"
    using step by (auto simp: Let_def split: if_splits)
  then show "b' = b" by simp
  note elig = EligibleConsumers_set [OF inv ord]
  obtain k c where c: "byID (bRegistry b) k = Some ref" "bConsumers b ref = Some c" "cQueue c = q" "IsEligible c"
    using leastInFlight_min(1) [OF ne, of "bConsumers b"] ref elig by auto
  then have "cID c = k" using reg_invD(1) [OF inv c(1)] by auto
  moreover have "sint (InFlight c) \<le> sint (InFlight d)"
    if d: "connected (bRegistry b) (bConsumers b) j = Some d" "cQueue d = q" "IsEligible d" for j d
  proof -
    obtain r where r: "byID (bRegistry b) j = Some r" "bConsumers b r = Some d"
      using d(1) by (auto simp: connected_iff)
    then have "r \<in> set ?el" using elig d by blast
    with leastInFlight_min(2) [OF ne, of r "bConsumers b"] ref c r show ?thesis by (simp add: inflight_key_def)
  qed
  ultimately show "\<exists>c. connected (bRegistry b) (bConsumers b) (cID c) = Some c \<and> bConsumers b ref = Some c \<and>
      cQueue c = q \<and> IsEligible c \<and>
      (\<forall>k d. connected (bRegistry b) (bConsumers b) k = Some d \<longrightarrow> cQueue d = q \<longrightarrow> IsEligible d \<longrightarrow>
         sint (InFlight c) \<le> sint (InFlight d))"
    using c by (intro exI [of _ c]) (auto simp: connected_def)
qed

text \<open>With no eligible consumer the message is held, and nothing changes.\<close>

lemma Run_waits:
  assumes "reg_inv (bRegistry b) (bConsumers b)"
    and "range_order order (queue_consumers (bRegistry b) q)"
    and "\<And>k c. connected (bRegistry b) (bConsumers b) k = Some c \<Longrightarrow> cQueue c = q \<Longrightarrow> \<not> IsEligible c"
  shows "Run order now False pd q (DSelect msg) b = (DSelect msg, b)"
proof -
  have "set (EligibleConsumers q order (bRegistry b) (bConsumers b)) = {}"
    using EligibleConsumers_set [OF assms(1,2)] assms(3) by (auto simp: connected_iff)
  then show ?thesis by simp
qed

subsection \<open>One delivery\<close>

text \<open>The steps of one delivery without interference: from the message in hand to the message
  in the consumer's channel.\<close>

definition deliver :: "string list \<Rightarrow> time \<Rightarrow> string \<Rightarrow> Message \<Rightarrow> Broker \<Rightarrow> dispatcher \<times> Broker" where
  "deliver order now q msg b =
     (let step = (\<lambda>(pc, b). Run order now False False q pc b) in (step ^^ 4) (DSelect msg, b))"

lemma ref_ID_frame [simp]:
  "ref_ID (b_IncrementInFlight k b) ref = ref_ID b ref" "ref_ID (Ack_Register m k b) ref = ref_ID b ref"
  "chan_full (b_IncrementInFlight k b) ref = chan_full b ref" "chan_full (Ack_Register m k b) ref = chan_full b ref"
  by (auto simp: ref_ID_def chan_full_def b_IncrementInFlight_def Registry_IncrementInFlight_def on_consumer_def
      Consumer_IncrementInFlight_def split: option.splits)

lemma deliver_steps:
  assumes "EligibleConsumers q order (bRegistry b) (bConsumers b) \<noteq> []"
    and "ref = leastInFlight (bConsumers b) (EligibleConsumers q order (bRegistry b) (bConsumers b))"
    and "\<not> chan_full b ref"
  shows "deliver order now q msg b =
    (DDequeue, chan_push ref (stamp now msg) (Ack_Register (stamp now msg) (ref_ID b ref) (b_IncrementInFlight (ref_ID b ref) b)))"
  using assms by (simp add: deliver_def Let_def numeral_eq_Suc)

text \<open>Where an eligible consumer has room in its channel, the delivery completes: the message is
  in the in-flight map under that consumer, at the end of its channel, and counted.\<close>

lemma deliver_ok:
  assumes inv: "reg_inv (bRegistry b) (bConsumers b)"
    and ord: "range_order order (queue_consumers (bRegistry b) q)"
    and some: "connected (bRegistry b) (bConsumers b) k = Some d" "cQueue d = q" "IsEligible d"
    and room: "\<And>ref c. bConsumers b ref = Some c \<Longrightarrow> cQueue c = q \<Longrightarrow> IsEligible c \<Longrightarrow> length (cSend c) < cSendCap c"
  shows "\<exists>ref c b'. deliver order now q msg b = (DDequeue, b') \<and>
    connected (bRegistry b) (bConsumers b) (cID c) = Some c \<and> cQueue c = q \<and> IsEligible c \<and>
    bInFlight b' = (bInFlight b)(ID msg \<mapsto> \<lparr>eMessage = stamp now msg, eConsumerID = cID c\<rparr>) \<and>
    bConsumers b' = (bConsumers b)(ref \<mapsto> c\<lparr>cInFlight := cInFlight c + 1, cSend := cSend c @ [stamp now msg]\<rparr>)"
proof -
  let ?el = "EligibleConsumers q order (bRegistry b) (bConsumers b)"
  let ?ref = "leastInFlight (bConsumers b) ?el"
  note elig = EligibleConsumers_set [OF inv ord]
  have ne: "?el \<noteq> []" using some elig by (auto simp: connected_iff)
  obtain j c where c: "byID (bRegistry b) j = Some ?ref" "bConsumers b ?ref = Some c" "cQueue c = q" "IsEligible c"
    using leastInFlight_min(1) [OF ne, of "bConsumers b"] elig by auto
  then have j: "cID c = j" using reg_invD(1) [OF inv c(1)] by auto
  have full: "\<not> chan_full b ?ref" using room [OF c(2,3,4)] c(2) by (simp add: chan_full_def)
  have inc: "bConsumers (b_IncrementInFlight j b) = (bConsumers b)(?ref \<mapsto> c\<lparr>cInFlight := cInFlight c + 1\<rparr>)"
    using c by (simp add: b_IncrementInFlight_def Registry_IncrementInFlight_def on_consumer_def Consumer_IncrementInFlight_def)
  let ?b1 = "chan_push ?ref (stamp now msg) (Ack_Register (stamp now msg) j (b_IncrementInFlight j b))"
  have d: "deliver order now q msg b = (DDequeue, ?b1)"
    using deliver_steps [OF ne refl full] c(2) j by (simp add: ref_ID_def)
  have "bInFlight ?b1 = (bInFlight b)(ID msg \<mapsto> \<lparr>eMessage = stamp now msg, eConsumerID = j\<rparr>)"
    and "bConsumers ?b1 = (bConsumers b)(?ref \<mapsto> c\<lparr>cInFlight := cInFlight c + 1, cSend := cSend c @ [stamp now msg]\<rparr>)"
    using inc by (simp_all add: chan_push_def stamp_def)
  with d c j show ?thesis
    by (intro exI [of _ ?ref] exI [of _ c] exI [of _ ?b1]) (simp add: connected_iff)
qed

lemma Unregister_undo:
  assumes "reg_inv (bRegistry b) (bConsumers b)" "bConsumers b ref = Some c"
    "connected (bRegistry b) (bConsumers b) (cID c) = Some c" "bInFlight b (ID msg) = None"
    and "Run order now True True q (DSending (stamp now msg) ref)
          (Ack_Register (stamp now msg) (cID c) (b_IncrementInFlight (cID c) b)) = (pc, b')"
  shows "pc = DReturned" "bInFlight b' = bInFlight b"
    "connected (bRegistry b') (bConsumers b') = connected (bRegistry b) (bConsumers b)"
proof -
  let ?k = "cID c" and ?r = "bRegistry b" and ?st = "bConsumers b"
  have b': "pc = DReturned" "b' = b_DecrementInFlight ?k (drop_entry (ID msg)
      (Ack_Register (stamp now msg) ?k (b_IncrementInFlight ?k b)))"
    using assms(5) by (auto simp: Unregister_def stamp_def)
  then show "pc = DReturned" "bInFlight b' = bInFlight b"
    using assms(4) by (auto simp: stamp_def fun_eq_iff)
  have st': "bRegistry b' = ?r"
    "bConsumers b' = Registry_DecrementInFlight ?k ?r (Registry_IncrementInFlight ?k ?r ?st)"
    using b'(2) by (simp_all add: b_DecrementInFlight_def b_IncrementInFlight_def drop_entry_def Ack_Register_def)
  show "connected (bRegistry b') (bConsumers b') = connected ?r ?st"
    unfolding st' using Registry_counters [OF assms(1)] Registry_counters [OF Registry_counters(1) [OF assms(1)]]
    by (auto simp: fun_eq_iff option.map_comp o_def Consumer_IncrementInFlight_def Consumer_DecrementInFlight_def
        option.map_ident)
qed

end
