(* ===== verification/Api.thy ===== *)
theory Api
  imports Dispatcher
begin

text \<open>
  \<open>internal/api/server.go\<close>: the gRPC handlers. The generated protobuf messages are plain
  records here, and a oneof is a datatype; a stream is what its \<open>Recv\<close> and \<open>Send\<close> return.
  \<open>Subscribe\<close> runs as three goroutines; each is given by its loop body: the handler's opening,
  the forwarding of one message, the routing of one received message, and the closing with its
  drain loop.
\<close>

datatype code = Internal | InvalidArgument

record status =
  stCode :: code
  stText :: string
  stCause :: "error option"

record PublishRequest =
  prQueue :: string
  prPayload :: "bytes option"
  prHeaders :: "Header list"

datatype proto_AckOutcome = ACK | NACK

text \<open>\<open>ConsumerMessage\<close>: the oneof may be unset.\<close>

datatype ConsumerMessage =
    CM_Subscribe string int32   \<comment> \<open>queue, prefetch limit\<close>
  | CM_Ack string proto_AckOutcome
  | CM_None

record proto_Message =
  pmId :: string
  pmQueue :: string
  pmPayload :: "bytes option"
  pmHeaders :: "Header list"
  pmRetryCount :: int32
  pmEnqueueTimeUnix :: int64

text \<open>The server: the broker's shared state and the queues whose dispatcher was started; the
  dispatcher goroutines by queue.\<close>

record Server =
  sBroker :: Broker
  sStarted :: "string set"
  sDisp :: "string \<rightharpoonup> dispatcher"

definition NewServer :: "Broker \<Rightarrow> Server" where
  [simp]: "NewServer b = \<lparr>sBroker = b, sStarted = {}, sDisp = Map.empty\<rparr>"

definition newMessageID :: "bytes option \<Rightarrow> error + string" where
  "newMessageID rnd =
     (case rnd of None \<Rightarrow> Inl ErrRand | Some randomBytes \<Rightarrow> Inr (hex_EncodeToString randomBytes))"

text \<open>The message that \<open>Publish\<close> builds from a request.\<close>

definition published :: "string \<Rightarrow> time \<Rightarrow> PublishRequest \<Rightarrow> Message" where
  "published messageID now req =
     zero_Message\<lparr>ID := messageID, Queue := prQueue req, Payload := prPayload req,
       Headers := map (\<lambda>h. \<lparr>Key = Key h, Value = Value h\<rparr>) (prHeaders req), EnqueueTime := now\<rparr>"

definition Publish :: "bytes option \<Rightarrow> time \<Rightarrow> PublishRequest \<Rightarrow> Broker \<Rightarrow> (status + string) \<times> Broker" where
  "Publish rnd now req b =
     (case newMessageID rnd of
        Inl err \<Rightarrow> (Inl \<lparr>stCode = Internal, stText = ''generate id'', stCause = Some err\<rparr>, b)
      | Inr messageID \<Rightarrow>
          (case b_Enqueue (published messageID now req) b of
             (Some err, b') \<Rightarrow> (Inl \<lparr>stCode = Internal, stText = ''enqueue'', stCause = Some err\<rparr>, b')
           | (None, b') \<Rightarrow> (Inr messageID, b')))"

definition coreToProtoEvent :: "Message \<Rightarrow> proto_Message" where
  "coreToProtoEvent msg =
     \<lparr>pmId = ID msg, pmQueue = Queue msg, pmPayload = Payload msg,
      pmHeaders = map (\<lambda>h. \<lparr>Key = Key h, Value = Value h\<rparr>) (Headers msg),
      pmRetryCount = RetryCount msg, pmEnqueueTimeUnix = UnixNano (EnqueueTime msg)\<rparr>"

definition ensureDispatcher :: "string \<Rightarrow> Server \<Rightarrow> Server" where
  "ensureDispatcher queueName s =
     (if queueName \<in> sStarted s then s
      else s\<lparr>sStarted := insert queueName (sStarted s), sDisp := (sDisp s)(queueName \<mapsto> DDequeue)\<rparr>)"

text \<open>The opening of \<open>Subscribe\<close>, up to the start of its two goroutines. \<open>first\<close> is what the
  first \<open>Recv\<close> returns; \<open>ref\<close> is the address the new consumer gets.\<close>

definition Subscribe_open :: "error + ConsumerMessage \<Rightarrow> bytes option \<Rightarrow> time \<Rightarrow> cref \<Rightarrow> Server
    \<Rightarrow> (status + Consumer) \<times> Server" where
  "Subscribe_open first rnd now ref s =
     (case first of
        Inl err \<Rightarrow> (Inl \<lparr>stCode = Internal, stText = ''recv subscribe request'', stCause = Some err\<rparr>, s)
      | Inr (CM_Subscribe queueName limit) \<Rightarrow>
          (let prefetchLimit = (if sint limit \<le> 0 then 1 else limit) in
           case NewConsumer queueName prefetchLimit rnd now of
             Inl err \<Rightarrow> (Inl \<lparr>stCode = Internal, stText = ''create consumer'', stCause = Some err\<rparr>, s)
           | Inr consumer \<Rightarrow>
               (let b = sBroker s;
                    b' = b\<lparr>bConsumers := (bConsumers b)(ref \<mapsto> consumer),
                           bRegistry := Registry_Register ref consumer (bRegistry b)\<rparr>
                in (Inr consumer, ensureDispatcher queueName (s\<lparr>sBroker := b'\<rparr>))))
      | Inr _ \<Rightarrow> (Inl \<lparr>stCode = InvalidArgument, stText = ''first message must be a SubscribeRequest'',
                    stCause = None\<rparr>, s))"

text \<open>A receive from \<open>consumer.Send\<close>; \<open>None\<close> when the channel is empty.\<close>

definition chan_pop :: "cref \<Rightarrow> Broker \<Rightarrow> (Message \<times> Broker) option" where
  "chan_pop ref b =
     (case bConsumers b ref of
        None \<Rightarrow> None
      | Some c \<Rightarrow>
          (case cSend c of
             [] \<Rightarrow> None
           | msg # rest \<Rightarrow> Some (msg, b\<lparr>bConsumers := (bConsumers b)(ref \<mapsto> c\<lparr>cSend := rest\<rparr>)\<rparr>)))"

text \<open>One iteration of the send goroutine on the case that a message is ready: the event that
  goes to the stream.\<close>

definition Subscribe_send :: "cref \<Rightarrow> Broker \<Rightarrow> (proto_Message \<times> Broker) option" where
  "Subscribe_send ref b =
     (case chan_pop ref b of None \<Rightarrow> None | Some (msg, b') \<Rightarrow> Some (coreToProtoEvent msg, b'))"

text \<open>One message in the receive goroutine. The errors of \<open>Ack\<close> and \<open>Nack\<close> are dropped; a
  panic is not.\<close>

definition Subscribe_recv :: "time \<Rightarrow> ConsumerMessage \<Rightarrow> Broker \<Rightarrow> error option \<times> Broker" where
  "Subscribe_recv now consumerMsg b =
     (case consumerMsg of
        CM_Ack mid outcome \<Rightarrow> if outcome = NACK then Nack now mid b else Ack mid b
      | _ \<Rightarrow> (None, b))"

text \<open>The receive goroutine: messages until \<open>Recv\<close> fails. It then reports nil for the end of the
  stream and for a cancelled call, and the error otherwise; \<open>None\<close>: still in \<open>Recv\<close>.\<close>

datatype recv_error = EOF | Canceled | RecvErr error

definition recv_end :: "recv_error \<Rightarrow> error option" where
  "recv_end err = (case err of EOF \<Rightarrow> None | Canceled \<Rightarrow> None | RecvErr e \<Rightarrow> Some e)"

fun Subscribe_recv_loop :: "(time \<times> (recv_error + ConsumerMessage)) list \<Rightarrow> Broker \<Rightarrow> error option option \<times> Broker" where
  "Subscribe_recv_loop [] b = (None, b)"
| "Subscribe_recv_loop ((now, Inl err) # inp) b = (Some (recv_end err), b)"
| "Subscribe_recv_loop ((now, Inr consumerMsg) # inp) b =
     (case Subscribe_recv now consumerMsg b of
        (err, b') \<Rightarrow> if err = Some ErrPanic then (Some err, b') else Subscribe_recv_loop inp b')"

definition Subscribe_deregister :: "string \<Rightarrow> Broker \<Rightarrow> Broker" where
  "Subscribe_deregister cid b = b\<lparr>bRegistry := Deregister cid (bConsumers b) (bRegistry b)\<rparr>"

text \<open>The channel at an address.\<close>

definition chan_of :: "Broker \<Rightarrow> cref \<Rightarrow> Message list" where
  "chan_of b ref = (case bConsumers b ref of None \<Rightarrow> [] | Some c \<Rightarrow> cSend c)"

lemma chan_pop_None [simp]: "chan_pop ref b = None \<longleftrightarrow> chan_of b ref = []"
  by (auto simp: chan_pop_def chan_of_def split: option.splits list.splits)

lemma chan_pop_Some: "chan_pop ref b = Some (msg, b') \<Longrightarrow> chan_of b ref = msg # chan_of b' ref"
  by (auto simp: chan_pop_def chan_of_def split: option.splits list.splits)

lemma chan_pop_frame:
  assumes "chan_pop ref b = Some (msg, b')"
  shows "bInFlight b' = bInFlight b" "bManager b' = bManager b" "bWorld b' = bWorld b"
    "bRegistry b' = bRegistry b" "bMaxRetries b' = bMaxRetries b"
  using assms by (auto simp: chan_pop_def split: option.splits list.splits)

lemma chan_of_on_consumer:
  "(\<And>c. cSend (f c) = cSend c) \<Longrightarrow>
     chan_of (b\<lparr>bConsumers := on_consumer f k r (bConsumers b)\<rparr>) ref = chan_of b ref"
  by (auto simp: chan_of_def on_consumer_def split: option.splits)

lemma chan_of_cong: "bConsumers b' = bConsumers b \<Longrightarrow> chan_of b' ref = chan_of b ref"
  by (simp add: chan_of_def)

lemma chan_of_Nack [simp]: "chan_of (snd (Nack now i b)) ref = chan_of b ref"
proof (cases "bInFlight b i")
  case (Some e)
  then have "bConsumers (snd (Nack now i b)) = Registry_DecrementInFlight (eConsumerID e) (bRegistry b) (bConsumers b)"
    using Nack_known(4) [OF Some, of now] by (metis prod.collapse)
  then have "chan_of (snd (Nack now i b)) ref =
      chan_of (b\<lparr>bConsumers := on_consumer Consumer_DecrementInFlight (eConsumerID e) (bRegistry b) (bConsumers b)\<rparr>) ref"
    by (simp add: chan_of_def Registry_DecrementInFlight_def)
  also have "\<dots> = chan_of b ref" by (rule chan_of_on_consumer) (simp add: Consumer_DecrementInFlight_def)
  finally show ?thesis .
qed (simp add: Nack_unknown)

lemma Nack_chan: "(err, b') = Nack now i b \<Longrightarrow> chan_of b' = chan_of b"
  using chan_of_Nack [of now i b] by (metis ext snd_conv)

text \<open>The drain loop; \<open>clock\<close> as in the timeout scan. The first component is \<open>drained\<close>, or
  \<open>None\<close> after a panic.\<close>

function drain :: "(MessageID \<Rightarrow> time) \<Rightarrow> cref \<Rightarrow> nat \<Rightarrow> Broker \<Rightarrow> nat option \<times> Broker" where
  "drain clock ref drained b =
     (case chan_pop ref b of
        None \<Rightarrow> (Some drained, b)
      | Some (msg, b1) \<Rightarrow>
          (case Nack (clock (ID msg)) (ID msg) b1 of
             (err, b2) \<Rightarrow>
               if err = Some ErrPanic then (None, b2) else drain clock ref (Suc drained) b2))"
  by pat_completeness auto
termination
  by (relation "measure (\<lambda>(clock, ref, drained, b). length (chan_of b ref))")
    (auto dest!: chan_pop_Some Nack_chan)

declare drain.simps [simp del]

text \<open>The closing of \<open>Subscribe\<close>, after either goroutine reported.\<close>

definition Subscribe_close :: "(MessageID \<Rightarrow> time) \<Rightarrow> string \<Rightarrow> cref \<Rightarrow> Broker \<Rightarrow> nat option \<times> Broker" where
  "Subscribe_close clock cid ref b = drain clock ref 0 (Subscribe_deregister cid b)"

subsection \<open>Publishing\<close>

lemma header_copy [simp]: "\<lparr>Key = Key h, Value = Value h\<rparr> = (h :: Header)"
  by simp

lemma published_simps [simp]:
  "ID (published i now req) = i" "Queue (published i now req) = prQueue req"
  "Payload (published i now req) = prPayload req" "Headers (published i now req) = prHeaders req"
  "RetryCount (published i now req) = 0" "EnqueueTime (published i now req) = now"
  "Status (published i now req) = StatusPending"
  by (simp_all add: published_def zero_Message_def map_idI)

lemma Publish_run:
  assumes "Publish (Some rnd) now req b = (r, b')"
  obtains err where "Manager_Enqueue (published (hex_EncodeToString rnd) now req) (bManager b) (bWorld b) =
      (err, bManager b', bWorld b')"
    "bConsumers b' = bConsumers b" "bRegistry b' = bRegistry b" "bInFlight b' = bInFlight b"
    "bMaxRetries b' = bMaxRetries b"
    "r = (case err of None \<Rightarrow> Inr (hex_EncodeToString rnd)
          | Some e \<Rightarrow> Inl \<lparr>stCode = Internal, stText = ''enqueue'', stCause = Some e\<rparr>)"
proof -
  obtain err m w where e: "Manager_Enqueue (published (hex_EncodeToString rnd) now req) (bManager b) (bWorld b) = (err, m, w)"
    by (metis prod.exhaust)
  with assms have "b' = b\<lparr>bManager := m, bWorld := w\<rparr>" "r = (case err of None \<Rightarrow> Inr (hex_EncodeToString rnd)
          | Some e \<Rightarrow> Inl \<lparr>stCode = Internal, stText = ''enqueue'', stCause = Some e\<rparr>)"
    by (auto simp: Publish_def newMessageID_def b_Enqueue_def split: option.splits)
  with e show ?thesis by (intro that [of err]) simp_all
qed

text \<open>What a client sends is representable: protobuf strings are UTF-8, identifiers are
  hexadecimal.\<close>

lemma published_representable:
  assumes "valid_utf8 (prQueue req)" "\<forall>h \<in> set (prHeaders req). valid_utf8 (Key h) \<and> valid_utf8 (Value h)"
  shows "representable (message_record (published (hex_EncodeToString rnd) now req))"
  using assms
  by (auto simp: message_record_def representable_def recordMsg_ok_def header_ok_def header_rec_def list_all_iff)

lemma requeue_representable:
  assumes "representable (message_record msg)"
  shows "representable (message_record (nack_target mr now msg))"
proof -
  have "valid_utf8 DLQSuffix" unfolding DLQSuffix_def by (rule valid_utf8_ascii) auto
  with assms show ?thesis
    by (auto simp: nack_target_def message_record_def representable_def recordMsg_ok_def WithRetry_def
        intro!: valid_utf8_append)
qed

subsection \<open>Subscribing\<close>

lemma NewConsumer_ok:
  "NewConsumer q limit rnd now = Inr c \<Longrightarrow>
     cQueue c = q \<and> cSend c = [] \<and> cInFlight c = 0 \<and> cPrefetchLimit c = limit \<and>
     int (cSendCap c) = max 1 (sint limit) \<and> (\<exists>bs. rnd = Some bs \<and> cID c = hex_EncodeToString bs)"
  by (auto simp: NewConsumer_def newConsumerID_def Let_def split: option.splits)

lemma Subscribe_open_error:
  "Subscribe_open first rnd now ref s = (Inl st, s') \<Longrightarrow> s' = s"
  by (auto simp: Subscribe_open_def Let_def split: sum.splits ConsumerMessage.splits)

lemma Subscribe_open_ok:
  assumes "Subscribe_open first rnd now ref s = (Inr c, s')"
  obtains limit where "first = Inr (CM_Subscribe (cQueue c) limit)"
    "cPrefetchLimit c = (if sint limit \<le> 0 then 1 else limit)"
    "NewConsumer (cQueue c) (cPrefetchLimit c) rnd now = Inr c"
    "s' = ensureDispatcher (cQueue c) (s\<lparr>sBroker := (sBroker s)\<lparr>bConsumers := (bConsumers (sBroker s))(ref \<mapsto> c),
        bRegistry := Registry_Register ref c (bRegistry (sBroker s))\<rparr>\<rparr>)"
proof -
  obtain q limit where f: "first = Inr (CM_Subscribe q limit)"
    "NewConsumer q (if sint limit \<le> 0 then 1 else limit) rnd now = Inr c"
    "s' = ensureDispatcher q (s\<lparr>sBroker := (sBroker s)\<lparr>bConsumers := (bConsumers (sBroker s))(ref \<mapsto> c),
        bRegistry := Registry_Register ref c (bRegistry (sBroker s))\<rparr>\<rparr>)"
    using assms by (auto simp: Subscribe_open_def Let_def split: sum.splits ConsumerMessage.splits)
  with NewConsumer_ok [OF f(2)] show ?thesis by (intro that [of limit]) auto
qed

subsection \<open>Disconnecting\<close>

lemma drain_result:
  "drain clock ref drained b = (Some n, b') \<Longrightarrow>
     n = drained + length (chan_of b ref) \<and> chan_of b' ref = [] \<and> bRegistry b' = bRegistry b \<and>
     bInFlight b' = (\<lambda>i. if i \<in> ID ` set (chan_of b ref) then None else bInFlight b i)"
proof (induction clock ref drained b rule: drain.induct)
  case (1 clock ref drained b)
  show ?case
  proof (cases "chan_pop ref b")
    case None
    with "1.prems" show ?thesis by (simp add: drain.simps [of clock ref drained b])
  next
    case (Some p)
    obtain msg b1 where p: "p = (msg, b1)" by (cases p)
    obtain err b2 where n: "Nack (clock (ID msg)) (ID msg) b1 = (err, b2)" by (metis prod.exhaust)
    have rest: "err \<noteq> Some ErrPanic" "drain clock ref (Suc drained) b2 = (Some n, b')"
      using "1.prems" Some p n by (auto simp: drain.simps [of clock ref drained b] split: if_splits)
    note IH = "1.IH" [OF Some p [symmetric] n [symmetric] rest]
    note pop = chan_pop_Some [OF Some [unfolded p]] chan_pop_frame [OF Some [unfolded p]]
    have fl: "bInFlight b2 = (bInFlight b)(ID msg := None)"
      using Nack_inFlight [of "clock (ID msg)" "ID msg" b1] n pop by simp
    have rg: "bRegistry b2 = bRegistry b"
      using Nack_known(2) [OF _ n] Nack_unknown [of b1 "ID msg" "clock (ID msg)"] n pop
      by (cases "bInFlight b1 (ID msg)") auto
    have "chan_of b2 ref = chan_of b1 ref" using Nack_chan [OF n [symmetric]] by simp
    with IH fl rg pop(1) show ?thesis by (auto simp: fun_eq_iff)
  qed
qed

end
