(* ===== verification/Scanners.thy ===== *)
theory Scanners
  imports AckMgr
begin

text \<open>
  Packages \<open>internal/retry\<close> and \<open>internal/dlqttl\<close>: the two periodic scanners. A scanner
  goroutine waits in a \<open>select\<close> for a tick or for the cancellation of its context; what the
  \<open>select\<close> delivers, iteration by iteration, is a list of events. A tick carries what the scan
  reads from outside: clock readings and the orders of the map iterations.
  \<open>time.NewTicker\<close> panics when its interval is not positive.
\<close>

datatype 'tick event = Done | Tick 'tick

datatype loop = Running | Stopped | Crashed

record retry_Scanner =
  rsInterval :: duration
  rsDispatchTimeout :: duration

record dlq_Scanner =
  dsRetention :: duration
  dsInterval :: duration

definition retry_NewScanner :: "duration \<Rightarrow> duration \<Rightarrow> retry_Scanner" where
  "retry_NewScanner interval dispatchTimeout = \<lparr>rsInterval = interval, rsDispatchTimeout = dispatchTimeout\<rparr>"

definition dlq_NewScanner :: "duration \<Rightarrow> duration \<Rightarrow> dlq_Scanner" where
  "dlq_NewScanner retention interval = \<lparr>dsRetention = retention, dsInterval = interval\<rparr>"

text \<open>What one timeout scan reads.\<close>

record retry_tick =
  rtNow :: time
  rtClock :: "MessageID \<Rightarrow> time"
  rtOrder :: "MessageID list"

fun retry_loop :: "duration \<Rightarrow> retry_tick event list \<Rightarrow> Broker \<Rightarrow> loop \<times> Broker" where
  "retry_loop dispatchTimeout [] b = (Running, b)"
| "retry_loop dispatchTimeout (Done # evs) b = (Stopped, b)"
| "retry_loop dispatchTimeout (Tick t # evs) b =
     (case ScanAndTimeout dispatchTimeout (rtNow t) (rtClock t) (rtOrder t) b of
        (err, b') \<Rightarrow>
          if err = Some ErrPanic then (Crashed, b') else retry_loop dispatchTimeout evs b')"

definition retry_Run :: "retry_Scanner \<Rightarrow> retry_tick event list \<Rightarrow> Broker \<Rightarrow> loop \<times> Broker" where
  "retry_Run s evs b =
     (if sint (rsInterval s) \<le> 0 then (Crashed, b) else retry_loop (rsDispatchTimeout s) evs b)"

text \<open>One expiry scan reads the clock twice, once itself and once in \<open>ExpireDLQOlderThan\<close>.\<close>

record dlq_tick =
  dtNow :: time
  dtNow2 :: time
  dtQueues :: "string list"
  dtOrder :: "MessageID list"

definition scan :: "duration \<Rightarrow> dlq_tick \<Rightarrow> Broker \<Rightarrow> (nat \<times> nat \<times> error option) \<times> Broker" where
  "scan retention t b =
     (let cutoff = time_Add (dtNow t) (- retention) in
      case ExpireDLQOlderThan retention (dtNow2 t) (dtQueues t) (bManager b) (bWorld b) of
        ((pending, err), m, w) \<Rightarrow>
          (let b1 = b\<lparr>bManager := m, bWorld := w\<rparr> in
           if err = Some ErrPanic then ((pending, 0, err), b1)
           else case ExpireDLQInFlight cutoff (dtOrder t) b1 of
             ((inFlight, err2), b2) \<Rightarrow> ((pending, inFlight, None), b2)))"

fun dlq_loop :: "duration \<Rightarrow> dlq_tick event list \<Rightarrow> Broker \<Rightarrow> loop \<times> Broker" where
  "dlq_loop retention [] b = (Running, b)"
| "dlq_loop retention (Done # evs) b = (Stopped, b)"
| "dlq_loop retention (Tick t # evs) b =
     (case scan retention t b of
        ((pending, inFlight, err), b') \<Rightarrow>
          if err = Some ErrPanic then (Crashed, b') else dlq_loop retention evs b')"

definition dlq_Run :: "dlq_Scanner \<Rightarrow> dlq_tick event list \<Rightarrow> Broker \<Rightarrow> loop \<times> Broker" where
  "dlq_Run s evs b =
     (if sint (dsRetention s) \<le> 0 then (Stopped, b)
      else if sint (dsInterval s) \<le> 0 then (Crashed, b)
      else dlq_loop (dsRetention s) evs b)"

subsection \<open>Timeout scan\<close>

definition timed_out :: "duration \<Rightarrow> time \<Rightarrow> inFlightEntry \<Rightarrow> bool" where
  "timed_out dispatchTimeout now e \<longleftrightarrow> DispatchedAt (eMessage e) < now + sint (- dispatchTimeout)"

lemma ScanAndTimeout_collect:
  assumes "range_order order (bInFlight b)" "ScanAndTimeout d now clock order b = (err, b')"
  obtains es where "set es = {e. \<exists>i. bInFlight b i = Some e \<and> timed_out d now e}"
    "es = map (the \<circ> bInFlight b) (filter (\<lambda>i. \<exists>e. bInFlight b i = Some e \<and> timed_out d now e) order)"
    "nack_all clock es None (b\<lparr>bInFlight := keep_entries (timed_out d now) (bInFlight b)\<rparr>) = (err, b')"
proof -
  obtain es b1 where c: "collect_entries (timed_out d now) order [] b = (es, b1)" by (metis prod.exhaust)
  have "(\<lambda>e. time_Before (DispatchedAt (eMessage e)) (time_Add now (- d))) = timed_out d now"
    by (simp add: fun_eq_iff timed_out_def time_Before_def time_Add_def)
  then have "nack_all clock es None b1 = (err, b')" using assms(2) c by (simp add: ScanAndTimeout_def)
  with collect_entries_all [OF assms(1) c] show ?thesis by (intro that [of es]) simp_all
qed

lemma ScanAndTimeout_inFlight:
  assumes "range_order order (bInFlight b)" "ScanAndTimeout d now clock order b = (err, b')"
  shows "bInFlight b' = keep_entries (timed_out d now) (bInFlight b)"
proof -
  obtain es where es: "set es = {e. \<exists>i. bInFlight b i = Some e \<and> timed_out d now e}"
    "es = map (the \<circ> bInFlight b) (filter (\<lambda>i. \<exists>e. bInFlight b i = Some e \<and> timed_out d now e) order)"
    "nack_all clock es None (b\<lparr>bInFlight := keep_entries (timed_out d now) (bInFlight b)\<rparr>) = (err, b')"
    using ScanAndTimeout_collect [OF assms] .
  from nack_all_frame [OF es(3)] show ?thesis by simp
qed

lemma ScanAndTimeout_requeues:
  assumes ord: "range_order order (bInFlight b)" and run: "ScanAndTimeout d now clock order b = (None, b')"
    and e: "bInFlight b i = Some e" "timed_out d now e"
    and t: "t = nack_target (bMaxRetries b) (clock (ID (eMessage e))) (eMessage e)"
  shows "t \<in> set (queued (bManager b') (Queue t))"
proof -
  obtain es where es: "set es = {e. \<exists>i. bInFlight b i = Some e \<and> timed_out d now e}"
    "es = map (the \<circ> bInFlight b) (filter (\<lambda>i. \<exists>e. bInFlight b i = Some e \<and> timed_out d now e) order)"
    "nack_all clock es None (b\<lparr>bInFlight := keep_entries (timed_out d now) (bInFlight b)\<rparr>) = (None, b')"
    using ScanAndTimeout_collect [OF ord run] .
  have "e \<in> set es" using e es(1) by blast
  with nack_all_queued [OF es(3)] t show ?thesis by (auto simp: Let_def)
qed

text \<open>Counting the entries that a scan took, by identifier.\<close>

lemma scanned_card:
  assumes "range_order order (bInFlight b)"
    and "es = map (the \<circ> bInFlight b) (filter (\<lambda>i. \<exists>e. bInFlight b i = Some e \<and> P e) order)"
  shows "length (filter R es) = card {i. \<exists>e. bInFlight b i = Some e \<and> P e \<and> R e}"
proof -
  let ?Q = "\<lambda>i. (\<exists>e. bInFlight b i = Some e \<and> P e) \<and> R (the (bInFlight b i))"
  have "length (filter R es) = length (filter ?Q order)" unfolding assms(2) by (simp add: filter_map o_def conj_commute)
  also have "\<dots> = card (set (filter ?Q order))"
    using range_orderD(1) [OF assms(1)] by (simp only: distinct_card distinct_filter)
  also have "set (filter ?Q order) = {i. \<exists>e. bInFlight b i = Some e \<and> P e \<and> R e}"
    using range_orderD(3) [OF assms(1)] by auto
  finally show ?thesis .
qed

text \<open>Each consumer's counter goes down by the number of its entries that timed out.\<close>

lemma ScanAndTimeout_counters:
  assumes ord: "range_order order (bInFlight b)" and inv: "reg_inv (bRegistry b) (bConsumers b)"
    and run: "ScanAndTimeout d now clock order b = (err, b')" "err \<noteq> Some ErrPanic"
  shows "count_of (bRegistry b', bConsumers b') k =
    map_option (\<lambda>n. n - of_nat (card {i. \<exists>e. bInFlight b i = Some e \<and> timed_out d now e \<and> eConsumerID e = k}))
      (count_of (bRegistry b, bConsumers b) k)"
proof -
  obtain es where es: "set es = {e. \<exists>i. bInFlight b i = Some e \<and> timed_out d now e}"
    "es = map (the \<circ> bInFlight b) (filter (\<lambda>i. \<exists>e. bInFlight b i = Some e \<and> timed_out d now e) order)"
    "nack_all clock es None (b\<lparr>bInFlight := keep_entries (timed_out d now) (bInFlight b)\<rparr>) = (err, b')"
    using ScanAndTimeout_collect [OF ord run(1)] .
  have f: "(bRegistry b', bConsumers b') =
      fold regc.move (map (\<lambda>e. (eConsumerID e, False)) es) (bRegistry b, bConsumers b)"
    using nack_all_counters [OF es(3) run(2)] by simp
  have "length (filter (\<lambda>e. eConsumerID e = k) es) =
      card {i. \<exists>e. bInFlight b i = Some e \<and> timed_out d now e \<and> eConsumerID e = k}" by (rule scanned_card [OF ord es(2)])
  then show ?thesis using scan_counters [OF inv f, of k] by simp
qed

subsection \<open>Expiry scan\<close>

definition dlq_expired :: "time \<Rightarrow> inFlightEntry \<Rightarrow> bool" where
  "dlq_expired cutoff e \<longleftrightarrow> IsDLQQueue (Queue (eMessage e)) \<and> expired cutoff (eMessage e)"

lemma ExpireDLQInFlight_collect:
  assumes "range_order order (bInFlight b)" "ExpireDLQInFlight cutoff order b = ((n, err), b')"
  obtains es where "set es = {e. \<exists>i. bInFlight b i = Some e \<and> dlq_expired cutoff e}" "n = length es"
    "es = map (the \<circ> bInFlight b) (filter (\<lambda>i. \<exists>e. bInFlight b i = Some e \<and> dlq_expired cutoff e) order)"
    "expire_all es None (b\<lparr>bInFlight := keep_entries (dlq_expired cutoff) (bInFlight b)\<rparr>) = (err, b')"
proof -
  have P: "(\<lambda>e. IsDLQQueue (Queue (eMessage e)) \<and> time_Before (EnqueueTime (eMessage e)) cutoff) = dlq_expired cutoff"
    by (simp add: fun_eq_iff dlq_expired_def expired_def)
  obtain es b1 where c: "collect_entries (dlq_expired cutoff) order [] b = (es, b1)" by (metis prod.exhaust)
  have "n = length es" "expire_all es None b1 = (err, b')"
    using assms(2) c P by (auto simp: ExpireDLQInFlight_def split: prod.splits)
  with collect_entries_all [OF assms(1) c] show ?thesis by (intro that [of es]) simp_all
qed

subsection \<open>The loops\<close>

text \<open>A disabled retention never touches the broker.\<close>

lemma dlq_Run_disabled: "sint (dsRetention s) \<le> 0 \<Longrightarrow> dlq_Run s evs b = (Stopped, b)"
  by (simp add: dlq_Run_def)

lemma retry_loop_append:
  "retry_loop d (evs @ evs') b =
     (case retry_loop d evs b of (Running, b') \<Rightarrow> retry_loop d evs' b' | r \<Rightarrow> r)"
  by (induction d evs b rule: retry_loop.induct) (auto split: prod.splits)

lemma retry_loop_done: "Done \<in> set evs \<Longrightarrow> fst (retry_loop d evs b) \<noteq> Running"
  by (induction d evs b rule: retry_loop.induct) (auto split: prod.splits)

end
