(* ===== verification/DeliveryProps.thy ===== *)
theory DeliveryProps
  imports QueueProps Api Scanners
begin

text \<open>
  Properties of delivery: the consumer registry, acknowledgement, retry and dead-lettering, the
  scanners, the dispatcher and the gRPC handlers.
\<close>

section \<open>A sample broker\<close>

text \<open>One consumer connected to \<open>orders\<close>, and one message in flight to it.\<close>

definition sub1 :: Consumer where
  "sub1 = \<lparr>cID = ''c1'', cQueue = ''orders'', cSend = [], cSendCap = 2, cPrefetchLimit = 2, cConnectedAt = 0, cInFlight = 1\<rparr>"

definition sample_entry :: inFlightEntry where
  "sample_entry = \<lparr>eMessage = sample_message, eConsumerID = ''c1''\<rparr>"

definition sample_broker :: Broker where
  "sample_broker = \<lparr>bWorld = sample_disk, bManager = sample_manager,
     bRegistry = Registry_Register 0 sub1 NewRegistry, bConsumers = [0 \<mapsto> sub1],
     bInFlight = [''00c0ffee'' \<mapsto> sample_entry], bMaxRetries = 3\<rparr>"

lemma sample_broker_simps [simp]:
  "bWorld sample_broker = sample_disk" "bManager sample_broker = sample_manager"
  "bConsumers sample_broker = [0 \<mapsto> sub1]" "bInFlight sample_broker = [''00c0ffee'' \<mapsto> sample_entry]"
  "bMaxRetries sample_broker = 3" "bRegistry sample_broker = Registry_Register 0 sub1 NewRegistry"
  "cID sub1 = ''c1''" "cQueue sub1 = ''orders''" "cInFlight sub1 = 1" "cPrefetchLimit sub1 = 2" "cSend sub1 = []"
  "cSendCap sub1 = 2" "eMessage sample_entry = sample_message" "eConsumerID sample_entry = ''c1''"
  by (simp_all add: sample_broker_def sub1_def sample_entry_def)

lemma byID_New [simp]: "byID NewRegistry k = None"
  by (simp add: NewRegistry_def)

lemma sample_registry: "reg_inv (bRegistry sample_broker) (bConsumers sample_broker)"
  using Register_inv(1) [OF NewRegistry_inv(1), of sub1 Map.empty 0] by simp

lemma sample_conn: "connected (bRegistry sample_broker) (bConsumers sample_broker) ''c1'' = Some sub1"
  by (simp add: connected_def)

lemma sample_order: "range_order [''c1''] (queue_consumers (bRegistry sample_broker) ''orders'')"
proof -
  have "queue_consumers NewRegistry ''orders'' = Map.empty" by (simp add: queue_consumers_def NewRegistry_def)
  then show ?thesis by (simp add: range_order_def queue_consumers_Register)
qed

section \<open>The registry\<close>

text \<open>C20. The registry refines a map from names to consumers: \<open>Register\<close> of a fresh consumer is an
  update, \<open>Deregister\<close> a removal, and both keep its two indexes consistent.\<close>

theorem registry_refines_map:
  assumes "reg_inv r st" "connected r st (cID c) = None" "st ref = None"
  shows "reg_inv (Registry_Register ref c r) (st(ref \<mapsto> c)) \<and>
    connected (Registry_Register ref c r) (st(ref \<mapsto> c)) = (connected r st)(cID c \<mapsto> c) \<and>
    reg_inv (Deregister k st r) st \<and> connected (Deregister k st r) st = (connected r st)(k := None)"
proof -
  have "byID r (cID c) = None"
    using assms(2) reg_invD(1) [OF assms(1), of "cID c"] by (cases "byID r (cID c)") (auto simp: connected_def)
  with Register_inv [OF assms(1) _ assms(3), of c] Deregister_inv [OF assms(1)] show ?thesis by blast
qed

theorem registry_refines_map_witness:
  "reg_inv (Registry_Register 0 sub1 NewRegistry) [0 \<mapsto> sub1] \<and>
   connected (Registry_Register 0 sub1 NewRegistry) [0 \<mapsto> sub1] = [''c1'' \<mapsto> sub1]"
  using registry_refines_map [of NewRegistry Map.empty sub1 0] NewRegistry_inv [of Map.empty] by simp

text \<open>\<open>EligibleConsumers\<close> returns, once each, exactly the connected consumers of the queue that
  are below their prefetch limit.\<close>

lemma eligible_exact:
  assumes "reg_inv r st" "range_order order (queue_consumers r q)"
  shows "distinct (EligibleConsumers q order r st) \<and>
    set (EligibleConsumers q order r st) =
      {ref. \<exists>k c. byID r k = Some ref \<and> connected r st k = Some c \<and> cQueue c = q \<and>
         sint (cInFlight c) < sint (cPrefetchLimit c)}"
  using EligibleConsumers_set [OF assms] EligibleConsumers_distinct [OF assms]
  by (auto simp: connected_iff IsEligible_def)

text \<open>Counters under interleaving: after any sequence of increments and decrements, by whichever
  goroutines, every connected consumer's counter is its old value plus the increments less the
  decrements that name it, modulo the width of the counter.\<close>

lemma counters_interleave:
  assumes "reg_inv r st"
  shows "map_option cInFlight (connected r (fold (\<lambda>(k, up). if up then Registry_IncrementInFlight k r
            else Registry_DecrementInFlight k r) ops st) k) =
    map_option (\<lambda>c. cInFlight c + of_nat (count_list ops (k, True)) - of_nat (count_list ops (k, False)))
      (connected r st k)"
proof -
  have "fold regc.move ops (r, st) =
      (r, fold (\<lambda>(k, up). if up then Registry_IncrementInFlight k r else Registry_DecrementInFlight k r) ops st)"
    by (induction ops arbitrary: st) (auto simp: count_up_def count_down_def)
  with regc.count_moves [of "(r, st)" ops k] assms show ?thesis
    by (simp add: count_of_def option.map_comp o_def)
qed

section \<open>Acknowledgement\<close>

text \<open>C11. \<open>Ack\<close> of an in-flight message takes it out of the map, decrements its consumer's counter
  and no other, and leaves the topics alone. When it reports success the tombstone is in the log,
  and no later replay returns the message, whatever is appended.\<close>

theorem ack_settles:
  assumes "reg_inv (bRegistry b) (bConsumers b)" "bInFlight b i = Some e"
    and "queue_open (Queue (eMessage e)) rs (bManager b) (bWorld b)" "tombstone_ok i" "Ack i b = (err, b')"
  shows "bInFlight b' = (bInFlight b)(i := None) \<and> bManager b' = bManager b \<and>
    (\<forall>k. connected (bRegistry b') (bConsumers b') k =
       (if k = eConsumerID e then map_option Consumer_DecrementInFlight (connected (bRegistry b) (bConsumers b) k)
        else connected (bRegistry b) (bConsumers b) k)) \<and>
    (err = None \<longrightarrow> queue_open (Queue (eMessage e)) (rs @ [tombstone_record i]) (bManager b') (bWorld b') \<and>
       (\<forall>rs'. i \<notin> ID ` set (live_messages ((rs @ [tombstone_record i]) @ rs'))))"
proof (intro conjI allI impI)
  note k = Ack_known [OF assms(2,5)]
  show "bInFlight b' = (bInFlight b)(i := None)" using Ack_inFlight [of i b] assms(5) by simp
  show "bManager b' = bManager b" by (rule k(1))
  show "connected (bRegistry b') (bConsumers b') x =
       (if x = eConsumerID e then map_option Consumer_DecrementInFlight (connected (bRegistry b) (bConsumers b) x)
        else connected (bRegistry b) (bConsumers b) x)" for x
    using Registry_counters(4) [OF assms(1), of "eConsumerID e" x] k(2,4) by simp
  assume "err = None"
  then have run: "Ack i b = (None, b')" using assms(5) by simp
  show "queue_open (Queue (eMessage e)) (rs @ [tombstone_record i]) (bManager b') (bWorld b')"
    using Ack_durable(1) [OF assms(2) refl assms(3,4) run] .
  show "i \<notin> ID ` set (live_messages ((rs @ [tombstone_record i]) @ rs'))" for rs'
    using Ack_durable(2) [OF assms(2) refl assms(3,4) run] .
qed

lemma sample_ack: "fst (Ack ''00c0ffee'' sample_broker) = None"
proof -
  have "append_record (open_writer ''wal'' ''orders'') (tombstone_record ''00c0ffee'') sample_disk =
      (None, sample_disk\<lparr>files := (files sample_disk)(wal_path ''wal'' ''orders'' \<mapsto> frame (tombstone_record ''00c0ffee''))\<rparr>)"
    using append_record_ok [of sample_disk "open_writer ''wal'' ''orders''" "wal_path ''wal'' ''orders''" "[]"]
    by (simp add: sample_disk_def)
  moreover have "mWriters sample_manager ''orders'' = Some (open_writer ''wal'' ''orders'')" by (simp add: sample_manager_def)
  ultimately show ?thesis
    by (simp add: Ack_def b_WriteTombstone_def Manager_WriteTombstone_def WriteTombstone_def)
qed

theorem ack_settles_witness:
  "\<exists>b'. Ack ''00c0ffee'' sample_broker = (None, b') \<and> bInFlight b' = Map.empty \<and>
     map_option cInFlight (connected (bRegistry b') (bConsumers b') ''c1'') = Some 0 \<and>
     queue_open ''orders'' [tombstone_record ''00c0ffee''] (bManager b') (bWorld b')"
proof -
  obtain b' where a: "Ack ''00c0ffee'' sample_broker = (None, b')" using sample_ack by (metis prod.collapse)
  have q: "queue_open (Queue (eMessage sample_entry)) [] (bManager sample_broker) (bWorld sample_broker)"
    using sample_queue_open by simp
  have e: "bInFlight sample_broker ''00c0ffee'' = Some sample_entry" by simp
  from ack_settles [OF sample_registry e q sample_tombstone_ok a] a sample_conn show ?thesis
    by (auto simp: Consumer_DecrementInFlight_def)
qed

text \<open>C29. A repeated or late outcome has no effect: after an \<open>Ack\<close> or a \<open>Nack\<close> of a message,
  another \<open>Ack\<close> or \<open>Nack\<close> of it succeeds and changes nothing, so no counter is decremented twice.\<close>

theorem outcome_idempotent:
  "Ack i (snd (Ack i b)) = (None, snd (Ack i b)) \<and> Nack now i (snd (Ack i b)) = (None, snd (Ack i b)) \<and>
   Ack i (snd (Nack now i b)) = (None, snd (Nack now i b)) \<and> Nack now' i (snd (Nack now i b)) = (None, snd (Nack now i b))"
  by (simp add: Ack_unknown Nack_unknown)

text \<open>C12. \<open>Nack\<close> of an in-flight message takes it out of the map and decrements its consumer's
  counter. When it reports success the message is at the back of exactly one queue: its own with
  the retry count raised, or, when its retries are used up, the dead-letter queue; every other
  queue is untouched.\<close>

theorem nack_requeues:
  assumes "reg_inv (bRegistry b) (bConsumers b)" "bInFlight b i = Some e" "Nack now i b = (err, b')"
  shows "bInFlight b' = (bInFlight b)(i := None) \<and>
    connected (bRegistry b') (bConsumers b') (eConsumerID e) =
      map_option Consumer_DecrementInFlight (connected (bRegistry b) (bConsumers b) (eConsumerID e)) \<and>
    (let t = (if sint (bMaxRetries b) \<le> sint (RetryCount (eMessage e))
              then (eMessage e)\<lparr>Queue := Queue (eMessage e) @ DLQSuffix, EnqueueTime := now, Status := StatusDead\<rparr>
              else WithRetry (eMessage e))
     in (err = None \<longrightarrow> (\<exists>ms. queued (bManager b') (Queue t) = queued (bManager b) (Queue t) @ ms @ [t])) \<and>
        (\<forall>q. q \<noteq> Queue t \<longrightarrow> queued (bManager b') q = queued (bManager b) q))"
proof -
  note k = Nack_known [OF assms(2,3)]
  note m = Manager_Enqueue_queued(1,2) [OF k(1)]
  have "bInFlight b' = (bInFlight b)(i := None)" using Nack_inFlight [of now i b] assms(3) by simp
  moreover have "connected (bRegistry b') (bConsumers b') (eConsumerID e) =
      map_option Consumer_DecrementInFlight (connected (bRegistry b) (bConsumers b) (eConsumerID e))"
    using Registry_counters(4) [OF assms(1), of "eConsumerID e" "eConsumerID e"] k(2,4) by simp
  moreover have "queued (bManager b') q = queued (bManager b) q"
    if "q \<noteq> Queue (nack_target (bMaxRetries b) now (eMessage e))" for q using m(1) [OF that] by (simp add: queued_def)
  ultimately show ?thesis using m(2) by (auto simp: Let_def nack_target_def [symmetric])
qed

theorem nack_requeues_witness:
  "\<exists>err b'. Nack 7 ''00c0ffee'' sample_broker = (err, b') \<and> bInFlight b' = Map.empty \<and>
     map_option cInFlight (connected (bRegistry b') (bConsumers b') ''c1'') = Some 0"
proof -
  obtain err b' where n: "Nack 7 ''00c0ffee'' sample_broker = (err, b')" by (metis prod.exhaust)
  have e: "bInFlight sample_broker ''00c0ffee'' = Some sample_entry" by simp
  from nack_requeues [OF sample_registry e n] n sample_conn show ?thesis
    by (auto simp: Consumer_DecrementInFlight_def)
qed

section \<open>Retry and dead letter\<close>

lemma stamp_simps [simp]:
  "ID (stamp now m) = ID m" "Queue (stamp now m) = Queue m" "RetryCount (stamp now m) = RetryCount m"
  "Payload (stamp now m) = Payload m" "Headers (stamp now m) = Headers m" "EnqueueTime (stamp now m) = EnqueueTime m"
  by (simp_all add: stamp_def)

text \<open>C39. A dead-lettered message is not tombstoned in the log of its source queue: after the move
  is reported successful, that log still replays the message, so a restart puts it back on the
  main queue although it is also on the dead-letter queue.\<close>

theorem dead_letter_still_in_source_log:
  assumes "mgr_inv (bManager b)" "mWalDir (bManager b) \<noteq> []" "plain_name q"
    and "queue_open q rs (bManager b) (bWorld b)" "i \<in> ID ` set (live_messages rs)"
    and "bInFlight b i = Some e" "ID (eMessage e) = i" "Queue (eMessage e) = q"
    and "sint (bMaxRetries b) \<le> sint (RetryCount (eMessage e))" "Nack now i b = (None, b')"
  shows "(\<exists>data msgs. files (bWorld b') (wal_path (mWalDir (bManager b)) q) = Some data \<and>
            replay_data data = Ret msgs \<and> i \<in> ID ` set msgs) \<and>
    i \<in> ID ` set (queued (bManager b') (q @ DLQSuffix))"
proof -
  let ?d = "(eMessage e)\<lparr>Queue := q @ DLQSuffix, EnqueueTime := now, Status := StatusDead\<rparr>"
  have run: "Manager_Enqueue ?d (bManager b) (bWorld b) = (None, bManager b', bWorld b')"
    using Nack_known(1) [OF assms(6,10)] assms(8,9) by (simp add: nack_target_def)
  have "plain_name (q @ DLQSuffix)" using assms(3) by (simp add: plain_name_def DLQSuffix_def)
  then have "qpath (bManager b) q \<noteq> qpath (bManager b) (q @ DLQSuffix)"
    using wal_path_inj [OF assms(3) _ assms(2), of "q @ DLQSuffix"] by (simp add: DLQSuffix_def)
  then have "files (bWorld b') (qpath (bManager b) q) = files (bWorld b) (qpath (bManager b) q)"
    using Manager_Enqueue_files [OF assms(1) run] by simp
  then have "files (bWorld b') (qpath (bManager b) q) = Some (log_of frame rs)" using queue_openD(3) [OF assms(4)] by simp
  moreover have "i \<in> ID ` set (queued (bManager b') (q @ DLQSuffix))"
    using Manager_Enqueue_queued(2) [OF run] assms(7) by force
  ultimately show ?thesis using replay_wal_log [OF queue_openD(5) [OF assms(4)]] assms(5) by blast
qed

text \<open>The sample for it: the message in the log of \<open>orders\<close>, in flight with its retries used up.\<close>

definition worn_out :: Message where
  "worn_out = sample_message\<lparr>RetryCount := 3\<rparr>"

definition dlq_broker :: Broker where
  "dlq_broker = sample_broker\<lparr>bWorld := \<lparr>files = [wal_path ''wal'' ''orders'' \<mapsto> log_of frame [message_record sample_message]], faults = []\<rparr>,
     bInFlight := [''00c0ffee'' \<mapsto> \<lparr>eMessage = worn_out, eConsumerID = ''c1''\<rparr>]\<rparr>"

lemma worn_out_simps [simp]: "ID worn_out = ''00c0ffee''" "Queue worn_out = ''orders''" "RetryCount worn_out = 3"
  by (simp_all add: worn_out_def)

lemma dlq_broker_nack: "fst (Nack 7 ''00c0ffee'' dlq_broker) = None"
proof -
  let ?w = "bWorld dlq_broker" and ?m = "bManager dlq_broker" and ?q = "''orders'' @ DLQSuffix"
  have f: "faults ?w = []" by (simp add: dlq_broker_def)
  have "wal_path ''wal'' ?q \<noteq> wal_path ''wal'' ''orders''"
    using wal_path_inj [of ?q "''orders''" "''wal''"] by (simp add: plain_name_def DLQSuffix_def)
  then have n: "files ?w (qpath ?m ?q) = None" "mTopics ?m ?q = None" "mWalDir ?m = ''wal''" "\<not> mClosing ?m"
    by (simp_all add: dlq_broker_def sample_manager_def empty_Manager_def DLQSuffix_def)
  note i = initQueue_new [OF f n(2,1)]
  have "fst (Manager_Enqueue (worn_out\<lparr>Queue := ?q, EnqueueTime := 7, Status := StatusDead\<rparr>) ?m ?w) = None"
    using i n(3,4) f append_record_ok
    by (simp add: Manager_Enqueue_def WriteMessage_def)
  then show ?thesis
    by (simp add: Nack_def nackEntry_def b_Enqueue_def case_prod_beta dlq_broker_def Let_def)
qed

theorem dead_letter_still_in_source_log_witness:
  "\<exists>b' data msgs. Nack 7 ''00c0ffee'' dlq_broker = (None, b') \<and>
     files (bWorld b') (wal_path ''wal'' ''orders'') = Some data \<and> replay_data data = Ret msgs \<and> ''00c0ffee'' \<in> ID ` set msgs"
proof -
  obtain b' where n: "Nack 7 ''00c0ffee'' dlq_broker = (None, b')" using dlq_broker_nack by (metis prod.collapse)
  have q: "queue_open ''orders'' [message_record sample_message] (bManager dlq_broker) (bWorld dlq_broker)"
    by (simp add: queue_open_def dlq_broker_def sample_manager_def empty_Manager_def)
  have l: "''00c0ffee'' \<in> ID ` set (live_messages [message_record sample_message])"
    using live_messages_messages [of "[sample_message]"] by simp
  have "bManager dlq_broker = sample_manager" "mWalDir sample_manager = ''wal''" "plain_name ''orders''"
    "bInFlight dlq_broker ''00c0ffee'' = Some \<lparr>eMessage = worn_out, eConsumerID = ''c1''\<rparr>" "bMaxRetries dlq_broker = 3"
    by (simp_all add: dlq_broker_def sample_manager_def empty_Manager_def plain_name_def)
  with dead_letter_still_in_source_log [OF _ _ _ q l _ _ _ _ n] sample_manager_inv n show ?thesis by fastforce
qed

section \<open>The scanners\<close>

lemma sample_inflight_order: "range_order [''00c0ffee''] (bInFlight sample_broker)"
  by (auto simp: range_order_def)

text \<open>C21. A timeout scan takes exactly the entries dispatched before the threshold out of the
  in-flight map and leaves the others. When it reports no error, every message it took is waiting
  on its queue (one more retry) or on its dead-letter queue.\<close>

theorem timeout_scan_exact:
  assumes "range_order order (bInFlight b)" "ScanAndTimeout d now clock order b = (err, b')"
  shows "(\<forall>i. bInFlight b' i = (case bInFlight b i of None \<Rightarrow> None
            | Some e \<Rightarrow> if DispatchedAt (eMessage e) < now + sint (- d) then None else Some e)) \<and>
    (err = None \<longrightarrow> (\<forall>i e. bInFlight b i = Some e \<longrightarrow> DispatchedAt (eMessage e) < now + sint (- d) \<longrightarrow>
       (let t = nack_target (bMaxRetries b) (clock (ID (eMessage e))) (eMessage e)
        in t \<in> set (queued (bManager b') (Queue t)))))"
  using ScanAndTimeout_inFlight [OF assms] ScanAndTimeout_requeues [OF assms(1)] assms(2)
  by (auto simp: keep_entries_def timed_out_def Let_def split: option.splits)

theorem timeout_scan_exact_witness:
  "\<exists>err b'. ScanAndTimeout 30 100 (\<lambda>_. 100) [''00c0ffee''] sample_broker = (err, b') \<and> bInFlight b' ''00c0ffee'' = None"
proof -
  obtain err b' where r: "ScanAndTimeout 30 100 (\<lambda>_. 100) [''00c0ffee''] sample_broker = (err, b')" by (metis prod.exhaust)
  have "sint (- 30 :: duration) = - 30" by simp
  with timeout_scan_exact [OF sample_inflight_order r] r show ?thesis by (auto simp: time_zero_def)
qed

text \<open>C22. Each connected consumer's counter goes down by exactly the number of its messages that a
  scan timed out.\<close>

theorem timeout_scan_counters:
  assumes "reg_inv (bRegistry b) (bConsumers b)" "range_order order (bInFlight b)"
    and "ScanAndTimeout d now clock order b = (err, b')" "err \<noteq> Some ErrPanic"
  shows "map_option cInFlight (connected (bRegistry b') (bConsumers b') k) =
    map_option (\<lambda>c. cInFlight c - of_nat (card {i. \<exists>e. bInFlight b i = Some e \<and>
        DispatchedAt (eMessage e) < now + sint (- d) \<and> eConsumerID e = k}))
      (connected (bRegistry b) (bConsumers b) k)"
  using ScanAndTimeout_counters [OF assms(2,1,3,4), of k]
  by (simp add: count_of_def timed_out_def option.map_comp o_def)

lemma sample_requeue: "fst (Manager_Enqueue (WithRetry sample_message) sample_manager sample_disk) = None"
proof -
  have q: "queue_open (Queue (WithRetry sample_message)) [] sample_manager sample_disk" using sample_queue_open by simp
  show ?thesis
    using Enqueue_known [OF q, of NewTopic] append_record_ok [of sample_disk "open_writer ''wal'' ''orders''" "wal_path ''wal'' ''orders''" "[]"]
    by (simp add: sample_manager_def sample_disk_def empty_Manager_def)
qed

lemma sample_scan: "fst (ScanAndTimeout 30 100 (\<lambda>_. 100) [''00c0ffee''] sample_broker) = None"
proof -
  have "sint (- 30 :: duration) = - 30" "sint (0 :: int32) < 3" by simp_all
  then have "ScanAndTimeout 30 100 (\<lambda>_. 100) [''00c0ffee''] sample_broker =
      nack_all (\<lambda>_. 100) [sample_entry] None (drop_entry ''00c0ffee'' sample_broker)"
    by (simp add: ScanAndTimeout_def Let_def time_Before_def time_Add_def time_zero_def)
  moreover have "fst (nackEntry 100 sample_entry (drop_entry ''00c0ffee'' sample_broker)) = None"
    using sample_requeue by (simp add: nackEntry_def Let_def b_Enqueue_def case_prod_beta)
  ultimately show ?thesis by (simp add: case_prod_beta)
qed

theorem timeout_scan_counters_witness:
  "\<exists>b'. ScanAndTimeout 30 100 (\<lambda>_. 100) [''00c0ffee''] sample_broker = (None, b') \<and>
     map_option cInFlight (connected (bRegistry b') (bConsumers b') ''c1'') = Some 0"
proof -
  obtain b' where r: "ScanAndTimeout 30 100 (\<lambda>_. 100) [''00c0ffee''] sample_broker = (None, b')"
    using sample_scan by (metis prod.collapse)
  have "sint (- 30 :: duration) = - 30" by simp
  then have "{i. \<exists>e. bInFlight sample_broker i = Some e \<and> DispatchedAt (eMessage e) < 100 + sint (- 30 :: duration) \<and>
      eConsumerID e = ''c1''} = {''00c0ffee''}" by (auto simp: time_zero_def split: if_splits)
  with timeout_scan_counters [OF sample_registry sample_inflight_order r, of "''c1''"] sample_conn r show ?thesis by simp
qed

definition sample_polls :: "(time \<times> nat) list" where
  "sample_polls = [(1, 2), (10000002, 1), (20000003, 1)]"

text \<open>C30. \<open>WaitDrained\<close> terminates and tells the truth: if every pause lasts at least ten
  milliseconds, it returns within \<open>n\<close> iterations once \<open>n\<close> pauses reach the deadline; it answers
  true only after it saw an empty map, and false only after it saw a non-empty one at or past the
  deadline.\<close>

theorem wait_drained_returns:
  assumes "\<And>i. Suc i < length obs \<Longrightarrow> fst (obs ! i) + 10000000 \<le> fst (obs ! Suc i)" "obs \<noteq> []" "now \<le> fst (obs ! 0)"
    and "sint timeout \<le> 10000000 * int n" "n < length obs"
  shows "\<exists>r. WaitDrained timeout now obs = Some r \<and>
    (r \<longrightarrow> (\<exists>t. (t, 0) \<in> set obs)) \<and>
    (\<not> r \<longrightarrow> (\<exists>t k. (t, k) \<in> set obs \<and> now + sint timeout \<le> t \<and> k \<noteq> 0))"
proof -
  have "wait_loop (now + sint timeout) obs \<noteq> None"
    using wait_loop_returns [of obs 10000000 "now + sint timeout" now n] assms by simp
  then obtain r where r: "wait_loop (now + sint timeout) obs = Some r" by auto
  then show ?thesis using wait_loop_true [of "now + sint timeout" obs] wait_loop_false [of "now + sint timeout" obs]
    by (cases r) (auto simp: WaitDrained_def time_Add_def)
qed

theorem wait_drained_returns_witness:
  "WaitDrained 15000000 0 sample_polls = Some False \<and>
   (\<exists>t k. (t, k) \<in> set sample_polls \<and> 0 + sint (15000000 :: duration) \<le> t \<and> k \<noteq> 0)"
proof -
  have "fst (sample_polls ! i) + 10000000 \<le> fst (sample_polls ! Suc i)" if "Suc i < length sample_polls" for i
    using that by (auto simp: sample_polls_def less_Suc_eq)
  moreover have "sample_polls \<noteq> []" "0 \<le> fst (sample_polls ! 0)" "2 < length sample_polls"
    "sint (15000000 :: duration) \<le> 10000000 * int 2" by (simp_all add: sample_polls_def)
  ultimately obtain r where r: "WaitDrained 15000000 0 sample_polls = Some r"
    "\<not> r \<longrightarrow> (\<exists>t k. (t, k) \<in> set sample_polls \<and> 0 + sint (15000000 :: duration) \<le> t \<and> k \<noteq> 0)"
    "r \<longrightarrow> (\<exists>t. (t, 0) \<in> set sample_polls)"
    using wait_drained_returns [of sample_polls 0 15000000 2] by blast
  then have "\<not> r" by (auto simp: sample_polls_def)
  with r show ?thesis by simp
qed

end
