(* ===== verification/ServerProps.thy ===== *)
theory ServerProps
  imports DeliveryProps
begin

text \<open>
  Properties of the dispatcher and of the gRPC handlers.
\<close>

section \<open>The dispatcher\<close>

text \<open>C13. Selection: with a message in hand and the context alive, the dispatcher changes nothing
  and either picks a connected consumer of its queue that is below its limit and has no more
  messages in flight than any other such consumer, or, exactly when there is none, keeps the
  message and waits.\<close>

theorem dispatch_least_loaded:
  assumes "reg_inv (bRegistry b) (bConsumers b)" "range_order order (queue_consumers (bRegistry b) q)"
    and "Run order now False pd q (DSelect msg) b = (pc', b')"
  shows "b' = b \<and>
    ((\<exists>ref c. pc' = DPicked msg ref \<and> bConsumers b ref = Some c \<and>
        connected (bRegistry b) (bConsumers b) (cID c) = Some c \<and> cQueue c = q \<and> IsEligible c \<and>
        (\<forall>k d. connected (bRegistry b) (bConsumers b) k = Some d \<longrightarrow> cQueue d = q \<longrightarrow> IsEligible d \<longrightarrow>
           sint (InFlight c) \<le> sint (InFlight d))) \<or>
     (pc' = DSelect msg \<and>
        (\<forall>k d. connected (bRegistry b) (bConsumers b) k = Some d \<longrightarrow> cQueue d = q \<longrightarrow> \<not> IsEligible d)))"
proof (cases "EligibleConsumers q order (bRegistry b) (bConsumers b) = []")
  case True
  then have "pc' = DSelect msg" "b' = b" using assms(3) by simp_all
  moreover have "\<not> IsEligible d" if "connected (bRegistry b) (bConsumers b) k = Some d" "cQueue d = q" for k d
    using True EligibleConsumers_set [OF assms(1,2)] that by (auto simp: connected_iff)
  ultimately show ?thesis by blast
next
  case False
  then obtain ref where ref: "pc' = DPicked msg ref" "b' = b" using assms(3) by (auto simp: Let_def)
  from Run_picks(2) [OF assms(1,2), of now pd msg ref b'] assms(3) ref show ?thesis by blast
qed

theorem dispatch_least_loaded_witness:
  "Run [''c1''] 9 False False ''orders'' (DSelect sample_message) sample_broker = (DPicked sample_message 0, sample_broker) \<and>
   connected (bRegistry sample_broker) (bConsumers sample_broker) ''c1'' = Some sub1 \<and> IsEligible sub1"
proof -
  obtain pc' b' where r: "Run [''c1''] 9 False False ''orders'' (DSelect sample_message) sample_broker = (pc', b')"
    by (metis prod.exhaust)
  have el: "IsEligible sub1" by (simp add: IsEligible_def)
  have only: "ref = 0 \<and> c = sub1" if "bConsumers sample_broker ref = Some c" for ref c using that by (auto split: if_splits)
  have "\<not> (\<forall>k d. connected (bRegistry sample_broker) (bConsumers sample_broker) k = Some d \<longrightarrow> cQueue d = ''orders'' \<longrightarrow> \<not> IsEligible d)"
    using sample_conn el sample_broker_simps(8) by blast
  with dispatch_least_loaded [OF sample_registry sample_order r] obtain ref c where
    c: "b' = sample_broker" "pc' = DPicked sample_message ref" "bConsumers sample_broker ref = Some c" by blast
  then show ?thesis using only [OF c(3)] r el sample_conn by metis
qed

text \<open>C14. Progress: where some connected consumer of the queue is below its limit and every such
  consumer has room in its channel, four steps of the dispatcher complete the delivery. The
  message is in flight under the chosen consumer, last in its channel, counted once, and nothing
  else in the store has changed.\<close>

theorem delivery_completes:
  assumes "reg_inv (bRegistry b) (bConsumers b)" "range_order order (queue_consumers (bRegistry b) q)"
    and "connected (bRegistry b) (bConsumers b) k = Some d" "cQueue d = q" "IsEligible d"
    and "\<And>ref c. bConsumers b ref = Some c \<Longrightarrow> cQueue c = q \<Longrightarrow> IsEligible c \<Longrightarrow> length (cSend c) < cSendCap c"
  shows "\<exists>ref c b'. ((\<lambda>(pc, b). Run order now False False q pc b) ^^ 4) (DSelect msg, b) = (DDequeue, b') \<and>
    connected (bRegistry b) (bConsumers b) (cID c) = Some c \<and> cQueue c = q \<and> IsEligible c \<and>
    bInFlight b' = (bInFlight b)(ID msg \<mapsto> \<lparr>eMessage = stamp now msg, eConsumerID = cID c\<rparr>) \<and>
    bConsumers b' = (bConsumers b)(ref \<mapsto> c\<lparr>cInFlight := cInFlight c + 1, cSend := cSend c @ [stamp now msg]\<rparr>)"
  using deliver_ok [OF assms(1-5), of now msg] assms(6) by (simp add: deliver_def Let_def)

theorem delivery_completes_witness:
  "\<exists>ref c b'. ((\<lambda>(pc, b). Run [''c1''] 9 False False ''orders'' pc b) ^^ 4) (DSelect sample_message, sample_broker) = (DDequeue, b') \<and>
    connected (bRegistry sample_broker) (bConsumers sample_broker) (cID c) = Some c \<and> cQueue c = ''orders'' \<and> IsEligible c \<and>
    bInFlight b' = (bInFlight sample_broker)(ID sample_message \<mapsto> \<lparr>eMessage = stamp 9 sample_message, eConsumerID = cID c\<rparr>) \<and>
    bConsumers b' = (bConsumers sample_broker)(ref \<mapsto> c\<lparr>cInFlight := cInFlight c + 1, cSend := cSend c @ [stamp 9 sample_message]\<rparr>)"
proof (rule delivery_completes [OF sample_registry sample_order sample_conn])
  show "length (cSend c) < cSendCap c" if "bConsumers sample_broker ref = Some c" for ref c
    using that by (auto split: if_splits)
qed (simp_all add: IsEligible_def)

text \<open>C28. Cancellation between registration and the channel write: the dispatcher takes the message out
  of the in-flight map again and gives the consumer's count back, so every connected consumer and
  the map are as before the registration, and it returns. It does not put the message back: topics,
  logs and channels are as they were when it was taken off its topic, and memory holds no copy of it
  any more. What is left of it is its record in the log.\<close>

theorem cancelled_send_forgets:
  assumes "reg_inv (bRegistry b) (bConsumers b)" "bConsumers b ref = Some c"
    and "connected (bRegistry b) (bConsumers b) (cID c) = Some c" "bInFlight b (ID msg) = None"
    and "((\<lambda>(pc, b). Run order now True True q pc b) ^^ 3) (DPicked msg ref, b) = (pc', b')"
  shows "pc' = DReturned \<and> bInFlight b' = bInFlight b \<and>
    connected (bRegistry b') (bConsumers b') = connected (bRegistry b) (bConsumers b) \<and>
    bManager b' = bManager b \<and> bWorld b' = bWorld b \<and> (\<forall>r. chan_of b' r = chan_of b r)"
proof -
  have "ref_ID b ref = cID c" using assms(2) by (simp add: ref_ID_def)
  then have run: "Run order now True True q (DSending (stamp now msg) ref)
      (Ack_Register (stamp now msg) (cID c) (b_IncrementInFlight (cID c) b)) = (pc', b')"
    using assms(5) by (simp add: numeral_eq_Suc Let_def)
  then have b': "b' = b_DecrementInFlight (cID c) (drop_entry (ID msg)
      (Ack_Register (stamp now msg) (cID c) (b_IncrementInFlight (cID c) b)))"
    by (auto simp: Unregister_def stamp_def)
  have st: "bConsumers b' = on_consumer Consumer_DecrementInFlight (cID c) (bRegistry b)
      (on_consumer Consumer_IncrementInFlight (cID c) (bRegistry b) (bConsumers b))"
    by (simp add: b' b_DecrementInFlight_def b_IncrementInFlight_def Registry_DecrementInFlight_def
        Registry_IncrementInFlight_def drop_entry_def Ack_Register_def)
  have "chan_of b' r = chan_of b r" for r
    unfolding chan_of_def st
    by (auto simp: on_consumer_def Consumer_DecrementInFlight_def Consumer_IncrementInFlight_def split: option.splits)
  moreover have "bManager b' = bManager b" "bWorld b' = bWorld b" by (simp_all add: b')
  ultimately show ?thesis using Unregister_undo [OF assms(1-4) run] by blast
qed

theorem cancelled_send_forgets_witness:
  "\<exists>b'. ((\<lambda>(pc, b). Run [''c1''] 9 True True ''orders'' pc b) ^^ 3)
      (DPicked (sample_message\<lparr>ID := ''x''\<rparr>) 0, sample_broker) = (DReturned, b') \<and>
    bInFlight b' = bInFlight sample_broker \<and> bManager b' = sample_manager \<and> queued sample_manager ''orders'' = []"
proof -
  obtain pc' b' where r: "((\<lambda>(pc, b). Run [''c1''] 9 True True ''orders'' pc b) ^^ 3)
      (DPicked (sample_message\<lparr>ID := ''x''\<rparr>) 0, sample_broker) = (pc', b')" by (metis prod.exhaust)
  have "bConsumers sample_broker 0 = Some sub1" "bInFlight sample_broker (ID (sample_message\<lparr>ID := ''x''\<rparr>)) = None" by simp_all
  moreover have "queued sample_manager ''orders'' = []" by (simp add: queued_def sample_manager_def NewTopic_def)
  ultimately show ?thesis
    using cancelled_send_forgets [OF sample_registry _ _ _ r] sample_conn r by simp
qed

section \<open>The handlers\<close>

text \<open>C26. \<open>Publish\<close> on an open queue, under every script of I/O faults: a returned identifier means
  that the message, with the request's payload and headers and that identifier, is in the log and
  at the back of the topic; an error is an internal status and leaves every topic as it was. The
  in-flight map and the consumers are never touched.\<close>

theorem publish_accepts:
  assumes "queue_open (prQueue req) rs (bManager b) (bWorld b)" "message_ok (published (hex_EncodeToString rnd) now req)"
    and "Publish (Some rnd) now req b = (r, b')"
  shows "bInFlight b' = bInFlight b \<and> bConsumers b' = bConsumers b \<and> bRegistry b' = bRegistry b \<and>
    (case r of
       Inr mid \<Rightarrow> mid = hex_EncodeToString rnd \<and>
         queue_open (prQueue req) (rs @ [message_record (published mid now req)]) (bManager b') (bWorld b') \<and>
         queued (bManager b') (prQueue req) = queued (bManager b) (prQueue req) @ [published mid now req]
     | Inl st \<Rightarrow> stCode st = Internal \<and> bManager b' = bManager b)"
proof -
  let ?msg = "published (hex_EncodeToString rnd) now req"
  obtain err where run: "Manager_Enqueue ?msg (bManager b) (bWorld b) = (err, bManager b', bWorld b')"
    and keep: "bConsumers b' = bConsumers b" "bRegistry b' = bRegistry b" "bInFlight b' = bInFlight b"
    and r: "r = (case err of None \<Rightarrow> Inr (hex_EncodeToString rnd)
          | Some e \<Rightarrow> Inl \<lparr>stCode = Internal, stText = ''enqueue'', stCause = Some e\<rparr>)"
    using Publish_run [OF assms(3)] by metis
  have q: "queue_open (Queue ?msg) rs (bManager b) (bWorld b)" using assms(1) by simp
  obtain t where t: "mTopics (bManager b) (Queue ?msg) = Some t" using queue_openD(2) [OF q] by auto
  show ?thesis
  proof (cases err)
    case None
    with run have run': "Manager_Enqueue ?msg (bManager b) (bWorld b) = (None, bManager b', bWorld b')" by simp
    from Enqueue_success(1) [OF q t assms(2) run'] Manager_Enqueue_queued(3) [OF run'] t keep r None
    show ?thesis by simp
  next
    case (Some e)
    then show ?thesis using Manager_Enqueue_queued(4) [OF run] t keep r by simp
  qed
qed

definition sample_request :: PublishRequest where
  "sample_request = \<lparr>prQueue = ''orders'', prPayload = Some [7], prHeaders = []\<rparr>"

lemma sample_request_ok: "message_ok (published (hex_EncodeToString [1, 2, 3, 4, 5, 6, 7, 8]) 5 sample_request)"
  using sample_ascii(2) by (intro message_okI) (simp_all add: sample_request_def message_size_def max_message_def del: hex_EncodeToString.simps)

theorem publish_accepts_witness:
  "\<exists>r b'. Publish (Some [1, 2, 3, 4, 5, 6, 7, 8]) 5 sample_request sample_broker = (r, b') \<and>
    (case r of
       Inr mid \<Rightarrow> queued (bManager b') ''orders'' = queued sample_manager ''orders'' @ [published mid 5 sample_request]
     | Inl st \<Rightarrow> bManager b' = sample_manager)"
proof -
  obtain r b' where p: "Publish (Some [1, 2, 3, 4, 5, 6, 7, 8]) 5 sample_request sample_broker = (r, b')" by (metis prod.exhaust)
  have q: "queue_open (prQueue sample_request) [] (bManager sample_broker) (bWorld sample_broker)"
    using sample_queue_open by (simp add: sample_request_def)
  from publish_accepts [OF q sample_request_ok p] p show ?thesis
    by (cases r) (auto simp: sample_request_def)
qed



end
