(* ===== verification/BrokerSys.thy ===== *)
theory BrokerSys
  imports Api Scanners
begin

text \<open>
  The running broker: gRPC handlers, dispatchers, acknowledgements, the two scanners and the
  shutdown, interleaved. Besides the server (shared state and dispatcher goroutines) a state holds
  what goroutines are in the middle of:
  \<^item> \<open>yTasks\<close>: acknowledgements, refusals and expiries that have taken their entry out of the
    in-flight map (under the lock of the acknowledgement manager) and have not yet decremented the
    consumer's counter (\<open>TDec\<close>) or called the queue manager (\<open>TAct\<close>);
  \<^item> \<open>yEnq\<close>: calls of \<open>Manager.Enqueue\<close>, by \<open>Publish\<close> or by a refusal, that have passed the check of
    \<open>closing\<close> and are about to enter the manager's critical section (\<open>EOpen\<close>), to write the log
    (\<open>EWrite\<close>) or to push to the topic (\<open>EPush\<close>);
  \<^item> \<open>yExp\<close>: dead letters that an expiry has removed from the topic of a queue and whose tombstone it
    has still to write.

  A step is one critical section or one atomic read, with these exceptions, which merge steps that
  commute with those of the other goroutines or that matter to no theorem: a look-up in the maps of
  the queue manager and the use of the object found (entries are never replaced), a dispatcher's
  reading of all counters for its choice, the two halves of \<open>Unregister\<close>, and the two registrations
  at the opening of \<open>Subscribe\<close>. The opening assumes that the new consumer's identifier, eight
  random bytes in the code, is not that of any earlier consumer.

  The label of a step records what happened to messages: \<open>Accepted\<close> and \<open>Requeued\<close> when the record is
  in the log, before the push and the publisher's answer; \<open>Unsettled\<close> is an acknowledgement or expiry
  whose tombstone could not be written.
\<close>

datatype action = Settle | Refuse

datatype task = TDec action inFlightEntry | TAct action inFlightEntry

datatype caller = ByPublish | ByNack

datatype enq = EOpen caller Message | EWrite caller Message | EPush Message

record System =
  yServer :: Server
  yTasks :: "task list"
  yEnq :: "enq list"
  yExp :: "(string \<times> Message) list"
  yCtxDone :: bool

datatype label = Accepted Message | Requeued Message | Settled MessageID string | Unsettled MessageID string

abbreviation yB :: "System \<Rightarrow> Broker" where "yB s \<equiv> sBroker (yServer s)"
abbreviation yM :: "System \<Rightarrow> Manager" where "yM s \<equiv> bManager (yB s)"
abbreviation yW :: "System \<Rightarrow> world" where "yW s \<equiv> bWorld (yB s)"

definition with_broker :: "Broker \<Rightarrow> System \<Rightarrow> System" where
  "with_broker b s = s\<lparr>yServer := (yServer s)\<lparr>sBroker := b\<rparr>\<rparr>"

definition with_manager :: "Manager \<Rightarrow> world \<Rightarrow> System \<Rightarrow> System" where
  "with_manager m w s = with_broker ((yB s)\<lparr>bManager := m, bWorld := w\<rparr>) s"

definition with_tasks :: "task list \<Rightarrow> System \<Rightarrow> System" where
  "with_tasks ts s = s\<lparr>yTasks := ts\<rparr>"

definition with_enq :: "enq list \<Rightarrow> System \<Rightarrow> System" where
  "with_enq es s = s\<lparr>yEnq := es\<rparr>"

definition with_exp :: "(string \<times> Message) list \<Rightarrow> System \<Rightarrow> System" where
  "with_exp xs s = s\<lparr>yExp := xs\<rparr>"

lemmas with_defs = with_broker_def with_manager_def with_tasks_def with_enq_def with_exp_def

lemma with_simps [simp]:
  "yB (with_broker b s) = b" "sStarted (yServer (with_broker b s)) = sStarted (yServer s)"
  "sDisp (yServer (with_broker b s)) = sDisp (yServer s)" "yTasks (with_broker b s) = yTasks s"
  "yCtxDone (with_broker b s) = yCtxDone s" "yEnq (with_broker b s) = yEnq s" "yExp (with_broker b s) = yExp s"
  "yServer (with_tasks ts s) = yServer s" "yTasks (with_tasks ts s) = ts" "yCtxDone (with_tasks ts s) = yCtxDone s"
  "yEnq (with_tasks ts s) = yEnq s" "yExp (with_tasks ts s) = yExp s"
  "yServer (with_enq es s) = yServer s" "yTasks (with_enq es s) = yTasks s" "yCtxDone (with_enq es s) = yCtxDone s"
  "yEnq (with_enq es s) = es" "yExp (with_enq es s) = yExp s"
  "yServer (with_exp xs s) = yServer s" "yTasks (with_exp xs s) = yTasks s" "yCtxDone (with_exp xs s) = yCtxDone s"
  "yEnq (with_exp xs s) = yEnq s" "yExp (with_exp xs s) = xs"
  by (simp_all add: with_defs)

lemma with_manager_simps [simp]:
  "yM (with_manager m w s) = m" "yW (with_manager m w s) = w" "bInFlight (yB (with_manager m w s)) = bInFlight (yB s)"
  "bConsumers (yB (with_manager m w s)) = bConsumers (yB s)" "bRegistry (yB (with_manager m w s)) = bRegistry (yB s)"
  "bMaxRetries (yB (with_manager m w s)) = bMaxRetries (yB s)" "sStarted (yServer (with_manager m w s)) = sStarted (yServer s)"
  "sDisp (yServer (with_manager m w s)) = sDisp (yServer s)" "yTasks (with_manager m w s) = yTasks s"
  "yCtxDone (with_manager m w s) = yCtxDone s" "yEnq (with_manager m w s) = yEnq s" "yExp (with_manager m w s) = yExp s"
  by (simp_all add: with_manager_def)

text \<open>The broker that \<open>main\<close> sets up on a loaded queue manager.\<close>

definition init_system :: "world \<Rightarrow> Manager \<Rightarrow> int32 \<Rightarrow> System" where
  "init_system w m maxRetries =
     \<lparr>yServer = NewServer (NewAckManager w m NewRegistry maxRetries),
      yTasks = [], yEnq = [], yExp = [], yCtxDone = False\<rparr>"

fun log_label :: "caller \<Rightarrow> Message \<Rightarrow> label" where
  "log_label ByPublish msg = Accepted msg"
| "log_label ByNack msg = Requeued msg"

definition tomb_label :: "error option \<Rightarrow> MessageID \<Rightarrow> string \<Rightarrow> label" where
  "tomb_label err mid q = (case err of None \<Rightarrow> Settled mid q | Some _ \<Rightarrow> Unsettled mid q)"

text \<open>
  The steps. A call that the check of \<open>closing\<close> refuses changes nothing and has no step, except that
  a refusal's message is then dropped. \<open>open_queue\<close> is the critical section of \<open>Dequeue\<close> on its own;
  \<open>dispatch\<close> covers it together with the topic's \<open>Dequeue\<close> (for a queue in use it does nothing).
\<close>

inductive sys_step :: "System \<Rightarrow> label list \<Rightarrow> System \<Rightarrow> bool" where
  publish:
    "\<not> mClosing (yM s) \<Longrightarrow>
     sys_step s [] (with_enq (EOpen ByPublish (published (hex_EncodeToString rnd) now req) # yEnq s) s)"
| enq_open:
    "yEnq s = es @ EOpen c msg # es' \<Longrightarrow> initQueue (Queue msg) (yM s) (yW s) = (err, m, w) \<Longrightarrow>
     sys_step s [] (with_enq (case err of None \<Rightarrow> es @ EWrite c msg # es' | Some _ \<Rightarrow> es @ es') (with_manager m w s))"
| enq_write:
    "yEnq s = es @ EWrite c msg # es' \<Longrightarrow> Enqueue_write msg (yM s) (yW s) = (err, w) \<Longrightarrow>
     sys_step s (case err of None \<Rightarrow> [log_label c msg] | Some _ \<Rightarrow> [])
       (with_enq (case err of None \<Rightarrow> es @ EPush msg # es' | Some _ \<Rightarrow> es @ es') (with_manager (yM s) w s))"
| enq_push:
    "yEnq s = es @ EPush msg # es' \<Longrightarrow>
     sys_step s [] (with_enq (es @ es') (with_manager (Enqueue_push msg (yM s)) (yW s) s))"
| subscribe:
    "Subscribe_open first (Some rnd) now ref (yServer s) = (Inr c, sv) \<Longrightarrow> bConsumers (yB s) ref = None \<Longrightarrow>
     \<forall>r d. bConsumers (yB s) r = Some d \<longrightarrow> cID d \<noteq> cID c \<Longrightarrow>
     sys_step s [] (s\<lparr>yServer := sv\<rparr>)"
| open_queue:
    "sDisp (yServer s) q = Some DDequeue \<Longrightarrow> initQueue q (yM s) (yW s) = (None, m, w) \<Longrightarrow>
     sys_step s [] (with_manager m w s)"
| dispatch:
    "sDisp (yServer s) q = Some pc \<Longrightarrow> range_order order (queue_consumers (bRegistry (yB s)) q) \<Longrightarrow>
     Run order now (yCtxDone s) pd q pc (yB s) = (pc', b) \<Longrightarrow>
     sys_step s [] (s\<lparr>yServer := (yServer s)\<lparr>sBroker := b, sDisp := (sDisp (yServer s))(q \<mapsto> pc')\<rparr>\<rparr>)"
| receive:
    "chan_pop ref (yB s) = Some (msg, b) \<Longrightarrow> sys_step s [] (with_broker b s)"
| take_entry:
    "bInFlight (yB s) i = Some e \<Longrightarrow>
     sys_step s [] (with_tasks (TDec a e # yTasks s) (with_broker (drop_entry i (yB s)) s))"
| deregister:
    "sys_step s [] (with_broker (Subscribe_deregister k (yB s)) s)"
| timeout_scan:
    "range_order order (bInFlight (yB s)) \<Longrightarrow> collect_entries (timed_out d now) order [] (yB s) = (es, b) \<Longrightarrow>
     sys_step s [] (with_tasks (map (TDec Refuse) es @ yTasks s) (with_broker b s))"
| expiry_scan:
    "range_order order (bInFlight (yB s)) \<Longrightarrow> collect_entries (dlq_expired cutoff) order [] (yB s) = (es, b) \<Longrightarrow>
     sys_step s [] (with_tasks (map (TDec Settle) es @ yTasks s) (with_broker b s))"
| expire_topic_step:
    "IsDLQQueue q \<Longrightarrow> mWriters (yM s) q \<noteq> None \<Longrightarrow> expire_remove q cutoff (yM s) (yW s) = (removed, m, w) \<Longrightarrow>
     sys_step s [] (with_exp (map (Pair q) removed @ yExp s) (with_manager m w s))"
| expire_tombstone:
    "yExp s = xs @ (q, x) # xs' \<Longrightarrow> b_WriteTombstone (ID x) q (yB s) = (err, b) \<Longrightarrow>
     sys_step s [tomb_label err (ID x) q] (with_exp (xs @ xs') (with_broker b s))"
| decrement:
    "yTasks s = ts @ TDec a e # ts' \<Longrightarrow>
     sys_step s [] (with_tasks (ts @ TAct a e # ts') (with_broker (b_DecrementInFlight (eConsumerID e) (yB s)) s))"
| tombstone:
    "yTasks s = ts @ TAct Settle e # ts' \<Longrightarrow>
     b_WriteTombstone (ID (eMessage e)) (Queue (eMessage e)) (yB s) = (err, b) \<Longrightarrow>
     sys_step s [tomb_label err (ID (eMessage e)) (Queue (eMessage e))] (with_tasks (ts @ ts') (with_broker b s))"
| requeue:
    "yTasks s = ts @ TAct Refuse e # ts' \<Longrightarrow>
     sys_step s []
       (with_enq (if mClosing (yM s) then yEnq s else EOpen ByNack (nack_target (bMaxRetries (yB s)) now (eMessage e)) # yEnq s)
         (with_tasks (ts @ ts') s))"
| shutdown:
    "sys_step s [] (with_manager (BeginShutdown (yM s)) (yW s) s)"
| cancel:
    "sys_step s [] (s\<lparr>yCtxDone := True\<rparr>)"

text \<open>Runs with the labels of their steps.\<close>

abbreviation runs :: "System \<Rightarrow> label list \<Rightarrow> System \<Rightarrow> bool" where
  "runs \<equiv> trace sys_step"

lemmas run1 = trace1 [of sys_step]

subsection \<open>The sequential methods are runs of steps\<close>

text \<open>The whole methods, run without interference, are the steps of the relation in the order of the
  code.\<close>

lemma with_collapse [simp]:
  "with_broker b (with_broker b' s) = with_broker b s" "with_tasks ts (with_tasks ts' s) = with_tasks ts s"
  "with_enq es (with_enq es' s) = with_enq es s" "with_exp xs (with_exp xs' s) = with_exp xs s"
  "with_manager m w (with_manager m' w' s) = with_manager m w s"
  "with_broker b (with_tasks ts s) = with_tasks ts (with_broker b s)"
  "with_broker b (with_enq es s) = with_enq es (with_broker b s)"
  "with_broker b (with_exp xs s) = with_exp xs (with_broker b s)"
  "with_manager m w (with_tasks ts s) = with_tasks ts (with_manager m w s)"
  "with_manager m w (with_enq es s) = with_enq es (with_manager m w s)"
  "with_manager m w (with_exp xs s) = with_exp xs (with_manager m w s)"
  "with_enq es (with_tasks ts s) = with_tasks ts (with_enq es s)"
  by (simp_all add: with_defs)

lemma with_idle [simp]:
  "with_tasks (yTasks s) (with_broker b s) = with_broker b s" "with_tasks (yTasks s) s = s"
  "with_enq (yEnq s) (with_manager m w s) = with_manager m w s" "with_enq (yEnq s) (with_broker b s) = with_broker b s"
  "with_exp (yExp s) (with_manager m w s) = with_manager m w s" "with_manager (yM s) (yW s) s = s"
  "with_enq (yEnq s) s = s"
  by (simp_all add: with_defs)

lemma b_Enqueue_manager:
  "b_Enqueue msg (yB s) = (err, b) \<Longrightarrow>
     Manager_Enqueue msg (yM s) (yW s) = (err, bManager b, bWorld b) \<and> with_broker b s = with_manager (bManager b) (bWorld b) s"
  by (auto simp: b_Enqueue_def with_manager_def split: prod.splits)

lemma Enqueue_as_steps:
  assumes inv: "mgr_inv (yM s)" and cl: "\<not> mClosing (yM s)" and run: "b_Enqueue msg (yB s) = (err, b)"
  shows "runs (with_enq (EOpen c msg # yEnq s) s) (case err of None \<Rightarrow> [log_label c msg] | Some _ \<Rightarrow> []) (with_broker b s)"
proof -
  let ?s0 = "with_enq (EOpen c msg # yEnq s) s"
  note e = b_Enqueue_manager [OF run]
  obtain e1 m1 w1 where i: "initQueue (Queue msg) (yM s) (yW s) = (e1, m1, w1)" by (metis prod.exhaust)
  note s1 = run1 [OF enq_open [of ?s0 "[]" c msg "yEnq s" e1 m1 w1]]
  show ?thesis
  proof (cases e1)
    case (Some x)
    then have "err = Some x" "bManager b = m1" "bWorld b = w1" using e Enqueue_parts [OF inv, of msg "yW s"] cl i by auto
    with s1 i e Some show ?thesis by simp
  next
    case None
    obtain e2 w2 where w2: "Enqueue_write msg m1 w1 = (e2, w2)" by (metis prod.exhaust)
    let ?s1 = "with_enq (EWrite c msg # yEnq s) (with_manager m1 w1 s)"
    have r1: "runs ?s0 [] ?s1" using s1 i None by simp
    note s2 = run1 [OF enq_write [of ?s1 "[]" c msg "yEnq s" e2 w2]]
    show ?thesis
    proof (cases e2)
      case (Some x)
      then have "err = Some x" "bManager b = m1" "bWorld b = w2" using e Enqueue_parts [OF inv, of msg "yW s"] cl i w2 None by auto
      with trace_append [OF r1 s2] w2 e Some show ?thesis by simp
    next
      case e2: None
      let ?s2 = "with_enq (EPush msg # yEnq s) (with_manager m1 w2 s)"
      have b: "err = None" "bManager b = Enqueue_push msg m1" "bWorld b = w2"
        using e Enqueue_parts [OF inv, of msg "yW s"] cl i w2 None e2 by auto
      have "runs ?s1 [log_label c msg] ?s2" using s2 w2 e2 by simp
      from trace_append [OF r1 this] have "runs ?s0 [log_label c msg] ?s2" by simp
      moreover have "runs ?s2 [] (with_broker b s)" using run1 [OF enq_push [of ?s2 "[]" msg "yEnq s"]] b e by simp
      ultimately show ?thesis using trace_append b(1) by fastforce
    qed
  qed
qed

lemma Publish_as_steps:
  assumes inv: "mgr_inv (yM s)" and run: "Publish (Some rnd) now req (yB s) = (r, b)"
  shows "runs s (case r of Inr _ \<Rightarrow> [Accepted (published (hex_EncodeToString rnd) now req)] | Inl _ \<Rightarrow> []) (with_broker b s)"
proof -
  let ?msg = "published (hex_EncodeToString rnd) now req"
  obtain err b' where e: "b_Enqueue ?msg (yB s) = (err, b')" by (metis prod.exhaust)
  have b: "b = b'" "(case r of Inr _ \<Rightarrow> [Accepted ?msg] | Inl _ \<Rightarrow> []) = (case err of None \<Rightarrow> [log_label ByPublish ?msg] | Some _ \<Rightarrow> [])"
    using run e by (auto simp: Publish_def newMessageID_def split: option.splits)
  show ?thesis
  proof (cases "mClosing (yM s)")
    case True
    then have "err \<noteq> None" "with_broker b s = s" using e b(1) by (auto simp: b_Enqueue_def Manager_Enqueue_def with_broker_def)
    then show ?thesis unfolding b(2) by (auto simp: trace_refl)
  next
    case False
    from trace_append [OF run1 [OF publish [OF False, of rnd now req]] Enqueue_as_steps [OF inv False e, of ByPublish]]
    show ?thesis unfolding b by simp
  qed
qed

lemma Ack_as_steps:
  assumes inv: "ack_inv (yB s)" and e: "bInFlight (yB s) i = Some e"
  shows "runs s [tomb_label (fst (Ack i (yB s))) i (Queue (eMessage e))] (with_broker (snd (Ack i (yB s))) s)"
proof -
  have i: "ID (eMessage e) = i" using ack_invD [OF inv e] .
  let ?s1 = "with_tasks (TDec Settle e # yTasks s) (with_broker (drop_entry i (yB s)) s)"
  let ?b2 = "b_DecrementInFlight (eConsumerID e) (drop_entry i (yB s))"
  let ?s2 = "with_tasks (TAct Settle e # yTasks s) (with_broker ?b2 s)"
  have s1: "sys_step s [] ?s1" using take_entry [OF e] .
  have s2: "sys_step ?s1 [] ?s2" using decrement [of ?s1 "[]" Settle e "yTasks s"] by simp
  obtain err b3 where b3: "b_WriteTombstone i (Queue (eMessage e)) ?b2 = (err, b3)" by (metis prod.exhaust)
  have "sys_step ?s2 [tomb_label err i (Queue (eMessage e))] (with_broker b3 s)"
    using tombstone [of ?s2 "[]" e "yTasks s" err b3] b3 i by simp
  moreover have "Ack i (yB s) = (err, b3)" using e b3 by (simp add: Ack_def)
  ultimately show ?thesis using trace_append [OF run1 [OF s1] trace_append [OF run1 [OF s2] run1]] by simp
qed

lemma Nack_as_steps:
  assumes inv: "mgr_inv (yM s)" and e: "bInFlight (yB s) i = Some e"
  shows "runs s (case fst (Nack now i (yB s)) of None \<Rightarrow> [Requeued (nack_target (bMaxRetries (yB s)) now (eMessage e))] | Some _ \<Rightarrow> [])
    (with_broker (snd (Nack now i (yB s))) s)"
proof -
  let ?s1 = "with_tasks (TDec Refuse e # yTasks s) (with_broker (drop_entry i (yB s)) s)"
  let ?b2 = "b_DecrementInFlight (eConsumerID e) (drop_entry i (yB s))"
  let ?s2 = "with_tasks (TAct Refuse e # yTasks s) (with_broker ?b2 s)"
  let ?t = "nack_target (bMaxRetries (yB s)) now (eMessage e)"
  have "sys_step s [] ?s1" using take_entry [OF e] .
  moreover have "sys_step ?s1 [] ?s2" using decrement [of ?s1 "[]" Refuse e "yTasks s"] by simp
  ultimately have r2: "runs s [] ?s2" using trace_append [OF run1 run1] by fastforce
  obtain err b3 where b3: "b_Enqueue ?t ?b2 = (err, b3)" by (metis prod.exhaust)
  then have n: "Nack now i (yB s) = (err, b3)" using e by (simp add: Nack_def nackEntry_target)
  note rq = run1 [OF requeue [of ?s2 "[]" e "yTasks s" now]]
  show ?thesis
  proof (cases "mClosing (yM s)")
    case True
    then have "b3 = ?b2" "err \<noteq> None" using b3 by (auto simp: b_Enqueue_def Manager_Enqueue_def intro!: Broker.equality)
    with trace_append [OF r2 rq] True n show ?thesis by auto
  next
    case False
    let ?s3 = "with_broker ?b2 s"
    have "runs ?s2 [] (with_enq (EOpen ByNack ?t # yEnq ?s3) ?s3)" using rq False by simp
    from trace_append [OF r2 this] have "runs s [] (with_enq (EOpen ByNack ?t # yEnq ?s3) ?s3)" by simp
    from trace_append [OF this Enqueue_as_steps [of ?s3 ?t err b3 ByNack]] inv False b3 n show ?thesis by (cases err) simp_all
  qed
qed

lemma tombstones_as_steps:
  assumes "mWriters (yM s) q = Some wr" "tombstone_all wr xs fe (yW s) = (err, w)"
  shows "\<exists>ls. runs (with_exp (map (Pair q) xs @ yExp s) s) ls (with_manager (yM s) w s) \<and>
    list_all2 (\<lambda>x l. \<exists>err. l = tomb_label err (ID x) q) xs ls"
  using assms
proof (induction xs arbitrary: s fe)
  case Nil
  then show ?case using trace_refl by (fastforce simp: with_defs)
next
  case (Cons x xs)
  let ?s0 = "with_exp (map (Pair q) (x # xs) @ yExp s) s"
  obtain e1 w1 where w1: "WriteTombstone wr (ID x) (yW s) = (e1, w1)" by (metis prod.exhaust)
  let ?s1 = "with_manager (yM s) w1 s"
  have st: "sys_step ?s0 [tomb_label e1 (ID x) q] (with_exp (map (Pair q) xs @ yExp s) ?s1)"
    using expire_tombstone [of ?s0 "[]" q x "map (Pair q) xs @ yExp s" e1 "(yB s)\<lparr>bWorld := w1\<rparr>"] Cons.prems(1) w1
    by (simp add: b_WriteTombstone_def Manager_WriteTombstone_def with_defs)
  obtain ls where ls: "runs (with_exp (map (Pair q) xs @ yExp s) ?s1) ls (with_manager (yM s) w s)"
    "list_all2 (\<lambda>x l. \<exists>err. l = tomb_label err (ID x) q) xs ls"
    using Cons.IH [of ?s1 "first_err fe e1"] Cons.prems w1 by auto
  from trace_append [OF run1 [OF st] ls(1)] ls(2) show ?case
    by (intro exI [of _ "tomb_label e1 (ID x) q # ls"]) auto
qed

lemma expire_as_steps:
  assumes q: "IsDLQQueue q" "known (yM s) q" and run: "expireDLQQueue q cutoff (yM s) (yW s) = (res, m, w)"
  shows "\<exists>ls. runs s ls (with_manager m w s) \<and>
    list_all2 (\<lambda>x l. \<exists>err. l = tomb_label err (ID x) q) (filter (expired cutoff) (queued (yM s) q)) ls"
proof -
  obtain removed m1 w1 where r: "expire_remove q cutoff (yM s) (yW s) = (removed, m1, w1)" by (metis prod.exhaust)
  obtain t where t: "mTopics (yM s) q = Some t" using q(2) by (auto simp: known_def)
  let ?s1 = "with_manager m1 w1 s"
  have m1: "mWriters m1 q = Some (open_writer (mWalDir (yM s)) q)" "removed = filter (expired cutoff) (queued (yM s) q)"
    using r q(2) t unfolding expire_remove_known [OF q(2) t] by (auto simp: known_def queued_def)
  obtain err where a: "tombstone_all (open_writer (mWalDir (yM s)) q) removed None w1 = (err, w)" "m = m1"
    using expire_parts [OF q(2) r] run by (auto split: prod.splits)
  have "mWriters (yM s) q \<noteq> None" using q(2) by (simp add: known_def)
  then have st: "sys_step s [] (with_exp (map (Pair q) removed @ yExp ?s1) ?s1)" using expire_topic_step [OF q(1) _ r] by simp
  obtain ls where ls: "runs (with_exp (map (Pair q) removed @ yExp ?s1) ?s1) ls (with_manager m w s)"
    "list_all2 (\<lambda>x l. \<exists>err. l = tomb_label err (ID x) q) removed ls"
    using tombstones_as_steps [of ?s1 q _ removed None err w] m1(1) a by auto
  from trace_append [OF run1 [OF st] ls(1)] ls(2) m1(2) show ?thesis by (intro exI [of _ ls]) simp
qed

end
