(* ===== verification/BrokerInv.thy ===== *)
theory BrokerInv
  imports BrokerSys
begin

text \<open>
  Safety of the interleaved broker: one dispatcher per queue, registry and in-flight map in
  order, and the in-flight counter of every connected consumer between the deliveries it owes
  and its prefetch limit.
\<close>

subsection \<open>Counting\<close>

lemma sint_minus_one:
  assumes "0 < sint (a :: int32)"
  shows "sint (a - 1) = sint a - 1"
proof -
  have "a - 1 = word_of_int (sint a - 1)" by simp
  moreover have "- (2 ^ (LENGTH(32) - 1)) \<le> sint a - 1" "sint a - 1 < 2 ^ (LENGTH(32) - 1)"
    using assms sint_range [of a] by auto
  ultimately show ?thesis by (simp only: sint_word_of_int_inv)
qed

text \<open>In-flight entries of a consumer.\<close>

definition entries_of :: "(MessageID \<rightharpoonup> inFlightEntry) \<Rightarrow> string \<Rightarrow> nat" where
  "entries_of fl k = card {i. \<exists>e. fl i = Some e \<and> eConsumerID e = k}"

lemma finite_entries: "finite (dom fl) \<Longrightarrow> finite {i. \<exists>e. fl i = Some e \<and> P e}"
  by (rule finite_subset [of _ "dom fl"]) auto

lemma entries_drop:
  assumes "finite (dom fl)" "fl i = Some e"
  shows "entries_of fl k = entries_of (fl(i := None)) k + (if eConsumerID e = k then 1 else 0)"
proof -
  let ?A = "{j. \<exists>e. fl j = Some e \<and> eConsumerID e = k}"
  have "{j. \<exists>e. (fl(i := None)) j = Some e \<and> eConsumerID e = k} = ?A - {i}" by auto
  moreover have "i \<in> ?A \<longleftrightarrow> eConsumerID e = k" using assms(2) by auto
  moreover have "card ?A = card (?A - {i}) + (if i \<in> ?A then 1 else 0)"
    using card.remove [OF finite_entries [OF assms(1)], of i "\<lambda>e. eConsumerID e = k"] by auto
  ultimately show ?thesis by (simp add: entries_of_def)
qed

lemma entries_drop_le: "finite (dom fl) \<Longrightarrow> entries_of (fl(i := None)) k \<le> entries_of fl k"
  by (cases "fl i") (auto simp: entries_drop fun_upd_idem)

lemma entries_put:
  assumes "finite (dom fl)"
  shows "entries_of (fl(i \<mapsto> e)) k \<le> entries_of fl k + (if eConsumerID e = k then 1 else 0)"
proof -
  have "entries_of (fl(i \<mapsto> e)) k = entries_of (fl(i := None)) k + (if eConsumerID e = k then 1 else 0)"
    using entries_drop [of "fl(i \<mapsto> e)" i e k] assms by simp
  with entries_drop_le [OF assms, of i k] show ?thesis by simp
qed

text \<open>Tasks that still have to decrement a consumer's counter.\<close>

fun pending :: "string \<Rightarrow> task \<Rightarrow> bool" where
  "pending k (TDec a e) = (eConsumerID e = k)"
| "pending k (TAct a e) = False"

definition owed :: "(MessageID \<rightharpoonup> inFlightEntry) \<Rightarrow> task list \<Rightarrow> dispatcher option \<Rightarrow> string \<Rightarrow> cref \<Rightarrow> nat" where
  "owed fl ts pc k ref =
     entries_of fl k + length (filter (pending k) ts) +
     (if \<exists>msg. pc = Some (DCounted msg ref) then 1 else 0)"

text \<open>A scan that moves entries to tasks leaves the sum as it is.\<close>

lemma pending_collected: "pending k \<circ> TDec a = (\<lambda>e. eConsumerID e = k)"
  by auto

lemma owed_collect:
  assumes ord: "range_order order (bInFlight b)" and c: "collect_entries P order [] b = (es, b')"
    and fin: "finite (dom (bInFlight b))"
  shows "owed (bInFlight b') (map (TDec a) es @ ts) pc k ref = owed (bInFlight b) ts pc k ref"
proof -
  note all = collect_entries_all [OF ord c]
  let ?A = "{i. \<exists>e. bInFlight b i = Some e \<and> eConsumerID e = k}"
  let ?T = "{i. \<exists>e. bInFlight b i = Some e \<and> (P e \<and> eConsumerID e = k)}"
  let ?K = "{i. \<exists>e. bInFlight b' i = Some e \<and> eConsumerID e = k}"
  have K: "?K = {i. \<exists>e. bInFlight b i = Some e \<and> (\<not> P e \<and> eConsumerID e = k)}"
    unfolding all(1) by (auto simp: keep_entries_def split: option.splits if_splits)
  have "length (filter (\<lambda>e. eConsumerID e = k) es) =
      length (filter (\<lambda>i. (\<exists>e. bInFlight b i = Some e \<and> P e) \<and> eConsumerID (the (bInFlight b i)) = k) order)"
    unfolding all(2) by (simp add: filter_map o_def conj_commute)
  also have "\<dots> = card (set (filter (\<lambda>i. (\<exists>e. bInFlight b i = Some e \<and> P e) \<and> eConsumerID (the (bInFlight b i)) = k) order))"
    using range_orderD(1) [OF ord] by (simp only: distinct_card distinct_filter)
  also have "set (filter (\<lambda>i. (\<exists>e. bInFlight b i = Some e \<and> P e) \<and> eConsumerID (the (bInFlight b i)) = k) order) = ?T"
    using range_orderD(3) [OF ord] by auto
  finally have T: "length (filter (\<lambda>e. eConsumerID e = k) es) = card ?T" .
  have "card ?A = card (?K \<union> ?T)" unfolding K by (rule arg_cong [of _ _ card]) auto
  also have "\<dots> = card ?K + card ?T"
    unfolding K by (intro card_Un_disjoint finite_entries fin) auto
  finally show ?thesis using T by (simp add: owed_def entries_of_def pending_collected)
qed

subsection \<open>What identifies a consumer\<close>

text \<open>A consumer's name, queue and limit never change after its creation.\<close>

definition face :: "Consumer \<Rightarrow> string \<times> string \<times> int32" where
  "face c = (cID c, cQueue c, cPrefetchLimit c)"

definition faces :: "cstore \<Rightarrow> cref \<Rightarrow> (string \<times> string \<times> int32) option" where
  "faces st ref = map_option face (st ref)"

lemma facesD:
  assumes "faces st' = faces st" "st ref = Some c"
  obtains c' where "st' ref = Some c'" "cID c' = cID c" "cQueue c' = cQueue c" "cPrefetchLimit c' = cPrefetchLimit c"
proof -
  have "map_option face (st' ref) = Some (face c)" using fun_cong [OF assms(1), of ref] assms(2) by (simp add: faces_def)
  then show ?thesis using that by (auto simp: face_def)
qed

lemma reg_inv_faces:
  assumes f: "faces st' = faces st" and inv: "reg_inv r st"
  shows "reg_inv r st'"
  unfolding reg_inv_def
proof (intro conjI allI impI)
  fix k ref assume "byID r k = Some ref"
  then obtain c where "st ref = Some c" "cID c = k" "queue_consumers r (cQueue c) k = Some ref"
    using reg_invD(1) [OF inv] by blast
  then show "\<exists>c. st' ref = Some c \<and> cID c = k \<and> queue_consumers r (cQueue c) k = Some ref"
    using facesD [OF f] by metis
next
  fix q k ref assume q: "queue_consumers r q k = Some ref"
  then show "byID r k = Some ref" using reg_invD(2) [OF inv] by blast
  obtain c where "st ref = Some c" "cQueue c = q" using reg_invD(2) [OF inv q] by blast
  then show "\<exists>c. st' ref = Some c \<and> cQueue c = q" using facesD [OF f] by metis
qed

lemma faces_on_consumer:
  "(\<And>c. face (f c) = face c) \<Longrightarrow> faces (on_consumer f k r st) = faces st"
  by (auto simp: faces_def on_consumer_def fun_eq_iff split: option.splits)

lemma faces_counters [simp]:
  "faces (Registry_IncrementInFlight k r st) = faces st" "faces (Registry_DecrementInFlight k r st) = faces st"
  by (auto simp: Registry_IncrementInFlight_def Registry_DecrementInFlight_def Consumer_IncrementInFlight_def
      Consumer_DecrementInFlight_def face_def intro!: faces_on_consumer)

text \<open>The same, with the counter: what a send or receive on the channel leaves alone.\<close>

definition counts :: "cstore \<Rightarrow> cref \<Rightarrow> ((string \<times> string \<times> int32) \<times> int32) option" where
  "counts st ref = map_option (\<lambda>c. (face c, cInFlight c)) (st ref)"

lemma counts_faces: "counts st' = counts st \<Longrightarrow> faces st' = faces st"
proof
  fix ref assume "counts st' = counts st"
  then have "map_option fst (counts st' ref) = map_option fst (counts st ref)" by simp
  then show "faces st' ref = faces st ref" by (simp add: counts_def faces_def option.map_comp o_def)
qed

lemma countsD:
  assumes "counts st' = counts st" "st' ref = Some c'"
  obtains c where "st ref = Some c" "cID c' = cID c" "cQueue c' = cQueue c" "cPrefetchLimit c' = cPrefetchLimit c"
    "cInFlight c' = cInFlight c"
proof -
  have "map_option (\<lambda>c. (face c, cInFlight c)) (st ref) = Some (face c', cInFlight c')"
    using fun_cong [OF assms(1), of ref] assms(2) by (simp add: counts_def)
  then show ?thesis using that by (auto simp: face_def)
qed

lemma counts_push: "counts (bConsumers (chan_push ref msg b)) = counts (bConsumers b)"
  by (auto simp: chan_push_def counts_def face_def fun_eq_iff split: option.splits)

lemma counts_pop: "chan_pop ref b = Some (msg, b') \<Longrightarrow> counts (bConsumers b') = counts (bConsumers b)"
  by (auto simp: chan_pop_def counts_def face_def fun_eq_iff split: option.splits list.splits)

subsection \<open>The structural invariant\<close>

fun holds_ref :: "dispatcher \<Rightarrow> cref \<Rightarrow> bool" where
  "holds_ref (DPicked m ref) r = (ref = r)"
| "holds_ref (DCounted m ref) r = (ref = r)"
| "holds_ref (DSending m ref) r = (ref = r)"
| "holds_ref _ r = False"

fun task_entry :: "task \<Rightarrow> inFlightEntry" where
  "task_entry (TDec a e) = e"
| "task_entry (TAct a e) = e"

definition owner :: "cstore \<Rightarrow> inFlightEntry \<Rightarrow> bool" where
  "owner st e \<longleftrightarrow> (\<exists>ref c. st ref = Some c \<and> cID c = eConsumerID e)"

definition shape :: "Broker \<Rightarrow> (string \<rightharpoonup> dispatcher) \<Rightarrow> task list \<Rightarrow> bool" where
  "shape b D ts \<longleftrightarrow>
     reg_inv (bRegistry b) (bConsumers b) \<and> finite (dom (bInFlight b)) \<and> ack_inv b \<and>
     (\<forall>r r' c c'. bConsumers b r = Some c \<longrightarrow> bConsumers b r' = Some c' \<longrightarrow> cID c = cID c' \<longrightarrow> r = r') \<and>
     (\<forall>i e. bInFlight b i = Some e \<longrightarrow> owner (bConsumers b) e) \<and>
     (\<forall>t \<in> set ts. owner (bConsumers b) (task_entry t)) \<and>
     (\<forall>q pc ref. D q = Some pc \<longrightarrow> holds_ref pc ref \<longrightarrow> (\<exists>c. bConsumers b ref = Some c \<and> cQueue c = q))"

lemma shapeD:
  assumes "shape b D ts"
  shows "reg_inv (bRegistry b) (bConsumers b)" "finite (dom (bInFlight b))" "ack_inv b"
    "bConsumers b r = Some c \<Longrightarrow> bConsumers b r' = Some c' \<Longrightarrow> cID c = cID c' \<Longrightarrow> r = r'"
    "bInFlight b i = Some e \<Longrightarrow> owner (bConsumers b) e"
    "t \<in> set ts \<Longrightarrow> owner (bConsumers b) (task_entry t)"
    "D q = Some pc \<Longrightarrow> holds_ref pc ref \<Longrightarrow> \<exists>c. bConsumers b ref = Some c \<and> cQueue c = q"
  using assms unfolding shape_def by blast+

text \<open>Steps that keep the consumers' faces and add no foreign entry keep the shape.\<close>

lemma owner_faces: "faces st' = faces st \<Longrightarrow> owner st e \<Longrightarrow> owner st' e"
  unfolding owner_def by (metis facesD)

lemma shape_step:
  assumes s: "shape b D ts" and f: "faces (bConsumers b') = faces (bConsumers b)" and r: "bRegistry b' = bRegistry b"
    and fl: "finite (dom (bInFlight b'))" "ack_inv b'" "\<And>i e. bInFlight b' i = Some e \<Longrightarrow> owner (bConsumers b) e"
    and ts: "\<And>t. t \<in> set ts' \<Longrightarrow> owner (bConsumers b) (task_entry t)"
    and D: "\<And>q pc ref. D' q = Some pc \<Longrightarrow> holds_ref pc ref \<Longrightarrow> \<exists>c. bConsumers b ref = Some c \<and> cQueue c = q"
  shows "shape b' D' ts'"
  unfolding shape_def
proof (intro conjI allI impI ballI)
  show "reg_inv (bRegistry b') (bConsumers b')" using reg_inv_faces [OF f] shapeD(1) [OF s] r by simp
  show "finite (dom (bInFlight b'))" "ack_inv b'" by (fact fl)+
  show "ra = r'" if "bConsumers b' ra = Some c" "bConsumers b' r' = Some c'" "cID c = cID c'" for ra r' c c'
    using shapeD(4) [OF s] that by (metis facesD [OF f [symmetric]])
  show "owner (bConsumers b') e" if "bInFlight b' i = Some e" for i e using owner_faces [OF f] fl(3) that by blast
  show "owner (bConsumers b') (task_entry t)" if "t \<in> set ts'" for t using owner_faces [OF f] ts that by blast
  show "\<exists>c. bConsumers b' ref = Some c \<and> cQueue c = q" if "D' q = Some pc" "holds_ref pc ref" for q pc ref
    using D [OF that] by (metis facesD [OF f])
qed

subsection \<open>The counter invariant\<close>

definition counters :: "Broker \<Rightarrow> (string \<rightharpoonup> dispatcher) \<Rightarrow> task list \<Rightarrow> bool" where
  "counters b D ts \<longleftrightarrow>
     (\<forall>k ref c. byID (bRegistry b) k = Some ref \<longrightarrow> bConsumers b ref = Some c \<longrightarrow>
        int (owed (bInFlight b) ts (D (cQueue c)) k ref) \<le> sint (cInFlight c) \<and>
        sint (cInFlight c) \<le> sint (cPrefetchLimit c) \<and>
        (\<forall>msg. D (cQueue c) = Some (DPicked msg ref) \<longrightarrow> sint (cInFlight c) < sint (cPrefetchLimit c)))"

lemma countersD:
  assumes "counters b D ts" "byID (bRegistry b) k = Some ref" "bConsumers b ref = Some c"
  shows "int (owed (bInFlight b) ts (D (cQueue c)) k ref) \<le> sint (cInFlight c)"
    "sint (cInFlight c) \<le> sint (cPrefetchLimit c)"
    "D (cQueue c) = Some (DPicked msg ref) \<Longrightarrow> sint (cInFlight c) < sint (cPrefetchLimit c)"
  using assms unfolding counters_def by blast+

lemma countersI:
  assumes "\<And>k ref c. byID (bRegistry b) k = Some ref \<Longrightarrow> bConsumers b ref = Some c \<Longrightarrow>
      int (owed (bInFlight b) ts (D (cQueue c)) k ref) \<le> sint (cInFlight c) \<and>
      sint (cInFlight c) \<le> sint (cPrefetchLimit c) \<and>
      (\<forall>msg. D (cQueue c) = Some (DPicked msg ref) \<longrightarrow> sint (cInFlight c) < sint (cPrefetchLimit c))"
  shows "counters b D ts"
  using assms unfolding counters_def by blast

text \<open>Steps that move no counter and owe no more.\<close>

lemma counters_mono:
  assumes inv: "counters b D ts" and ct: "counts (bConsumers b') = counts (bConsumers b)"
    and rg: "\<And>k ref. byID (bRegistry b') k = Some ref \<Longrightarrow> byID (bRegistry b) k = Some ref"
    and ow: "\<And>k ref q. owed (bInFlight b') ts' (D' q) k ref \<le> owed (bInFlight b) ts (D q) k ref"
    and pk: "\<And>q msg ref c. D' q = Some (DPicked msg ref) \<Longrightarrow> bConsumers b ref = Some c \<Longrightarrow> cQueue c = q \<Longrightarrow>
        D q = Some (DPicked msg ref) \<or> IsEligible c"
  shows "counters b' D' ts'"
proof (rule countersI)
  fix k ref c' assume k: "byID (bRegistry b') k = Some ref" and c': "bConsumers b' ref = Some c'"
  obtain c where c: "bConsumers b ref = Some c" "cID c' = cID c" "cQueue c' = cQueue c"
    "cPrefetchLimit c' = cPrefetchLimit c" "cInFlight c' = cInFlight c" using countsD [OF ct c'] .
  note old = countersD [OF inv rg [OF k] c(1)]
  have "int (owed (bInFlight b') ts' (D' (cQueue c)) k ref) \<le> sint (cInFlight c)"
    using old(1) ow [of "cQueue c" k ref] by linarith
  moreover have "sint (cInFlight c) < sint (cPrefetchLimit c)" if "D' (cQueue c) = Some (DPicked msg ref)" for msg
    using pk [OF that c(1) refl] old(3) by (auto simp: IsEligible_def)
  ultimately show "int (owed (bInFlight b') ts' (D' (cQueue c')) k ref) \<le> sint (cInFlight c') \<and>
      sint (cInFlight c') \<le> sint (cPrefetchLimit c') \<and>
      (\<forall>msg. D' (cQueue c') = Some (DPicked msg ref) \<longrightarrow> sint (cInFlight c') < sint (cPrefetchLimit c'))"
    using c old(2) by auto
qed

text \<open>A decrement that pays a debt.\<close>

lemma counters_dec:
  assumes inv: "counters b D ts" and reg: "reg_inv (bRegistry b) (bConsumers b)"
    and b': "bConsumers b' = Registry_DecrementInFlight k0 (bRegistry b) (bConsumers b)" "bRegistry b' = bRegistry b"
    and ow: "\<And>k ref q. owed (bInFlight b') ts' (D' q) k ref + (if k = k0 then 1 else 0) \<le> owed (bInFlight b) ts (D q) k ref"
    and pk: "\<And>q msg ref. D' q = Some (DPicked msg ref) \<Longrightarrow> D q = Some (DPicked msg ref)"
  shows "counters b' D' ts'"
proof (rule countersI)
  fix k ref c' assume k: "byID (bRegistry b') k = Some ref" and c': "bConsumers b' ref = Some c'"
  then have k: "byID (bRegistry b) k = Some ref" using b'(2) by simp
  then obtain c where c: "bConsumers b ref = Some c" using reg_invD(1) [OF reg] by blast
  note old = countersD [OF inv k c]
  have new: "c' = (if k = k0 then Consumer_DecrementInFlight c else c)"
    using Registry_counters(4) [OF reg, of k0 k] c' c k b'(1) by (auto simp: connected_def split: if_splits)
  have face: "cQueue c' = cQueue c" "cPrefetchLimit c' = cPrefetchLimit c"
    using new by (auto simp: Consumer_DecrementInFlight_def)
  have "sint (cInFlight c') = sint (cInFlight c) - (if k = k0 then 1 else 0)"
    using new old(1) ow [of "cQueue c" k ref]
    by (auto simp: Consumer_DecrementInFlight_def intro!: sint_minus_one)
  with old(1,2) ow [of "cQueue c" k ref] face old(3) pk
  show "int (owed (bInFlight b') ts' (D' (cQueue c')) k ref) \<le> sint (cInFlight c') \<and>
      sint (cInFlight c') \<le> sint (cPrefetchLimit c') \<and>
      (\<forall>msg. D' (cQueue c') = Some (DPicked msg ref) \<longrightarrow> sint (cInFlight c') < sint (cPrefetchLimit c'))"
    by (auto split: if_splits)
qed

text \<open>The dispatcher's increment.\<close>

lemma counters_inc:
  assumes inv: "counters b D ts" and sh: "shape b D ts"
    and D: "D q = Some (DPicked msg ref)" and D': "D' = D(q \<mapsto> DCounted msg ref)"
    and b': "b' = b_IncrementInFlight (ref_ID b ref) b"
  shows "counters b' D' ts"
proof (rule countersI)
  let ?k0 = "ref_ID b ref"
  note reg = shapeD(1) [OF sh]
  fix k r c' assume "byID (bRegistry b') k = Some r" and c': "bConsumers b' r = Some c'"
  then have k: "byID (bRegistry b) k = Some r" using b' by simp
  then obtain c where c: "bConsumers b r = Some c" "cID c = k" using reg_invD(1) [OF reg] by blast
  obtain d where d: "bConsumers b ref = Some d" "cQueue d = q" using shapeD(7) [OF sh D] by auto
  have k0: "?k0 = cID d" using d by (simp add: ref_ID_def)
  have same: "k = ?k0 \<longleftrightarrow> r = ref" using shapeD(4) [OF sh c(1) d(1)] c d k0 by auto
  note old = countersD [OF inv k c(1)]
  have new: "c' = (if k = ?k0 then Consumer_IncrementInFlight c else c)"
    using Registry_counters(3) [OF reg, of ?k0 k] c' c k b'
    by (auto simp: connected_def b_IncrementInFlight_def split: if_splits)
  have face: "cQueue c' = cQueue c" "cPrefetchLimit c' = cPrefetchLimit c"
    using new by (auto simp: Consumer_IncrementInFlight_def)
  show "int (owed (bInFlight b') ts (D' (cQueue c')) k r) \<le> sint (cInFlight c') \<and>
      sint (cInFlight c') \<le> sint (cPrefetchLimit c') \<and>
      (\<forall>msg. D' (cQueue c') = Some (DPicked msg r) \<longrightarrow> sint (cInFlight c') < sint (cPrefetchLimit c'))"
  proof (cases "r = ref")
    case True
    then have q: "cQueue c = q" and lt: "sint (cInFlight c) < sint (cPrefetchLimit c)"
      using c d old(3) [of msg] D by auto
    have "sint (cInFlight c') = sint (cInFlight c) + 1"
      using new same True sint_plus_one [OF lt] by (simp add: Consumer_IncrementInFlight_def)
    with old lt face q D D' b' True show ?thesis by (simp add: owed_def)
  next
    case False
    then have "c' = c" using new same by simp
    with old b' False D D' show ?thesis by (auto simp: owed_def)
  qed
qed

subsection \<open>Every step keeps the invariants\<close>

definition sys_inv :: "System \<Rightarrow> bool" where
  "sys_inv s \<longleftrightarrow>
     shape (yB s) (sDisp (yServer s)) (yTasks s) \<and> counters (yB s) (sDisp (yServer s)) (yTasks s) \<and>
     dom (sDisp (yServer s)) = sStarted (yServer s)"

text \<open>Steps that only touch the queue manager and the disk.\<close>

lemma inv_manager:
  assumes "shape b D ts" "counters b D ts" "bConsumers b' = bConsumers b" "bRegistry b' = bRegistry b"
    "bInFlight b' = bInFlight b" "set ts' \<subseteq> set ts" "\<And>k. length (filter (pending k) ts') \<le> length (filter (pending k) ts)"
  shows "shape b' D ts'" "counters b' D ts'"
proof -
  have a: "ack_inv b'" using shapeD(3) [OF assms(1)] assms(5) by (simp add: ack_inv_def)
  show "shape b' D ts'"
    using assms(3-6) a shapeD [OF assms(1)] by (intro shape_step [OF assms(1)]) auto
  show "counters b' D ts'"
    using assms(3-5,7) by (intro counters_mono [OF assms(2)]) (auto simp: owed_def)
qed

text \<open>A dispatcher step that changes nothing a counter depends on.\<close>

lemma inv_dispatch_quiet:
  assumes "shape b D ts" "counters b D ts" "counts (bConsumers b') = counts (bConsumers b)" "bRegistry b' = bRegistry b"
    "bInFlight b' = bInFlight b" and pc: "\<And>ref. holds_ref pc' ref \<Longrightarrow> \<exists>c. bConsumers b ref = Some c \<and> cQueue c = q \<and> IsEligible c"
    and nc: "\<And>m r. pc' \<noteq> DCounted m r"
  shows "shape b' (D(q \<mapsto> pc')) ts" "counters b' (D(q \<mapsto> pc')) ts"
proof -
  have a: "ack_inv b'" using shapeD(3) [OF assms(1)] assms(5) by (simp add: ack_inv_def)
  have pc2: "holds_ref pc' ref \<Longrightarrow> \<exists>c. bConsumers b ref = Some c \<and> cQueue c = q" for ref using pc by blast
  show "shape b' (D(q \<mapsto> pc')) ts"
    by (rule shape_step [OF assms(1) counts_faces [OF assms(3)] assms(4)])
      (use assms(5) a shapeD(2,5,6,7) [OF assms(1)] pc2 in \<open>auto split: if_splits\<close>)
  have "pc' = DPicked msg ref \<Longrightarrow> bConsumers b ref = Some c \<Longrightarrow> IsEligible c" for msg ref c using pc [of ref] by auto
  with assms(4,5) nc show "counters b' (D(q \<mapsto> pc')) ts"
    by (intro counters_mono [OF assms(2,3)]) (auto simp: owed_def split: if_splits)
qed

lemma inv_register:
  assumes sh: "shape b D ts" and ct: "counters b D ts" and D: "D q = Some (DCounted msg ref)"
    and b': "b' = Ack_Register msg' (ref_ID b ref) b" and D': "D' = D(q \<mapsto> DSending msg' ref)"
  shows "shape b' D' ts" "counters b' D' ts"
proof -
  obtain d where d: "bConsumers b ref = Some d" "cQueue d = q" using shapeD(7) [OF sh D] by auto
  have k0: "ref_ID b ref = cID d" using d by (simp add: ref_ID_def)
  note fin = shapeD(2) [OF sh]
  have own: "owner (bConsumers b) \<lparr>eMessage = msg', eConsumerID = cID d\<rparr>" using d by (auto simp: owner_def)
  show "shape b' D' ts"
    by (rule shape_step [OF sh]) (use own d k0 D' b' fin ack_inv_Register [OF shapeD(3) [OF sh]] shapeD(5,6,7) [OF sh] in
        \<open>auto split: if_splits\<close>)
  show "counters b' D' ts"
  proof (rule countersI)
    fix k r c assume k: "byID (bRegistry b') k = Some r" and c: "bConsumers b' r = Some c"
    then have k: "byID (bRegistry b) k = Some r" and c: "bConsumers b r = Some c" using b' by simp_all
    have "cID c = k" using reg_invD(1) [OF shapeD(1) [OF sh] k] c by auto
    then have same: "k = cID d \<longleftrightarrow> r = ref" using shapeD(4) [OF sh c d(1)] c d by auto
    note old = countersD [OF ct k c]
    have "owed (bInFlight b') ts (D' (cQueue c)) k r \<le> owed (bInFlight b) ts (D (cQueue c)) k r"
      using entries_put [OF fin, of "ID msg'" "\<lparr>eMessage = msg', eConsumerID = cID d\<rparr>" k] same d c D D' b' k0
      by (auto simp: owed_def split: if_splits)
    with old D' show "int (owed (bInFlight b') ts (D' (cQueue c)) k r) \<le> sint (cInFlight c) \<and>
        sint (cInFlight c) \<le> sint (cPrefetchLimit c) \<and>
        (\<forall>msg. D' (cQueue c) = Some (DPicked msg r) \<longrightarrow> sint (cInFlight c) < sint (cPrefetchLimit c))"
      by (auto split: if_splits)
  qed
qed

lemma inv_unregister:
  assumes sh: "shape b D ts" and ct: "counters b D ts" and D: "D q = Some (DSending msg ref)"
  shows "shape (Unregister i b) (D(q \<mapsto> DReturned)) ts" "counters (Unregister i b) (D(q \<mapsto> DReturned)) ts"
proof -
  have quiet: "shape b (D(q \<mapsto> DReturned)) ts" "counters b (D(q \<mapsto> DReturned)) ts"
    using inv_dispatch_quiet [OF sh ct, of b DReturned q] by simp_all
  have "shape (Unregister i b) (D(q \<mapsto> DReturned)) ts \<and> counters (Unregister i b) (D(q \<mapsto> DReturned)) ts"
  proof (cases "bInFlight b i")
    case None
    with quiet show ?thesis by (simp add: Unregister_def)
  next
    case (Some e)
    let ?b = "b_DecrementInFlight (eConsumerID e) (drop_entry i b)"
    have u: "Unregister i b = ?b" using Some by (simp add: Unregister_def)
    have st: "bConsumers ?b = Registry_DecrementInFlight (eConsumerID e) (bRegistry b) (bConsumers b)"
      by (simp add: b_DecrementInFlight_def)
    have a: "ack_inv ?b" using shapeD(3) [OF sh] by (auto simp: ack_inv_def)
    have "shape ?b (D(q \<mapsto> DReturned)) ts"
      by (rule shape_step [OF quiet(1)]) (use st a shapeD(2,5,6,7) [OF quiet(1)] in \<open>auto split: if_splits\<close>)
    moreover have "owed (bInFlight ?b) ts pc k r + (if k = eConsumerID e then 1 else 0) = owed (bInFlight b) ts pc k r"
      for pc k r using entries_drop [OF shapeD(2) [OF sh] Some, of k] by (auto simp: owed_def)
    then have "counters ?b (D(q \<mapsto> DReturned)) ts"
      using st by (intro counters_dec [OF quiet(2) shapeD(1) [OF sh], of ?b "eConsumerID e"]) auto
    ultimately show ?thesis using u by simp
  qed
  then show "shape (Unregister i b) (D(q \<mapsto> DReturned)) ts" "counters (Unregister i b) (D(q \<mapsto> DReturned)) ts" by auto
qed

lemma inv_dispatch:
  assumes sh: "shape b D ts" and ct: "counters b D ts" and D: "D q = Some pc"
    and ord: "range_order order (queue_consumers (bRegistry b) q)"
    and run: "Run order now cd pd q pc b = (pc', b')"
  shows "shape b' (D(q \<mapsto> pc')) ts \<and> counters b' (D(q \<mapsto> pc')) ts"
proof (cases pc)
  case DDequeue
  have b': "bConsumers b' = bConsumers b" "bRegistry b' = bRegistry b" "bInFlight b' = bInFlight b"
    "\<And>ref. \<not> holds_ref pc' ref" "\<And>m r. pc' \<noteq> DCounted m r"
    using run DDequeue by (auto simp: Let_def split: prod.splits option.splits if_splits)
  then show ?thesis using inv_dispatch_quiet [OF sh ct, of b' pc' q] by simp
next
  case (DSelect msg)
  have b': "b' = b" and nc: "pc' \<noteq> DCounted m r" for m r
    using run DSelect by (auto simp: Let_def split: if_splits)
  have pk: "\<exists>c. bConsumers b ref = Some c \<and> cQueue c = q \<and> IsEligible c" if "holds_ref pc' ref" for ref
  proof -
    have "Run order now False pd q (DSelect msg) b = (DPicked msg ref, b)"
      using run that DSelect b' by (auto simp: Let_def split: if_splits)
    from Run_picks(2) [OF shapeD(1) [OF sh] ord this] show ?thesis by blast
  qed
  show ?thesis using inv_dispatch_quiet [OF sh ct, of b pc' q] b' nc pk by simp
next
  case (DPicked msg ref)
  then have b': "b' = b_IncrementInFlight (ref_ID b ref) b" "pc' = DCounted msg ref" using run by auto
  have "shape b' (D(q \<mapsto> pc')) ts"
    by (rule shape_step [OF sh]) (use b' DPicked D shapeD [OF sh] in \<open>auto simp: b_IncrementInFlight_def ack_inv_def split: if_splits\<close>)
  with counters_inc [OF ct sh _ refl b'(1)] D DPicked b'(2) show ?thesis by auto
next
  case (DCounted msg ref)
  then have b': "b' = Ack_Register (stamp now msg) (ref_ID b ref) b" "pc' = DSending (stamp now msg) ref"
    using run by (auto simp: Let_def)
  show ?thesis using inv_register [OF sh ct _ b'(1) refl] D DCounted b'(2) by auto
next
  case (DSending msg ref)
  consider "pc' = DDequeue" "b' = chan_push ref msg b" | "pc' = DReturned" "b' = Unregister (ID msg) b"
    | "pc' = pc" "b' = b" using run DSending by (auto split: if_splits)
  then show ?thesis
  proof cases
    case 1
    have "bRegistry b' = bRegistry b" "bInFlight b' = bInFlight b"
      using 1 by (auto simp: chan_push_def split: option.splits)
    then show ?thesis using inv_dispatch_quiet [OF sh ct, of b' DDequeue q] 1 counts_push by simp
  next
    case 2
    then show ?thesis using inv_unregister [OF sh ct] D DSending by simp
  next
    case 3
    then have "D(q \<mapsto> pc') = D" using D by auto
    with 3 sh ct show ?thesis by simp
  qed
next
  case DReturned
  then have "D(q \<mapsto> pc') = D" "b' = b" using run D by auto
  with sh ct show ?thesis by simp
qed

lemma inv_subscribe:
  assumes sh: "shape b D ts" and ct: "counters b D ts"
    and fresh: "bConsumers b ref = None" "\<forall>r d. bConsumers b r = Some d \<longrightarrow> cID d \<noteq> cID c"
    and c: "cInFlight c = 0" "0 \<le> sint (cPrefetchLimit c)"
    and b': "b' = b\<lparr>bConsumers := (bConsumers b)(ref \<mapsto> c), bRegistry := Registry_Register ref c (bRegistry b)\<rparr>"
    and D': "D' = D \<or> D' = D(q \<mapsto> DDequeue)"
  shows "shape b' D' ts \<and> counters b' D' ts"
proof -
  have new: "byID (bRegistry b) (cID c) = None"
    using reg_invD(1) [OF shapeD(1) [OF sh], of "cID c"] fresh(2) by (cases "byID (bRegistry b) (cID c)") auto
  have own: "owner (bConsumers b') e" if "owner (bConsumers b) e" for e
    using that fresh(1) by (auto simp: owner_def b') (metis option.distinct(1))
  have notown: "eConsumerID e \<noteq> cID c" if "owner (bConsumers b) e" for e using that fresh(2) by (auto simp: owner_def)
  have hold: "\<exists>d. bConsumers b r = Some d \<and> cQueue d = q'" if "D' q' = Some pc" "holds_ref pc r" for q' pc r
    using D' that shapeD(7) [OF sh] by (auto split: if_splits)
  have "shape b' D' ts"
    unfolding shape_def
  proof (intro conjI allI impI ballI)
    show "reg_inv (bRegistry b') (bConsumers b')" using Register_inv(1) [OF shapeD(1) [OF sh] new fresh(1)] by (simp add: b')
    show "finite (dom (bInFlight b'))" "ack_inv b'" using shapeD(2,3) [OF sh] by (simp_all add: b' ack_inv_def)
    show "r = r'" if "bConsumers b' r = Some x" "bConsumers b' r' = Some y" "cID x = cID y" for r r' x y
      using that fresh shapeD(4) [OF sh] by (auto simp: b' split: if_splits)
    show "owner (bConsumers b') e" if "bInFlight b' i = Some e" for i e using own shapeD(5) [OF sh] that by (simp add: b')
    show "owner (bConsumers b') (task_entry t)" if "t \<in> set ts" for t using own shapeD(6) [OF sh that] .
    show "\<exists>d. bConsumers b' r = Some d \<and> cQueue d = q'" if "D' q' = Some pc" "holds_ref pc r" for q' pc r
      using hold [OF that] fresh(1) by (auto simp: b')
  qed
  moreover have "counters b' D' ts"
  proof (rule countersI)
    fix k r d assume k: "byID (bRegistry b') k = Some r" and d: "bConsumers b' r = Some d"
    have zero: "owed (bInFlight b) ts (D' q') (cID c) ref = 0" for q'
    proof -
      have none: "{i. \<exists>e. bInFlight b i = Some e \<and> eConsumerID e = cID c} = {}" using notown shapeD(5) [OF sh] by blast
      have "entries_of (bInFlight b) (cID c) = 0" unfolding entries_of_def none by simp
      moreover have "filter (pending (cID c)) ts = []"
        using notown shapeD(6) [OF sh] by (auto simp: filter_empty_conv elim!: pending.elims) (metis task_entry.simps(1))
      moreover have "D' q' \<noteq> Some (DCounted m ref)" for m using hold [of q' "DCounted m ref" ref] fresh(1) by auto
      ultimately show ?thesis by (simp add: owed_def)
    qed
    have np: "D' q' \<noteq> Some (DPicked m ref)" for q' m using hold [of q' "DPicked m ref" ref] fresh(1) by auto
    have ow: "owed (bInFlight b) ts (D' q') k r \<le> owed (bInFlight b) ts (D q') k r" for q'
      using D' by (auto simp: owed_def split: if_splits)
    show "int (owed (bInFlight b') ts (D' (cQueue d)) k r) \<le> sint (cInFlight d) \<and>
        sint (cInFlight d) \<le> sint (cPrefetchLimit d) \<and>
        (\<forall>msg. D' (cQueue d) = Some (DPicked msg r) \<longrightarrow> sint (cInFlight d) < sint (cPrefetchLimit d))"
    proof (cases "k = cID c")
      case True
      then have "r = ref" "d = c" using k d by (auto simp: b')
      with True zero np c show ?thesis by (simp add: b')
    next
      case False
      then have k': "byID (bRegistry b) k = Some r" using k by (simp add: b')
      then have d': "bConsumers b r = Some d" using d reg_invD(1) [OF shapeD(1) [OF sh] k'] fresh(1) by (auto simp: b' split: if_splits)
      note old = countersD [OF ct k' d']
      have "D' (cQueue d) = Some (DPicked m r) \<Longrightarrow> D (cQueue d) = Some (DPicked m r)" for m
        using D' by (auto split: if_splits)
      with old ow [of "cQueue d"] show ?thesis by (auto simp: b')
    qed
  qed
  ultimately show ?thesis by simp
qed

lemma inv_take:
  assumes sh: "shape b D ts" and ct: "counters b D ts" and e: "bInFlight b i = Some e"
  shows "shape (drop_entry i b) D (TDec a e # ts)" "counters (drop_entry i b) D (TDec a e # ts)"
proof -
  show "shape (drop_entry i b) D (TDec a e # ts)"
    by (rule shape_step [OF sh]) (use e shapeD [OF sh] in \<open>auto simp: ack_inv_def split: if_splits\<close>)
  have "owed (bInFlight (drop_entry i b)) (TDec a e # ts) pc k r = owed (bInFlight b) ts pc k r" for pc k r
    using entries_drop [OF shapeD(2) [OF sh] e, of k] by (auto simp: owed_def)
  then show "counters (drop_entry i b) D (TDec a e # ts)" by (intro counters_mono [OF ct]) auto
qed

lemma inv_collect:
  assumes sh: "shape b D ts" and ct: "counters b D ts" and ord: "range_order order (bInFlight b)"
    and c: "collect_entries P order [] b = (es, b')"
  shows "shape b' D (map (TDec a) es @ ts)" "counters b' D (map (TDec a) es @ ts)"
proof -
  note all = collect_entries_all [OF ord c]
  have b': "bConsumers b' = bConsumers b" "bRegistry b' = bRegistry b"
    "\<And>i e. bInFlight b' i = Some e \<Longrightarrow> bInFlight b i = Some e"
    by (auto simp: all(1) keep_entries_def split: option.splits if_splits)
  have "dom (bInFlight b') \<subseteq> dom (bInFlight b)" using b'(3) by blast
  then have "finite (dom (bInFlight b'))" using shapeD(2) [OF sh] by (rule finite_subset)
  moreover have "ack_inv b'" using shapeD(3) [OF sh] b'(3) by (auto simp: ack_inv_def)
  moreover have "owner (bConsumers b) e" if "e \<in> set es" for e using that shapeD(5) [OF sh] by (auto simp: all(3))
  moreover have "owner (bConsumers b) e" if "bInFlight b' i = Some e" for i e using b'(3) [OF that] shapeD(5) [OF sh] by blast
  ultimately show "shape b' D (map (TDec a) es @ ts)"
    using b'(1,2) shapeD(6,7) [OF sh] by (intro shape_step [OF sh]) auto
  show "counters b' D (map (TDec a) es @ ts)"
    using b' owed_collect [OF ord c shapeD(2) [OF sh]] by (intro counters_mono [OF ct]) auto
qed

lemma inv_deregister:
  assumes sh: "shape b D ts" and ct: "counters b D ts"
  shows "shape (Subscribe_deregister k b) D ts" "counters (Subscribe_deregister k b) D ts"
proof -
  note reg = shapeD(1) [OF sh]
  show "shape (Subscribe_deregister k b) D ts"
    using sh Deregister_inv(1) [OF reg, of k] unfolding shape_def by (simp add: Subscribe_deregister_def ack_inv_def)
  show "counters (Subscribe_deregister k b) D ts"
    using Deregister_maps(1) [OF reg, of k]
    by (intro counters_mono [OF ct]) (auto simp: Subscribe_deregister_def split: if_splits)
qed

lemma inv_decrement:
  assumes sh: "shape b D (ts @ TDec a e # ts')" and ct: "counters b D (ts @ TDec a e # ts')"
  shows "shape (b_DecrementInFlight (eConsumerID e) b) D (ts @ TAct a e # ts')"
    "counters (b_DecrementInFlight (eConsumerID e) b) D (ts @ TAct a e # ts')"
proof -
  let ?b = "b_DecrementInFlight (eConsumerID e) b"
  have st: "bConsumers ?b = Registry_DecrementInFlight (eConsumerID e) (bRegistry b) (bConsumers b)"
    by (simp add: b_DecrementInFlight_def)
  show "shape ?b D (ts @ TAct a e # ts')"
    by (rule shape_step [OF sh]) (use st shapeD [OF sh] shapeD(6) [OF sh, of "TDec a e"] in \<open>auto simp: ack_inv_def\<close>)
  show "counters ?b D (ts @ TAct a e # ts')"
    using st by (intro counters_dec [OF ct shapeD(1) [OF sh], of ?b "eConsumerID e"]) (auto simp: owed_def)
qed

lemma byID_NewRegistry: "byID NewRegistry k = None"
  by (simp add: NewRegistry_def)

lemma sys_inv_init: "sys_inv (init_system w m mr)"
  by (auto simp: sys_inv_def init_system_def shape_def counters_def NewAckManager_def NewRegistry_inv ack_inv_def
      byID_NewRegistry)

lemma inv_with_manager: "sys_inv s \<Longrightarrow> sys_inv (with_manager m w s)"
  using inv_manager [of "yB s" "sDisp (yServer s)" "yTasks s" "yB (with_manager m w s)" "yTasks s"] by (simp add: sys_inv_def)

lemma sys_inv_step:
  assumes "sys_step s ls s'" "sys_inv s"
  shows "sys_inv s'"
  using assms
proof (induction rule: sys_step.induct)
  case (publish s rnd now req)
  then show ?case by (simp add: sys_inv_def)
next
  case (enq_open s es c msg es' err m w)
  then show ?case using inv_with_manager [of s m w] by (simp add: sys_inv_def)
next
  case (enq_write s es c msg es' err w)
  then show ?case using inv_with_manager [of s "yM s" w] by (simp add: sys_inv_def)
next
  case (enq_push s es msg es')
  then show ?case using inv_with_manager [of s] by (simp add: sys_inv_def)
next
  case (subscribe first rnd now ref s c sv)
  let ?b = "(yB s)\<lparr>bConsumers := (bConsumers (yB s))(ref \<mapsto> c), bRegistry := Registry_Register ref c (bRegistry (yB s))\<rparr>"
  obtain limit where l: "cPrefetchLimit c = (if sint limit \<le> 0 then 1 else limit)"
    "NewConsumer (cQueue c) (cPrefetchLimit c) (Some rnd) now = Inr c"
    "sv = ensureDispatcher (cQueue c) ((yServer s)\<lparr>sBroker := ?b\<rparr>)"
    using Subscribe_open_ok [OF subscribe(1)] by metis
  have c: "cInFlight c = 0" "0 \<le> sint (cPrefetchLimit c)" using NewConsumer_ok [OF l(2)] l(1) by auto
  have "sBroker sv = ?b" "sDisp sv = sDisp (yServer s) \<or> sDisp sv = (sDisp (yServer s))(cQueue c \<mapsto> DDequeue)"
    "dom (sDisp sv) = sStarted sv"
    using l(3) subscribe(4) by (auto simp: ensureDispatcher_def sys_inv_def)
  with inv_subscribe [OF _ _ subscribe(2,3) c refl, of "sDisp (yServer s)" "yTasks s" "sDisp sv" "cQueue c"] subscribe(4)
  show ?case by (simp add: sys_inv_def)
next
  case (open_queue s q m w)
  then show ?case using inv_with_manager [of s m w] by simp
next
  case (dispatch s q pc order now pd pc' b)
  have "q \<in> sStarted (yServer s)" using dispatch(1,4) by (auto simp: sys_inv_def)
  moreover have "shape b ((sDisp (yServer s))(q \<mapsto> pc')) (yTasks s) \<and> counters b ((sDisp (yServer s))(q \<mapsto> pc')) (yTasks s)"
    using dispatch(4) by (intro inv_dispatch [where b = "yB s" and pc = pc and order = order] dispatch(1,2))
      (auto simp: sys_inv_def intro: dispatch(3))
  ultimately show ?case using dispatch(4) by (auto simp: sys_inv_def)
next
  case (receive ref s msg b)
  have "ack_inv b" using chan_pop_frame [OF receive(1)] receive(2) shapeD(3) by (auto simp: sys_inv_def ack_inv_def)
  note cp = counts_pop [OF receive(1)] chan_pop_frame [OF receive(1)]
  have "shape b (sDisp (yServer s)) (yTasks s)"
    by (rule shape_step [OF _ counts_faces [OF cp(1)]])
      (use cp \<open>ack_inv b\<close> receive(2) shapeD in \<open>auto simp: sys_inv_def\<close>)
  moreover have "counters b (sDisp (yServer s)) (yTasks s)"
    by (rule counters_mono [OF _ cp(1)]) (use cp receive(2) in \<open>auto simp: sys_inv_def\<close>)
  ultimately show ?case using receive(2) by (simp add: sys_inv_def)
next
  case (take_entry s i e a)
  then show ?case using inv_take by (simp add: sys_inv_def)
next
  case (deregister s k)
  then show ?case using inv_deregister by (simp add: sys_inv_def)
next
  case (timeout_scan order s d now es b)
  then show ?case using inv_collect [OF _ _ timeout_scan(1,2)] by (simp add: sys_inv_def)
next
  case (expiry_scan order s cutoff es b)
  then show ?case using inv_collect [OF _ _ expiry_scan(1,2)] by (simp add: sys_inv_def)
next
  case (expire_topic_step q s cutoff removed m w)
  then show ?case using inv_with_manager [of s m w] by (simp add: sys_inv_def)
next
  case (expire_tombstone s xs q x xs' err b)
  have "bConsumers b = bConsumers (yB s)" "bRegistry b = bRegistry (yB s)" "bInFlight b = bInFlight (yB s)"
    using b_WriteTombstone_frame [of "ID x" q "yB s"] expire_tombstone(2) by simp_all
  with expire_tombstone inv_manager [of "yB s" "sDisp (yServer s)" "yTasks s" b "yTasks s"]
  show ?case by (auto simp: sys_inv_def)
next
  case (decrement s ts a e ts')
  then show ?case using inv_decrement by (simp add: sys_inv_def)
next
  case (tombstone s ts e ts' err b)
  have "bConsumers b = bConsumers (yB s)" "bRegistry b = bRegistry (yB s)" "bInFlight b = bInFlight (yB s)"
    using b_WriteTombstone_frame [of "ID (eMessage e)" "Queue (eMessage e)" "yB s"] tombstone(2) by simp_all
  with tombstone inv_manager [of "yB s" "sDisp (yServer s)" "yTasks s" b "ts @ ts'"]
  show ?case by (auto simp: sys_inv_def)
next
  case (requeue s ts e ts' now)
  with inv_manager [of "yB s" "sDisp (yServer s)" "yTasks s" "yB s" "ts @ ts'"] show ?case by (auto simp: sys_inv_def)
next
  case (shutdown s)
  then show ?case using inv_with_manager [of s] by simp
next
  case (cancel s)
  then show ?case by (simp add: sys_inv_def)
qed

interpretation safe: trace_invariant sys_step "\<lambda>_. sys_inv"
  by unfold_locales (rule sys_inv_step)

lemma reachable_inv: "runs (init_system w m mr) ls s \<Longrightarrow> sys_inv s"
  using safe.trace_I sys_inv_init by blast

subsection \<open>Properties\<close>

text \<open>A broker with one consumer connected.\<close>

definition sample_consumer :: Consumer where
  "sample_consumer = \<lparr>cID = hex_EncodeToString [1, 2, 3, 4, 5, 6, 7, 8], cQueue = ''orders'', cSend = [], cSendCap = 2,
     cPrefetchLimit = 2, cConnectedAt = 0, cInFlight = 0\<rparr>"

definition sample_start :: System where
  "sample_start = init_system \<lparr>files = Map.empty, faults = []\<rparr> (empty_Manager ''wal'') 3"

definition sample_connected :: System where
  "sample_connected =
     sample_start\<lparr>yServer := snd (Subscribe_open (Inr (CM_Subscribe ''orders'' 2)) (Some [1, 2, 3, 4, 5, 6, 7, 8]) 0 0
       (yServer sample_start))\<rparr>"

lemma sample_open:
  "fst (Subscribe_open (Inr (CM_Subscribe ''orders'' 2)) (Some [1, 2, 3, 4, 5, 6, 7, 8]) 0 0 (yServer sample_start)) =
     Inr sample_consumer"
  by (simp add: Subscribe_open_def NewConsumer_def newConsumerID_def sample_consumer_def Let_def)

lemma sample_run: "runs sample_start [] sample_connected"
proof -
  obtain sv where sv: "Subscribe_open (Inr (CM_Subscribe ''orders'' 2)) (Some [1, 2, 3, 4, 5, 6, 7, 8]) 0 0
      (yServer sample_start) = (Inr sample_consumer, sv)" using sample_open by (metis prod.collapse)
  have "bConsumers (yB sample_start) = Map.empty" by (simp add: sample_start_def init_system_def NewAckManager_def)
  then have "sys_step sample_start [] (sample_start\<lparr>yServer := sv\<rparr>)" using subscribe [OF sv] by simp
  then show ?thesis using run1 sv by (simp add: sample_connected_def)
qed

lemma sample_connected_consumer:
  "connected (bRegistry (yB sample_connected)) (bConsumers (yB sample_connected)) (cID sample_consumer) = Some sample_consumer"
  using sample_open
  by (auto simp: sample_connected_def Subscribe_open_def Let_def ensureDispatcher_def connected_def split: sum.splits)

text \<open>C4. In every state that the broker can reach by any interleaving of publishers, subscribers,
  dispatchers, acknowledgements, scanners and shutdown: the in-flight counter of a connected
  consumer is at least the number of messages registered in flight for it, never negative, and
  never above its prefetch limit.\<close>

theorem prefetch_respected:
  assumes "runs (init_system w m maxRetries) ls s"
    and "connected (bRegistry (yB s)) (bConsumers (yB s)) k = Some c"
  shows "int (entries_of (bInFlight (yB s)) k) \<le> sint (InFlight c) \<and> 0 \<le> sint (InFlight c) \<and>
    sint (InFlight c) \<le> sint (cPrefetchLimit c)"
proof -
  obtain ref where "byID (bRegistry (yB s)) k = Some ref" "bConsumers (yB s) ref = Some c"
    using assms(2) by (auto simp: connected_iff)
  moreover have "counters (yB s) (sDisp (yServer s)) (yTasks s)"
    using reachable_inv [OF assms(1)] by (simp add: sys_inv_def)
  ultimately show ?thesis using countersD(1,2) by (fastforce simp: InFlight_def owed_def)
qed

theorem prefetch_respected_witness:
  "\<exists>s c. runs sample_start [] s \<and> connected (bRegistry (yB s)) (bConsumers (yB s)) (cID c) = Some c \<and>
     sint (cPrefetchLimit c) = 2 \<and> 0 \<le> sint (InFlight c) \<and> sint (InFlight c) \<le> sint (cPrefetchLimit c)"
proof (intro exI conjI)
  show "runs sample_start [] sample_connected" by (rule sample_run)
  show "connected (bRegistry (yB sample_connected)) (bConsumers (yB sample_connected)) (cID sample_consumer) = Some sample_consumer"
    by (rule sample_connected_consumer)
  show "sint (cPrefetchLimit sample_consumer) = 2" by (simp add: sample_consumer_def)
  note p = prefetch_respected [OF sample_run [unfolded sample_start_def] sample_connected_consumer]
  show "0 \<le> sint (InFlight sample_consumer)" "sint (InFlight sample_consumer) \<le> sint (cPrefetchLimit sample_consumer)"
    using p by simp_all
qed

end
