(* ===== verification/HealthyDisk.thy ===== *)
theory HealthyDisk
  imports BrokerInv ServerProps
begin

text \<open>
  The queue manager on a disk without faults whose files are logs of complete records: every
  operation succeeds and its effect on the logs is exact. Then the places in the running broker
  where a message can be.
\<close>

subsection \<open>What is on disk\<close>

definition disk_records :: "world \<Rightarrow> string \<Rightarrow> wal_record list" where
  "disk_records w p =
     (case files w p of
        None \<Rightarrow> []
      | Some data \<Rightarrow> (case scan_log decode data of Ret rs \<Rightarrow> rs | Panic \<Rightarrow> []))"

lemma disk_records_log:
  "files w p = Some (log_of frame rs) \<Longrightarrow> \<forall>r \<in> set rs. encodable r \<Longrightarrow> disk_records w p = rs"
  using walrec.scan_log_of [of rs] by (simp add: disk_records_def)

text \<open>Every queue file is a log of complete records, and every open queue has its file.\<close>

definition healthy :: "Manager \<Rightarrow> world \<Rightarrow> bool" where
  "healthy m w \<longleftrightarrow> faults w = [] \<and> mgr_inv m \<and>
     (\<forall>q data. files w (qpath m q) = Some data \<longrightarrow> (\<exists>rs. data = log_of frame rs \<and> (\<forall>r \<in> set rs. encodable r))) \<and>
     (\<forall>q. known m q \<longrightarrow> files w (qpath m q) \<noteq> None)"

lemma healthyD:
  assumes "healthy m w"
  shows "faults w = []" "mgr_inv m"
    and "files w (qpath m q) = Some data \<Longrightarrow> \<exists>rs. data = log_of frame rs \<and> (\<forall>r \<in> set rs. encodable r)"
    and "known m q \<Longrightarrow> files w (qpath m q) \<noteq> None"
  using assms unfolding healthy_def by blast+

lemma healthy_file:
  assumes "healthy m w" "files w (qpath m q) \<noteq> None"
  shows "files w (qpath m q) = Some (log_of frame (disk_records w (qpath m q)))"
    "\<forall>r \<in> set (disk_records w (qpath m q)). encodable r"
  using healthyD(3) [OF assms(1), of q] assms(2) disk_records_log by auto

lemma healthy_encodable: "healthy m w \<Longrightarrow> \<forall>r \<in> set (disk_records w (qpath m q)). encodable r"
  using healthy_file(2) [of m w q] by (cases "files w (qpath m q)") (auto simp: disk_records_def)

lemma healthy_open:
  assumes "healthy m w" "known m q"
  shows "queue_open q (disk_records w (qpath m q)) m w"
  using healthy_file [OF assms(1) healthyD(4) [OF assms]] assms(2) by (simp add: queue_open_def known_def)

text \<open>Replacing one queue's log by a longer one.\<close>

lemma healthy_put:
  assumes h: "healthy m w" and m': "mgr_inv m'" "mWalDir m' = mWalDir m" "\<And>p. known m' p \<Longrightarrow> known m p \<or> p = q"
    and w': "w' = w\<lparr>files := (files w)(qpath m q \<mapsto> log_of frame rs)\<rparr>" and rs: "\<forall>r \<in> set rs. encodable r"
  shows "healthy m' w'" "disk_records w' = (disk_records w)(qpath m q := rs)"
proof -
  have "\<exists>ss. data = log_of frame ss \<and> (\<forall>r \<in> set ss. encodable r)" if "files w' (qpath m' p) = Some data" for p data
    using that healthyD(3) [OF h, of p] rs m'(2) by (auto simp: w' split: if_splits)
  moreover have "files w' (qpath m' p) \<noteq> None" if "known m' p" for p
    using m'(3) [OF that] healthyD(4) [OF h, of p] m'(2) by (auto simp: w')
  ultimately show "healthy m' w'" using healthyD(1) [OF h] m'(1) unfolding healthy_def by (simp add: w')
  show "disk_records w' = (disk_records w)(qpath m q := rs)"
  proof
    fix p show "disk_records w' p = ((disk_records w)(qpath m q := rs)) p"
      using disk_records_log [of w' "qpath m q" rs] rs by (simp add: w' disk_records_def)
  qed
qed

subsection \<open>The manager's operations on a healthy disk\<close>

lemma healthy_initQueue:
  assumes "healthy m w" "initQueue q m w = (err, m', w')"
  shows "err = None \<and> healthy m' w' \<and> known m' q \<and> disk_records w' = disk_records w \<and> mWalDir m' = mWalDir m \<and>
    mClosing m' = mClosing m"
proof (cases "mTopics m q")
  case (Some t)
  then have "known m q" using mgr_invD [OF healthyD(2) [OF assms(1)]] by simp
  with Some assms show ?thesis by simp
next
  case None
  have nk: "\<not> known m q" using None by (simp add: known_def)
  show ?thesis
  proof (cases "files w (qpath m q)")
    case None
    let ?m = "m\<lparr>mTopics := (mTopics m)(q \<mapsto> NewTopic), mWriters := (mWriters m)(q \<mapsto> open_writer (mWalDir m) q)\<rparr>"
    have i: "err = None" "m' = ?m" "w' = w\<lparr>files := (files w)(qpath m q \<mapsto> log_of frame [])\<rparr>"
      using initQueue_new [OF healthyD(1) [OF assms(1)] \<open>mTopics m q = None\<close> None] assms(2) by simp_all
    have "mgr_inv m'" unfolding i(2) by (rule mgr_inv_add [OF healthyD(2) [OF assms(1)]])
    moreover have "known m' p \<Longrightarrow> known m p \<or> p = q" "known m' q" for p unfolding i(2) known_upd by auto
    moreover have "disk_records w (qpath m q) = []" using None by (simp add: disk_records_def)
    ultimately show ?thesis using healthy_put [OF assms(1), of m' q w' "[]"] i by (auto simp: fun_upd_idem)
  next
    case (Some data)
    then obtain rs where rs: "data = log_of frame rs" "\<forall>r \<in> set rs. encodable r" using healthyD(3) [OF assms(1)] by blast
    let ?m = "m\<lparr>mTopics := (mTopics m)(q \<mapsto> fold Topic_Enqueue (live_messages rs) NewTopic),
        mWriters := (mWriters m)(q \<mapsto> open_writer (mWalDir m) q)\<rparr>"
    have i: "err = None" "m' = ?m" "w' = w"
      using initQueue_replay [OF healthyD(1) [OF assms(1)] \<open>mTopics m q = None\<close> Some wal_logI [OF rs(2), folded rs(1)]] assms(2)
      by simp_all
    have inv: "mgr_inv m'" unfolding i(2) by (rule mgr_inv_add [OF healthyD(2) [OF assms(1)]])
    have kn: "known m' p \<longleftrightarrow> p = q \<or> known m p" for p unfolding i(2) known_upd ..
    have dir: "mWalDir m' = mWalDir m" "mClosing m' = mClosing m" using i(2) by simp_all
    have "healthy m' w'"
      using healthyD [OF assms(1)] inv kn Some unfolding healthy_def dir i(3) by auto
    with i(1,3) kn dir show ?thesis by simp
  qed
qed

lemma healthy_append:
  assumes "healthy m w" "known m q" "encodable r"
  shows "append_record (open_writer (mWalDir m) q) r w =
      (None, w\<lparr>files := (files w)(qpath m q \<mapsto> log_of frame (disk_records w (qpath m q) @ [r]))\<rparr>)"
  using append_record_ok [OF healthyD(1) [OF assms(1)], of "open_writer (mWalDir m) q" "qpath m q"]
    queue_openD(3) [OF healthy_open [OF assms(1,2)]] by simp

lemma healthy_append_ok:
  assumes "healthy m w" "known m q"
  shows "\<exists>w'. append_record (open_writer (mWalDir m) q) r w = (None, w')"
  using append_record_ok [OF healthyD(1) [OF assms(1)], of "open_writer (mWalDir m) q" "qpath m q"]
    queue_openD(3) [OF healthy_open [OF assms]] by auto

text \<open>\<open>Enqueue\<close> succeeds on a healthy disk unless the broker is shutting down.\<close>

lemma healthy_Enqueue_ok:
  assumes h: "healthy m w" and run: "Manager_Enqueue msg m w = (err, m', w')" and open_: "\<not> mClosing m"
  shows "err = None"
proof -
  obtain e m1 w1 where i: "initQueue (Queue msg) m w = (e, m1, w1)" by (metis prod.exhaust)
  note h1 = healthy_initQueue [OF h i]
  then obtain t where "mTopics m1 (Queue msg) = Some t" "mWriters m1 (Queue msg) = Some (open_writer (mWalDir m1) (Queue msg))"
    by (auto simp: known_def)
  moreover obtain w2 where "append_record (open_writer (mWalDir m1) (Queue msg)) (message_record msg) w1 = (None, w2)"
    using healthy_append_ok [of m1 w1 "Queue msg" "message_record msg"] h1 by auto
  ultimately show ?thesis using run i h1 open_ by (auto simp: Manager_Enqueue_def WriteMessage_def)
qed

lemma healthy_Enqueue:
  assumes h: "healthy m w" and run: "Manager_Enqueue msg m w = (err, m', w')" and ok: "err = None \<Longrightarrow> message_ok msg"
  shows "healthy m' w'" "mWalDir m' = mWalDir m"
    and "disk_records w' = (if err = None then (disk_records w)(qpath m (Queue msg) := disk_records w (qpath m (Queue msg)) @ [message_record msg])
          else disk_records w)"
proof -
  have *: "healthy m' w' \<and> disk_records w' = (if err = None then (disk_records w)(qpath m (Queue msg) := disk_records w (qpath m (Queue msg)) @ [message_record msg])
          else disk_records w)"
  proof (cases "mClosing m")
    case True
    with run h show ?thesis by (auto simp: Manager_Enqueue_def)
  next
    case False
    have none: "err = None" by (rule healthy_Enqueue_ok [OF h run False])
    obtain e m1 w1 where i: "initQueue (Queue msg) m w = (e, m1, w1)" by (metis prod.exhaust)
    note h1 = healthy_initQueue [OF h i]
    let ?q = "Queue msg"
    have enc: "encodable (message_record msg)" using ok none by (simp add: message_ok_def)
    obtain t where t: "mTopics m1 ?q = Some t" "mWriters m1 ?q = Some (open_writer (mWalDir m1) ?q)"
      using h1 by (auto simp: known_def)
    let ?w = "w1\<lparr>files := (files w1)(qpath m1 ?q \<mapsto> log_of frame (disk_records w1 (qpath m1 ?q) @ [message_record msg]))\<rparr>"
    have r: "m' = m1\<lparr>mTopics := (mTopics m1)(?q \<mapsto> Topic_Enqueue msg t)\<rparr>" "w' = ?w"
      using run i h1 False t healthy_append [of m1 w1 ?q "message_record msg"] enc
      by (auto simp: Manager_Enqueue_def WriteMessage_def)
    have "mgr_inv m'" using mgr_inv_topic(1) [OF healthyD(2) t(1)] h1 r(1) by blast
    moreover have "known m' p \<Longrightarrow> known m1 p \<or> p = ?q" for p using r(1) by (auto simp: known_def split: if_splits)
    moreover have "mWalDir m' = mWalDir m1" using r(1) by simp
    moreover have "\<forall>r \<in> set (disk_records w1 (qpath m1 ?q) @ [message_record msg]). encodable r"
      using healthy_encodable [of m1 w1 ?q] h1 enc by auto
    ultimately show ?thesis using healthy_put [OF _ _ _ _ r(2), of m'] h1 none by simp
  qed
  then show "healthy m' w'" "disk_records w' = (if err = None then (disk_records w)(qpath m (Queue msg) := disk_records w (qpath m (Queue msg)) @ [message_record msg])
          else disk_records w)" by blast+
  show "mWalDir m' = mWalDir m" using Manager_Enqueue_queued(6) [OF run] .
qed

lemma healthy_Tombstone:
  assumes h: "healthy m w" and run: "Manager_WriteTombstone i q m w = (err, w')" and ok: "tombstone_ok i"
  shows "healthy m w'" "disk_records w' =
    (if err = None then (disk_records w)(qpath m q := disk_records w (qpath m q) @ [tombstone_record i]) else disk_records w)"
proof -
  have "healthy m w' \<and> disk_records w' =
    (if err = None then (disk_records w)(qpath m q := disk_records w (qpath m q) @ [tombstone_record i]) else disk_records w)"
  proof (cases "mWriters m q")
    case None
    with run h show ?thesis by (auto simp: Manager_WriteTombstone_def)
  next
    case (Some wr)
    then have k: "known m q" using mgr_invD [OF healthyD(2) [OF h]] by simp
    then have "wr = open_writer (mWalDir m) q" using Some by (simp add: known_def)
    with run Some have a: "append_record (open_writer (mWalDir m) q) (tombstone_record i) w = (err, w')"
      by (simp add: Manager_WriteTombstone_def WriteTombstone_def)
    have enc: "encodable (tombstone_record i)" using ok by (simp add: tombstone_ok_def)
    then have w': "err = None" "w' = w\<lparr>files := (files w)(qpath m q \<mapsto> log_of frame (disk_records w (qpath m q) @ [tombstone_record i]))\<rparr>"
      using a healthy_append [OF h k] by simp_all
    have "\<forall>r \<in> set (disk_records w (qpath m q) @ [tombstone_record i]). encodable r"
      using healthy_encodable [OF h, of q] enc by auto
    from healthy_put [OF h healthyD(2) [OF h] refl _ w'(2) this] w'(1) show ?thesis by simp
  qed
  then show "healthy m w'" "disk_records w' =
    (if err = None then (disk_records w)(qpath m q := disk_records w (qpath m q) @ [tombstone_record i]) else disk_records w)" by blast+
qed

lemma Tombstone_files:
  assumes h: "healthy m w" and run: "Manager_WriteTombstone i q m w = (err, w')" and f: "files w' f \<noteq> None"
  shows "files w f \<noteq> None"
proof (cases "mWriters m q")
  case None
  with run f show ?thesis by (simp add: Manager_WriteTombstone_def)
next
  case (Some wr)
  then have k: "known m q" using mgr_invD [OF healthyD(2) [OF h]] by simp
  then have a: "append_record (open_writer (mWalDir m) q) (tombstone_record i) w = (err, w')"
    using run by (simp add: Manager_WriteTombstone_def WriteTombstone_def known_def)
  show ?thesis
    using append_record_frame [OF a, of f] healthyD(4) [OF h k] f by (cases "f = qpath m q") auto
qed

text \<open>Messages that a replay puts into a topic have loggable identifiers.\<close>

lemma live_tombstone_ok:
  assumes "\<forall>r \<in> set rs. encodable r" "x \<in> set (live_messages rs)" shows "tombstone_ok (ID x)"
proof -
  have "encodable (message_record x)" using live_messages_encodable [OF wal_logI [OF assms(1)]] assms(2) by simp
  then show ?thesis by (intro message_tombstone_ok) (simp add: message_ok_def)
qed

text \<open>A replay happens only for a name that was not in use and whose file is there.\<close>

definition replays :: "Manager \<Rightarrow> world \<Rightarrow> string \<Rightarrow> bool" where
  "replays m w q \<longleftrightarrow> \<not> known m q \<and> files w (qpath m q) \<noteq> None"

lemma healthy_initQueue_queued:
  assumes "healthy m w" "initQueue q m w = (err, m', w')"
  shows "set (queued m p) \<subseteq> set (queued m' p)"
    and "x \<in> set (queued m' p) \<Longrightarrow> x \<in> set (queued m p) \<or> replays m w q \<and> tombstone_ok (ID x)"
proof -
  have "set (queued m p) \<subseteq> set (queued m' p) \<and>
      (\<forall>x \<in> set (queued m' p). x \<in> set (queued m p) \<or> replays m w q \<and> tombstone_ok (ID x))"
  proof (cases "p = q \<and> mTopics m q = None")
    case False
    then have "queued m' p = queued m p" using initQueue_topics(3,5) [OF assms(2)] by (auto simp: queued_def)
    then show ?thesis by simp
  next
    case True
    then have "queued m p = []" "\<not> known m q" by (simp_all add: queued_def known_def)
    moreover have "files w (qpath m q) \<noteq> None \<and> tombstone_ok (ID x)" if "x \<in> set (queued m' p)" for x
    proof (cases "files w (qpath m q)")
      case None
      then show ?thesis using initQueue_new [OF healthyD(1) [OF assms(1)], of m q] True assms(2) that by (auto simp: queued_def)
    next
      case (Some data)
      then obtain rs where rs: "data = log_of frame rs" "\<forall>r \<in> set rs. encodable r" using healthyD(3) [OF assms(1)] by blast
      have "queued m' p = live_messages rs"
        using initQueue_replay [OF healthyD(1) [OF assms(1)] _ Some wal_logI [OF rs(2), folded rs(1)]] True assms(2)
        by (auto simp: queued_def topicq.items_fold_enq)
      with live_tombstone_ok [OF rs(2)] that Some show ?thesis by simp
    qed
    ultimately show ?thesis by (simp add: replays_def)
  qed
  then show "set (queued m p) \<subseteq> set (queued m' p)"
    "x \<in> set (queued m' p) \<Longrightarrow> x \<in> set (queued m p) \<or> replays m w q \<and> tombstone_ok (ID x)"
    by blast+
qed

lemma initQueue_keeps_known:
  assumes "initQueue q m w = (err, m', w')" "known m p"
  shows "known m' p"
proof (cases "p = q")
  case True
  then show ?thesis using initQueue_topics(5) [OF assms(1)] assms(2) by (auto simp: known_def)
next
  case False
  then show ?thesis using initQueue_topics(1,3) [OF assms(1)] assms(2) by (simp add: known_def)
qed

text \<open>The two parts of \<open>Enqueue\<close> behind the critical section, and the removal of expired messages.\<close>

lemma healthy_write:
  assumes h: "healthy m w" and k: "known m (Queue msg)" and run: "Enqueue_write msg m w = (err, w')"
    and ok: "err = None \<Longrightarrow> message_ok msg"
  shows "err = None" "healthy m w'"
    "disk_records w' = (disk_records w)(qpath m (Queue msg) := disk_records w (qpath m (Queue msg)) @ [message_record msg])"
    and "files w' p \<noteq> None \<Longrightarrow> files w p \<noteq> None"
proof -
  let ?p = "qpath m (Queue msg)" and ?r = "message_record msg"
  have a: "append_record (open_writer (mWalDir m) (Queue msg)) ?r w = (err, w')"
    using run k by (simp add: Enqueue_write_def WriteMessage_def known_def)
  then show none: "err = None" using healthy_append_ok [OF h k, of ?r] by auto
  then have enc: "encodable ?r" using ok by (simp add: message_ok_def)
  have w': "w' = w\<lparr>files := (files w)(?p \<mapsto> log_of frame (disk_records w ?p @ [?r]))\<rparr>"
    using a healthy_append [OF h k enc] by simp
  have "\<forall>r \<in> set (disk_records w ?p @ [?r]). encodable r" using healthy_encodable [OF h] enc by auto
  from healthy_put [OF h healthyD(2) [OF h] refl _ w' this]
  show "healthy m w'" "disk_records w' = (disk_records w)(?p := disk_records w ?p @ [?r])" by blast+
  show "files w p \<noteq> None" if "files w' p \<noteq> None" using that healthyD(4) [OF h k] w' by (auto split: if_splits)
qed

lemma Enqueue_push_frame [simp]:
  "mWalDir (Enqueue_push msg m) = mWalDir m" "mClosing (Enqueue_push msg m) = mClosing m"
  "known m q \<Longrightarrow> known (Enqueue_push msg m) q"
  by (auto simp: Enqueue_push_def known_def split: option.splits)

lemma healthy_topic:
  assumes h: "healthy m w" and t: "mTopics m q = Some t0"
  shows "healthy (m\<lparr>mTopics := (mTopics m)(q \<mapsto> t)\<rparr>) w"
proof -
  have "known (m\<lparr>mTopics := (mTopics m)(q \<mapsto> t)\<rparr>) p \<Longrightarrow> known m p" for p
    using t by (auto simp: known_def split: if_splits)
  then show ?thesis using h mgr_inv_topic(1) [OF healthyD(2) [OF h] t] unfolding healthy_def by auto
qed

lemma healthy_push:
  assumes h: "healthy m w" and k: "known m (Queue msg)"
  shows "healthy (Enqueue_push msg m) w"
    "queued (Enqueue_push msg m) p = (if p = Queue msg then queued m p @ [msg] else queued m p)"
proof -
  obtain t where t: "mTopics m (Queue msg) = Some t" using k by (auto simp: known_def)
  then show "healthy (Enqueue_push msg m) w" using healthy_topic [OF h t] by (simp add: Enqueue_push_def)
  show "queued (Enqueue_push msg m) p = (if p = Queue msg then queued m p @ [msg] else queued m p)"
    using t by (simp add: Enqueue_push_def queued_def)
qed

lemma healthy_remove:
  assumes h: "healthy m w" and k: "known m q" and run: "expire_remove q cutoff m w = (removed, m', w')"
  shows "healthy m' w'" "w' = w" "mWalDir m' = mWalDir m" "mClosing m' = mClosing m" "known m p \<Longrightarrow> known m' p"
    "removed = filter (expired cutoff) (queued m q)"
    "queued m' p = (if p = q then filter (\<lambda>x. \<not> expired cutoff x) (queued m q) else queued m p)"
proof -
  obtain t where t: "mTopics m q = Some t" using k by (auto simp: known_def)
  have r: "removed = filter (expired cutoff) (tMsgs t)" "m' = m\<lparr>mTopics := (mTopics m)(q \<mapsto> expire_topic cutoff t)\<rparr>" "w' = w"
    using run unfolding expire_remove_known [OF k t] by simp_all
  show "healthy m' w'" unfolding r(2,3) by (rule healthy_topic [OF h t])
  show "w' = w" "mWalDir m' = mWalDir m" "mClosing m' = mClosing m" "known m p \<Longrightarrow> known m' p"
    "removed = filter (expired cutoff) (queued m q)"
    "queued m' p = (if p = q then filter (\<lambda>x. \<not> expired cutoff x) (queued m q) else queued m p)"
    using r t by (auto simp: queued_def expire_topic_def)
qed

subsection \<open>Where messages are\<close>

text \<open>A message is carried by a dispatcher that has not registered it yet, in an entry of the in-flight
  map, or by a task. It is lodged in a place, the name of a queue: in the topic of that queue, with
  a carrier (the place is then the message's queue), or waiting for the tombstone of an expiry.
  A call of \<open>Enqueue\<close> holds a copy from the refusal on, or, for a publisher, from the log write on.\<close>

fun held :: "dispatcher \<Rightarrow> Message set" where
  "held (DSelect msg) = {msg}"
| "held (DPicked msg ref) = {msg}"
| "held (DCounted msg ref) = {msg}"
| "held _ = {}"

definition carried :: "System \<Rightarrow> Message set" where
  "carried s = {x. (\<exists>q pc. sDisp (yServer s) q = Some pc \<and> x \<in> held pc) \<or>
     (\<exists>i e. bInFlight (yB s) i = Some e \<and> eMessage e = x) \<or> (\<exists>t \<in> set (yTasks s). eMessage (task_entry t) = x)}"

definition lodged :: "System \<Rightarrow> (string \<times> Message) set" where
  "lodged s = {(q, x). x \<in> set (queued (yM s) q)} \<union> (\<lambda>x. (Queue x, x)) ` carried s \<union> set (yExp s)"

fun enq_copy :: "enq \<Rightarrow> Message set" where
  "enq_copy (EOpen c msg) = (if c = ByNack then {msg} else {})"
| "enq_copy (EWrite c msg) = (if c = ByNack then {msg} else {})"
| "enq_copy (EPush msg) = {msg}"

definition present :: "System \<Rightarrow> MessageID set" where
  "present s = ID ` (snd ` lodged s \<union> \<Union> (enq_copy ` set (yEnq s)))"

definition waiting :: "Manager \<Rightarrow> MessageID set" where
  "waiting m = (\<Union>q. ID ` set (queued m q))"

lemma lodgedI:
  "x \<in> set (queued (yM s) q) \<Longrightarrow> (q, x) \<in> lodged s"
  "x \<in> carried s \<Longrightarrow> (Queue x, x) \<in> lodged s"
  "c \<in> set (yExp s) \<Longrightarrow> c \<in> lodged s"
  by (auto simp: lodged_def)

lemma lodgedE:
  assumes "(q, x) \<in> lodged s"
  obtains (waits) "x \<in> set (queued (yM s) q)" | (carrier) "x \<in> carried s" "q = Queue x" | (expiring) "(q, x) \<in> set (yExp s)"
  using assms by (auto simp: lodged_def)

lemma presentI:
  "(q, x) \<in> lodged s \<Longrightarrow> ID x \<in> present s"
  "e \<in> set (yEnq s) \<Longrightarrow> x \<in> enq_copy e \<Longrightarrow> ID x \<in> present s"
  by (force simp: present_def)+

lemma presentE:
  assumes "i \<in> present s"
  obtains (lodges) q x where "(q, x) \<in> lodged s" "i = ID x"
    | (enqueues) e x where "e \<in> set (yEnq s)" "x \<in> enq_copy e" "i = ID x"
  using assms by (auto simp: present_def)

lemma carriedI:
  "sDisp (yServer s) q = Some pc \<Longrightarrow> x \<in> held pc \<Longrightarrow> x \<in> carried s"
  "bInFlight (yB s) i = Some e \<Longrightarrow> eMessage e \<in> carried s"
  "t \<in> set (yTasks s) \<Longrightarrow> eMessage (task_entry t) \<in> carried s"
  by (auto simp: carried_def)

lemma carriedE:
  assumes "x \<in> carried s"
  obtains (holds) q pc where "sDisp (yServer s) q = Some pc" "x \<in> held pc"
    | (flies) i e where "bInFlight (yB s) i = Some e" "x = eMessage e"
    | (works) t where "t \<in> set (yTasks s)" "x = eMessage (task_entry t)"
  using assms by (auto simp: carried_def)

lemma waiting_iff: "i \<in> waiting m \<longleftrightarrow> (\<exists>q x. x \<in> set (queued m q) \<and> ID x = i)"
  by (auto simp: waiting_def)

text \<open>The effect of \<open>Dequeue\<close>.\<close>

lemma healthy_Dequeue:
  assumes h: "healthy m w" and run: "Manager_Dequeue q m w = (res, m', w')"
  shows "healthy m' w'" "mWalDir m' = mWalDir m" "mClosing m' = mClosing m" "disk_records w' = disk_records w"
    and "x \<in> set (queued m p) \<Longrightarrow> x \<in> set (queued m' p) \<or> res = Some (x, True)"
    and "known m p \<Longrightarrow> known m' p" "known m' q" "files w' f \<noteq> None \<Longrightarrow> files w f \<noteq> None \<or> f = qpath m q"
    and "x \<in> set (queued m' p) \<Longrightarrow> x \<in> set (queued m p) \<or> replays m w q \<and> tombstone_ok (ID x)"
    and "res = Some (x, True) \<Longrightarrow> x \<in> set (queued m q) \<or> replays m w q \<and> tombstone_ok (ID x)"
proof -
  obtain err m1 w1 where i: "initQueue q m w = (err, m1, w1)" by (metis prod.exhaust)
  note h1 = healthy_initQueue [OF h i]
  note q1 = healthy_initQueue_queued [OF h i]
  obtain t where t: "mTopics m1 q = Some t" using h1 by (auto simp: known_def)
  obtain t' where d: "Topic_Dequeue t = (res, t')" "m' = m1\<lparr>mTopics := (mTopics m1)(q \<mapsto> t')\<rparr>" "w' = w1"
    using run i h1 t by (auto simp: Manager_Dequeue_def split: prod.splits)
  have "mgr_inv m'" unfolding d(2) using mgr_inv_topic(1) [OF healthyD(2) t] h1 by blast
  moreover have "known m' p \<Longrightarrow> known m1 p" for p using d(2) t h1 by (auto simp: known_def split: if_splits)
  moreover have "mWalDir m' = mWalDir m1" using d(2) by simp
  ultimately show "healthy m' w'" using h1 d(3) unfolding healthy_def by auto
  show "mWalDir m' = mWalDir m" "mClosing m' = mClosing m" "disk_records w' = disk_records w" using h1 d by simp_all
  have td: "set (tMsgs t) \<subseteq> set (tMsgs t') \<union> {x. res = Some (x, True)}" "set (tMsgs t') \<subseteq> set (tMsgs t)"
    "res = Some (x, True) \<Longrightarrow> x \<in> set (tMsgs t)" for x
    using d(1) by (cases t rule: Dequeue_cases; auto)+
  have qd: "queued m' p = (if p = q then tMsgs t' else queued m1 p)" "queued m1 q = tMsgs t" for p
    using d(2) t by (simp_all add: queued_def)
  show "x \<in> set (queued m p) \<Longrightarrow> x \<in> set (queued m' p) \<or> res = Some (x, True)"
  proof (cases "p = q")
    case True
    assume "x \<in> set (queued m p)"
    then have "x \<in> set (tMsgs t)" using q1(1) [of p] qd(2) True by auto
    then show ?thesis using td(1) qd(1) [of p] True by auto
  next
    case False
    assume "x \<in> set (queued m p)"
    then show ?thesis using q1(1) [of p] qd(1) [of p] False by auto
  qed
  show "known m p \<Longrightarrow> known m' p" "known m' q" using initQueue_keeps_known [OF i, of p] d(2) h1 by auto
  show "files w' f \<noteq> None \<Longrightarrow> files w f \<noteq> None \<or> f = qpath m q" using initQueue_files [OF i, of f] d(3) by (cases "f = qpath m q") simp_all
  show "x \<in> set (queued m' p) \<Longrightarrow> x \<in> set (queued m p) \<or> replays m w q \<and> tombstone_ok (ID x)"
    using q1(2) [of x p] td(2) qd by (auto split: if_splits)
  show "res = Some (x, True) \<Longrightarrow> x \<in> set (queued m q) \<or> replays m w q \<and> tombstone_ok (ID x)"
    using q1(2) [of x q] td(3) [of x] qd(2) by auto
qed

end
