(* ===== verification/DurableSteps.thy ===== *)
theory DurableSteps
  imports HealthyDisk
begin

text \<open>
  What every step of the broker does on a disk without faults: the logs grow by the records of the
  messages it accepts or requeues and the tombstones of those it settles; a copy of a message in
  the next state comes from a copy in this one, from a publisher or from the replay of a log; and
  while the broker serves, no identifier is lost. One lemma per kind of step, then the theorem over
  \<open>sys_step\<close> (\<open>sys_step_sound\<close>).
\<close>

subsection \<open>What a run has logged\<close>

definition logged :: "label list \<Rightarrow> Message set" where
  "logged ls = {x. Accepted x \<in> set ls \<or> Requeued x \<in> set ls}"

definition settled :: "label list \<Rightarrow> MessageID set" where
  "settled ls = {i. \<exists>q. Settled i q \<in> set ls \<or> Unsettled i q \<in> set ls}"

lemma logged_append [simp]: "logged (ls @ ls') = logged ls \<union> logged ls'"
  by (auto simp: logged_def)

lemma settled_append [simp]: "settled (ls @ ls') = settled ls \<union> settled ls'"
  by (auto simp: settled_def)

lemma logged_simps [simp]:
  "logged [] = {}" "logged [Accepted x] = {x}" "logged [Requeued x] = {x}" "logged [Settled i q] = {}"
  "logged (map (\<lambda>x. Settled (f x) q) xs) = {}" "settled [] = {}" "settled [Settled i q] = {i}"
  "logged [Unsettled i q] = {}" "settled [Unsettled i q] = {i}" "logged [log_label c x] = {x}"
  "logged [tomb_label err i q] = {}" "settled [tomb_label err i q] = {i}"
  by (cases c; auto simp: logged_def settled_def tomb_label_def split: option.splits)+

text \<open>The records a list of labels accounts for.\<close>

definition caused :: "string \<Rightarrow> label list \<Rightarrow> string \<Rightarrow> wal_record \<Rightarrow> bool" where
  "caused dir ls p r \<longleftrightarrow>
     (\<exists>x \<in> logged ls. r = message_record x \<and> p = wal_path dir (Queue x)) \<or>
     (\<exists>i q. Settled i q \<in> set ls \<and> r = tombstone_record i \<and> p = wal_path dir q)"

definition grows :: "string \<Rightarrow> label list \<Rightarrow> (string \<Rightarrow> wal_record list) \<Rightarrow> (string \<Rightarrow> wal_record list) \<Rightarrow> bool" where
  "grows dir ls d d' \<longleftrightarrow>
     (\<forall>p. set (d p) \<subseteq> set (d' p)) \<and> (\<forall>p. \<forall>r \<in> set (d' p). r \<in> set (d p) \<or> caused dir ls p r) \<and>
     (\<forall>x \<in> logged ls. message_record x \<in> set (d' (wal_path dir (Queue x)))) \<and>
     (\<forall>i q. Settled i q \<in> set ls \<longrightarrow> tombstone_record i \<in> set (d' (wal_path dir q)))"

lemma grows_refl: "logged ls = {} \<Longrightarrow> \<forall>i q. Settled i q \<notin> set ls \<Longrightarrow> grows dir ls d d"
  by (simp add: grows_def)

lemma grows_trans:
  assumes "grows dir ls d d'" "grows dir ls' d' d''"
  shows "grows dir (ls @ ls') d d''"
proof -
  have "caused dir ls p r \<Longrightarrow> caused dir (ls @ ls') p r" "caused dir ls' p r \<Longrightarrow> caused dir (ls @ ls') p r" for p r
    by (auto simp: caused_def)
  with assms show ?thesis unfolding grows_def logged_append set_append by blast
qed

lemma grows_message:
  assumes "logged ls = {x}" "\<forall>i q. Settled i q \<notin> set ls" shows "grows dir ls d (d(wal_path dir (Queue x) := d (wal_path dir (Queue x)) @ [message_record x]))"
  using assms by (auto simp: grows_def caused_def)

lemma grows_tombstones:
  assumes "logged ls = {}" "\<forall>i p. Settled i p \<in> set ls \<longleftrightarrow> i \<in> set ids \<and> p = q"
  shows "grows dir ls d (d(wal_path dir q := d (wal_path dir q) @ map tombstone_record ids))"
  using assms by (auto simp: grows_def caused_def)

subsection \<open>The effect of one step\<close>

definition serving :: "System \<Rightarrow> bool" where
  "serving s \<longleftrightarrow> \<not> yCtxDone s \<and> \<not> mClosing (yM s)"

definition accepted_ids :: "label list \<Rightarrow> MessageID set" where
  "accepted_ids ls = {i. \<exists>x. Accepted x \<in> set ls \<and> ID x = i}"

lemma accepted_simps [simp]:
  "accepted_ids (ls @ ls') = accepted_ids ls \<union> accepted_ids ls'" "accepted_ids [] = {}"
  "accepted_ids [tomb_label err i q] = {}"
  by (auto simp: accepted_ids_def tomb_label_def split: option.splits)

text \<open>Two stages of one message in one queue.\<close>

definition same :: "Message \<Rightarrow> Message \<Rightarrow> bool" where
  "same x y \<longleftrightarrow> ID y = ID x \<and> Payload y = Payload x \<and> Headers y = Headers x \<and> Queue y = Queue x"

lemma same_refl [simp]: "same x x"
  by (simp add: same_def)

text \<open>A call of \<open>Enqueue\<close> past the critical section has its queue open.\<close>

fun past_open :: "enq \<Rightarrow> Message set" where
  "past_open (EOpen c msg) = {}"
| "past_open (EWrite c msg) = {msg}"
| "past_open (EPush msg) = {msg}"

definition enq_known :: "System \<Rightarrow> bool" where
  "enq_known s \<longleftrightarrow> (\<forall>e \<in> set (yEnq s). \<forall>x \<in> past_open e. known (yM s) (Queue x))"

lemma enq_knownD: "enq_known s \<Longrightarrow> e \<in> set (yEnq s) \<Longrightarrow> x \<in> past_open e \<Longrightarrow> known (yM s) (Queue x)"
  by (auto simp: enq_known_def)

text \<open>Where the copies of the next state come from: a lodged one from one in this state, from a push,
  or from the replay of a log; one in a call of \<open>Enqueue\<close> from such a call, from a refusal, or from a
  publisher.\<close>

definition lodges :: "System \<Rightarrow> System \<Rightarrow> string \<Rightarrow> Message \<Rightarrow> bool" where
  "lodges s s' q y \<longleftrightarrow> (\<exists>p x. (p, x) \<in> lodged s \<and> same x y \<and> (q = p \<or> q = Queue y)) \<or>
     (EPush y \<in> set (yEnq s) \<and> q = Queue y) \<or>
     (\<exists>p. replays (yM s) (yW s) p \<and> known (yM s') p \<and> tombstone_ok (ID y))"

definition enters :: "System \<Rightarrow> label list \<Rightarrow> Message \<Rightarrow> bool" where
  "enters s ls y \<longleftrightarrow> (\<exists>e \<in> set (yEnq s). y \<in> enq_copy e) \<or>
     (\<exists>p x mr now. (p, x) \<in> lodged s \<and> y = nack_target mr now x) \<or> Accepted y \<in> set ls"

text \<open>What every step on a healthy disk does: to the logs, to the names in use, to the copies of
  messages, and, while the broker serves, that no identifier is lost.\<close>

definition sound_disk :: "System \<Rightarrow> label list \<Rightarrow> System \<Rightarrow> bool" where
  "sound_disk s ls s' \<longleftrightarrow> healthy (yM s') (yW s') \<and> mWalDir (yM s') = mWalDir (yM s) \<and>
     grows (mWalDir (yM s)) ls (disk_records (yW s)) (disk_records (yW s')) \<and>
     (\<forall>q. known (yM s) q \<longrightarrow> known (yM s') q) \<and> enq_known s' \<and>
     (\<forall>f. files (yW s') f \<noteq> None \<longrightarrow> files (yW s) f \<noteq> None \<or> (\<exists>q. known (yM s') q \<and> f = qpath (yM s) q))"

definition sound_copies :: "System \<Rightarrow> label list \<Rightarrow> System \<Rightarrow> bool" where
  "sound_copies s ls s' \<longleftrightarrow> (\<forall>q y. (q, y) \<in> lodged s' \<longrightarrow> lodges s s' q y) \<and>
     (\<forall>e \<in> set (yEnq s'). \<forall>y \<in> enq_copy e. enters s ls y) \<and>
     (\<forall>i q. Settled i q \<in> set ls \<or> Unsettled i q \<in> set ls \<longrightarrow> (\<exists>x. (q, x) \<in> lodged s \<and> ID x = i)) \<and>
     (\<forall>i q. Unsettled i q \<in> set ls \<longrightarrow> \<not> known (yM s) q)"

definition sound_step :: "System \<Rightarrow> label list \<Rightarrow> System \<Rightarrow> bool" where
  "sound_step s ls s' \<longleftrightarrow> sound_disk s ls s' \<and> sound_copies s ls s' \<and>
     (serving s' \<longrightarrow> serving s \<and> present s \<union> accepted_ids ls \<subseteq> present s' \<union> settled ls)"

lemma sound_diskI:
  assumes "healthy (yM s') (yW s')" "mWalDir (yM s') = mWalDir (yM s)"
    "grows (mWalDir (yM s)) ls (disk_records (yW s)) (disk_records (yW s'))"
    "\<And>q. known (yM s) q \<Longrightarrow> known (yM s') q"
    "\<And>e x. e \<in> set (yEnq s') \<Longrightarrow> x \<in> past_open e \<Longrightarrow> known (yM s') (Queue x)"
    "\<And>f. files (yW s') f \<noteq> None \<Longrightarrow> files (yW s) f \<noteq> None \<or> (\<exists>q. known (yM s') q \<and> f = qpath (yM s) q)"
  shows "sound_disk s ls s'"
  unfolding sound_disk_def enq_known_def by (intro conjI allI impI ballI assms)

lemma sound_copiesI:
  assumes "\<And>q y. (q, y) \<in> lodged s' \<Longrightarrow> lodges s s' q y"
    "\<And>e y. e \<in> set (yEnq s') \<Longrightarrow> y \<in> enq_copy e \<Longrightarrow> enters s ls y"
    "\<And>i q. Settled i q \<in> set ls \<or> Unsettled i q \<in> set ls \<Longrightarrow> \<exists>x. (q, x) \<in> lodged s \<and> ID x = i"
    "\<And>i q. Unsettled i q \<in> set ls \<Longrightarrow> \<not> known (yM s) q"
  shows "sound_copies s ls s'"
  unfolding sound_copies_def using assms by blast

lemma lodgesI:
  "(p, x) \<in> lodged s \<Longrightarrow> same x y \<Longrightarrow> q = p \<or> q = Queue y \<Longrightarrow> lodges s s' q y"
  "EPush y \<in> set (yEnq s) \<Longrightarrow> lodges s s' (Queue y) y"
  "replays (yM s) (yW s) p \<Longrightarrow> known (yM s') p \<Longrightarrow> tombstone_ok (ID y) \<Longrightarrow> lodges s s' q y"
  unfolding lodges_def by blast+

lemma lodges_self: "(q, y) \<in> lodged s \<Longrightarrow> lodges s s' q y"
  using lodgesI(1) [of q y s y q s'] by simp

lemma entersI:
  "e \<in> set (yEnq s) \<Longrightarrow> y \<in> enq_copy e \<Longrightarrow> enters s ls y"
  "(p, x) \<in> lodged s \<Longrightarrow> enters s ls (nack_target mr now x)"
  "Accepted y \<in> set ls \<Longrightarrow> enters s ls y"
  unfolding enters_def by blast+

text \<open>Where the copies go.\<close>

lemma present_up:
  assumes "\<And>q x. x \<in> set (queued (yM s) q) \<Longrightarrow> ID x \<in> present s' \<union> A"
    and "\<And>x. x \<in> carried s \<Longrightarrow> ID x \<in> present s' \<union> A"
    and "\<And>q x. (q, x) \<in> set (yExp s) \<Longrightarrow> ID x \<in> present s' \<union> A"
    and "\<And>e x. e \<in> set (yEnq s) \<Longrightarrow> x \<in> enq_copy e \<Longrightarrow> ID x \<in> present s' \<union> A"
  shows "present s \<subseteq> present s' \<union> A"
proof
  fix i assume "i \<in> present s"
  then show "i \<in> present s' \<union> A"
  proof (cases rule: presentE)
    case (lodges q x)
    from lodges(1) show ?thesis by (cases rule: lodgedE) (use assms lodges(2) in auto)
  qed (use assms in auto)
qed

lemma present_topic: "x \<in> set (queued (yM s) q) \<Longrightarrow> ID x \<in> present s"
  and present_carried: "x \<in> carried s \<Longrightarrow> ID x \<in> present s"
  and present_exp: "(q, x) \<in> set (yExp s) \<Longrightarrow> ID x \<in> present s"
  using presentI(1) lodgedI by blast+

lemma lodged_down:
  assumes "\<And>q x. x \<in> set (queued (yM s') q) \<Longrightarrow> lodges s s' q x"
    and "\<And>x. x \<in> carried s' \<Longrightarrow> lodges s s' (Queue x) x"
    and "\<And>q x. (q, x) \<in> set (yExp s') \<Longrightarrow> lodges s s' q x"
  shows "(q, x) \<in> lodged s' \<Longrightarrow> lodges s s' q x"
  by (elim lodgedE) (use assms in auto)

text \<open>Steps that do not touch the queue manager, the disk and the calls in progress: it is enough to
  look at the carried messages.\<close>

lemma sound_quiet:
  assumes h: "healthy (yM s) (yW s)" "enq_known s"
    and eq: "yM s' = yM s" "yW s' = yW s" "yEnq s' = yEnq s" "yExp s' = yExp s"
    and down: "\<And>y. y \<in> carried s' \<Longrightarrow> \<exists>x \<in> carried s. same x y"
    and up: "serving s' \<Longrightarrow> serving s" "\<And>x. serving s' \<Longrightarrow> x \<in> carried s \<Longrightarrow> ID x \<in> ID ` carried s'"
  shows "sound_step s [] s'"
  unfolding sound_step_def
proof (intro conjI impI)
  show "sound_disk s [] s'" by (rule sound_diskI) (use h eq enq_knownD grows_refl in auto)
  have c: "lodges s s' (Queue y) y" if y: "y \<in> carried s'" for y
  proof -
    obtain x where x: "x \<in> carried s" "same x y" using down [OF y] by blast
    then show ?thesis using lodgesI(1) [OF lodgedI(2) [OF x(1)] x(2), of "Queue y" s'] by blast
  qed
  show "sound_copies s [] s'"
  proof (rule sound_copiesI)
    show "lodges s s' q y" if "(q, y) \<in> lodged s'" for q y
      by (rule lodged_down [OF _ c _ that]) (use lodges_self lodgedI eq in auto)
  qed (use eq entersI(1) [where s = s] in auto)
  assume sv: "serving s'"
  then show "serving s" by (rule up(1))
  have "present s \<subseteq> present s' \<union> {}"
  proof (rule present_up)
    show "ID x \<in> present s' \<union> {}" if "x \<in> carried s" for x using up(2) [OF sv that] present_carried by auto
  qed (use eq present_topic present_exp presentI(2) [where s = s'] in auto)
  then show "present s \<union> accepted_ids [] \<subseteq> present s' \<union> settled []" by simp
qed

lemma sound_same:
  assumes "healthy (yM s) (yW s)" "enq_known s"
    and "yM s' = yM s" "yW s' = yW s" "yEnq s' = yEnq s" "yExp s' = yExp s" "carried s' = carried s" "serving s' \<Longrightarrow> serving s"
  shows "sound_step s [] s'"
  by (rule sound_quiet [OF assms(1-6)]) (use assms(7,8) same_refl in blast)+

lemma carried_cong:
  "sDisp (yServer s') = sDisp (yServer s) \<Longrightarrow> bInFlight (yB s') = bInFlight (yB s) \<Longrightarrow> yTasks s' = yTasks s \<Longrightarrow> carried s' = carried s"
  by (simp add: carried_def)

lemma carried_with [simp]:
  "carried (with_manager m w s) = carried s" "carried (with_enq es s) = carried s" "carried (with_exp xs s) = carried s"
  by (rule carried_cong; simp)+

subsection \<open>Calls of the queue manager\<close>

lemma sound_open:
  assumes h: "healthy (yM s) (yW s)" "enq_known s" and i: "initQueue q (yM s) (yW s) = (err, m, w)"
    and s': "s' = with_enq es (with_manager m w s)"
    and es: "\<And>e. e \<in> set es \<Longrightarrow> e \<in> set (yEnq s) \<or> (\<exists>c msg. e = EWrite c msg \<and> Queue msg = q \<and> EOpen c msg \<in> set (yEnq s))"
      "\<And>e x. e \<in> set (yEnq s) \<Longrightarrow> x \<in> enq_copy e \<Longrightarrow> \<exists>e' \<in> set es. x \<in> enq_copy e'"
  shows "sound_step s [] s'"
  unfolding sound_step_def
proof (intro conjI impI)
  note h1 = healthy_initQueue [OF h(1) i] and k = initQueue_keeps_known [OF i]
  have q1: "set (queued (yM s) p) \<subseteq> set (queued m p)"
    and q2: "x \<in> set (queued m p) \<Longrightarrow> x \<in> set (queued (yM s) p) \<or> replays (yM s) (yW s) q \<and> tombstone_ok (ID x)" for p x
    using healthy_initQueue_queued [OF h(1) i] by blast+
  have kq: "known (yM s') q" using h1 s' by simp
  show "sound_disk s [] s'"
  proof (rule sound_diskI)
    show "known (yM s') (Queue x)" if "e \<in> set (yEnq s')" "x \<in> past_open e" for e x
    proof -
      have "e \<in> set (yEnq s) \<or> Queue x = q" using es(1) [of e] that s' by auto
      then show ?thesis using kq k enq_knownD [OF h(2) _ that(2)] s' by auto
    qed
    show "files (yW s) f \<noteq> None \<or> (\<exists>q. known (yM s') q \<and> f = qpath (yM s) q)" if "files (yW s') f \<noteq> None" for f
      using that initQueue_files [OF i, of f] kq s' by (cases "f = qpath (yM s) q") auto
  qed (use h1 k s' grows_refl in auto)
  show "sound_copies s [] s'"
  proof (rule sound_copiesI)
    show "lodges s s' p y" if "(p, y) \<in> lodged s'" for p y
    proof (rule lodged_down [OF _ _ _ that])
      show "lodges s s' r x" if "x \<in> set (queued (yM s') r)" for r x
        using that s' q2 [of x r] lodgesI(3) [OF _ kq, of s] lodges_self [OF lodgedI(1), of x s r s'] by auto
    qed (use s' lodges_self lodgedI in auto)
    show "enters s [] y" if "e \<in> set (yEnq s')" "y \<in> enq_copy e" for e y
      using es(1) [of e] that s' entersI(1) [of e s y] entersI(1) [of "EOpen ByNack y" s y] by (auto split: if_splits)
  qed (use s' in auto)
  show "serving s" if "serving s'" using that h1 s' by (simp add: serving_def)
  have "present s \<subseteq> present s' \<union> {}"
  proof (rule present_up)
    show "ID x \<in> present s' \<union> {}" if "x \<in> set (queued (yM s) p)" for p x
      using q1 [of p] that s' present_topic [of x s' p] by auto
    show "ID x \<in> present s' \<union> {}" if "e \<in> set (yEnq s)" "x \<in> enq_copy e" for e x
      using es(2) [OF that] presentI(2) [of _ s' x] s' by auto
  qed (use s' present_carried [of _ s'] present_exp [of _ _ s'] in auto)
  then show "present s \<union> accepted_ids [] \<subseteq> present s' \<union> settled []" by simp
qed

lemma sound_write:
  assumes h: "healthy (yM s) (yW s)" "enq_known s" and q: "yEnq s = es @ EWrite c msg # es'"
    and run: "Enqueue_write msg (yM s) (yW s) = (err, w)"
    and ls: "ls = (case err of None \<Rightarrow> [log_label c msg] | Some _ \<Rightarrow> [])" and ok: "\<forall>x \<in> logged ls. message_ok x"
    and s': "s' = with_enq (case err of None \<Rightarrow> es @ EPush msg # es' | Some _ \<Rightarrow> es @ es') (with_manager (yM s) w s)"
  shows "sound_step s ls s'"
  unfolding sound_step_def
proof (intro conjI impI)
  have k: "known (yM s) (Queue msg)" using enq_knownD [OF h(2), of "EWrite c msg" msg] q by simp
  have "err = None \<Longrightarrow> message_ok msg" using ls ok by simp
  note wr = healthy_write [OF h(1) k run this]
  have l: "ls = [log_label c msg]" and s': "s' = with_enq (es @ EPush msg # es') (with_manager (yM s) w s)" using wr(1) ls s' by simp_all
  show "sound_disk s ls s'"
  proof (rule sound_diskI)
    show "grows (mWalDir (yM s)) ls (disk_records (yW s)) (disk_records (yW s'))"
      using wr(3) l s' grows_message [of ls msg] by (cases c) simp_all
    show "known (yM s') (Queue x)" if "e \<in> set (yEnq s')" "x \<in> past_open e" for e x
      using that s' q k enq_knownD [OF h(2), of e x] by auto
  qed (use wr s' in auto)
  show "sound_copies s ls s'"
  proof (rule sound_copiesI)
    show "lodges s s' p y" if "(p, y) \<in> lodged s'" for p y
      by (rule lodges_self) (use that s' in \<open>auto simp: lodged_def\<close>)
    show "enters s ls y" if "e \<in> set (yEnq s')" "y \<in> enq_copy e" for e y
      using that s' q l entersI(1) [of e s y] entersI(1) [of "EWrite c y" s y] entersI(3) [of y ls s] by (cases c) auto
  qed (cases c; use l in auto)+
  show "serving s" if "serving s'" using that s' by (simp add: serving_def)
  have new: "ID msg \<in> present s'" using presentI(2) [of "EPush msg" s' msg] s' by simp
  have "present s \<subseteq> present s' \<union> {}"
  proof (rule present_up)
    show "ID x \<in> present s' \<union> {}" if "e \<in> set (yEnq s)" "x \<in> enq_copy e" for e x
      using that q s' new presentI(2) [of e s' x] by (auto split: if_splits)
  qed (use s' present_topic [of _ s'] present_carried [of _ s'] present_exp [of _ _ s'] in auto)
  then show "present s \<union> accepted_ids ls \<subseteq> present s' \<union> settled ls" using new l by (cases c) (auto simp: accepted_ids_def)
qed

lemma sound_push:
  assumes h: "healthy (yM s) (yW s)" "enq_known s" and q: "yEnq s = es @ EPush msg # es'"
    and s': "s' = with_enq (es @ es') (with_manager (Enqueue_push msg (yM s)) (yW s) s)"
  shows "sound_step s [] s'"
  unfolding sound_step_def
proof (intro conjI impI)
  have k: "known (yM s) (Queue msg)" using enq_knownD [OF h(2), of "EPush msg" msg] q by simp
  note p = healthy_push [OF h(1) k]
  show "sound_disk s [] s'"
  proof (rule sound_diskI)
    show "known (yM s') (Queue x)" if "e \<in> set (yEnq s')" "x \<in> past_open e" for e x
      using that s' q enq_knownD [OF h(2), of e x] by auto
  qed (use p s' grows_refl in auto)
  show "sound_copies s [] s'"
  proof (rule sound_copiesI)
    show "lodges s s' p y" if "(p, y) \<in> lodged s'" for p y
    proof (rule lodged_down [OF _ _ _ that])
      show "lodges s s' r x" if "x \<in> set (queued (yM s') r)" for r x
        using that s' p(2) [of r] q lodges_self [OF lodgedI(1), of x s r s'] lodgesI(2) [of x s s'] by (auto split: if_splits)
    qed (use s' lodges_self lodgedI in auto)
    show "enters s [] y" if "e \<in> set (yEnq s')" "y \<in> enq_copy e" for e y
      using that s' q entersI(1) [of e s y] by auto
  qed simp_all
  show "serving s" if "serving s'" using that s' by (simp add: serving_def)
  have up: "ID x \<in> present s'" if "x \<in> set (queued (yM s) r) \<or> x = msg \<and> r = Queue msg" for x r
  proof -
    have "x \<in> set (queued (yM s') r)" using that p(2) [of r] s' by auto
    then show ?thesis by (rule present_topic)
  qed
  have "present s \<subseteq> present s' \<union> {}"
  proof (rule present_up)
    show "ID x \<in> present s' \<union> {}" if "e \<in> set (yEnq s)" "x \<in> enq_copy e" for e x
    proof (cases "e = EPush msg")
      case True
      then show ?thesis using that(2) up [of msg "Queue msg"] by simp
    next
      case False
      then have "e \<in> set (yEnq s')" using that(1) q s' by auto
      then show ?thesis using presentI(2) [OF _ that(2)] by blast
    qed
  qed (use s' up present_carried [of _ s'] present_exp [of _ _ s'] in auto)
  then show "present s \<union> accepted_ids [] \<subseteq> present s' \<union> settled []" by simp
qed

text \<open>A tombstone, for a task or for an expired message: the label names a lodged copy, which leaves.\<close>

lemma sound_tombstone:
  assumes h: "healthy (yM s) (yW s)" "enq_known s" and run: "b_WriteTombstone i q (yB s) = (err, b)"
    and x: "(q, x) \<in> lodged s" "ID x = i" and ok: "tombstone_ok i"
    and same: "yB s' = b" "sDisp (yServer s') = sDisp (yServer s)" "yCtxDone s' = yCtxDone s" "yEnq s' = yEnq s"
    and ts: "set (yTasks s') \<subseteq> set (yTasks s)" "set (yExp s') \<subseteq> set (yExp s)"
      "\<And>t. t \<in> set (yTasks s) \<Longrightarrow> t \<in> set (yTasks s') \<or> ID (eMessage (task_entry t)) = i"
      "\<And>p y. (p, y) \<in> set (yExp s) \<Longrightarrow> (p, y) \<in> set (yExp s') \<or> ID y = i"
  shows "sound_step s [tomb_label err i q] s'"
  unfolding sound_step_def
proof (intro conjI impI)
  obtain w where w: "Manager_WriteTombstone i q (yM s) (yW s) = (err, w)" "b = (yB s)\<lparr>bWorld := w\<rparr>"
    using run by (auto simp: b_WriteTombstone_def split: prod.splits)
  note t = healthy_Tombstone [OF h(1) w(1) ok]
  have fl: "files (yW s) f \<noteq> None" if "files w f \<noteq> None" for f
    using Tombstone_files [OF h(1) w(1)] that by blast
  show "sound_disk s [tomb_label err i q] s'"
  proof (rule sound_diskI)
    show "grows (mWalDir (yM s)) [tomb_label err i q] (disk_records (yW s)) (disk_records (yW s'))"
      using t(2) w same grows_tombstones [of "[tomb_label err i q]" "[i]" q] grows_refl [of "[tomb_label err i q]"]
      by (cases err) (auto simp: tomb_label_def)
  qed (use t w same fl enq_knownD [OF h(2)] in auto)
  have c: "carried s' \<subseteq> carried s" using same w(2) ts(1) by (auto simp: carried_def)
  show "sound_copies s [tomb_label err i q] s'"
  proof (rule sound_copiesI)
    show "lodges s s' p y" if "(p, y) \<in> lodged s'" for p y
      by (rule lodges_self) (use that same(1) w(2) c ts(2) in \<open>auto simp: lodged_def\<close>)
    show "\<not> known (yM s) p" if "Unsettled j p \<in> set [tomb_label err i q]" for j p
    proof
      assume "known (yM s) p"
      then obtain w1 where "Manager_WriteTombstone i p (yM s) (yW s) = (None, w1)"
        using healthy_append_ok [OF h(1), of p "tombstone_record i"]
        by (auto simp: Manager_WriteTombstone_def WriteTombstone_def known_def)
      then show False using that w(1) by (auto simp: tomb_label_def split: option.splits)
    qed
  qed (use x same(4) entersI(1) [where s = s] in \<open>auto simp: tomb_label_def split: option.splits\<close>)
  show "serving s" if "serving s'" using that same w by (simp add: serving_def)
  have "present s \<subseteq> present s' \<union> {i}"
  proof (rule present_up)
    show "ID y \<in> present s' \<union> {i}" if "y \<in> carried s" for y
    proof -
      have "y \<in> carried s' \<or> ID y = i" using that
      proof (cases rule: carriedE)
        case (works t)
        then show ?thesis using ts(3) [of t] carriedI(3) [of t s'] by auto
      qed (use same w(2) carriedI(1,2) [where s = s'] in auto)
      then show ?thesis using present_carried by auto
    qed
    show "ID y \<in> present s' \<union> {i}" if "(p, y) \<in> set (yExp s)" for p y
      using ts(4) [OF that] present_exp [of p y s'] by auto
  qed (use same w(2) present_topic [of _ s'] presentI(2) [where s = s'] in auto)
  then show "present s \<union> accepted_ids [tomb_label err i q] \<subseteq> present s' \<union> settled [tomb_label err i q]" by simp
qed

lemma sound_remove:
  assumes h: "healthy (yM s) (yW s)" "enq_known s" and k: "known (yM s) q"
    and run: "expire_remove q cutoff (yM s) (yW s) = (removed, m, w)"
    and s': "s' = with_exp (map (Pair q) removed @ yExp s) (with_manager m w s)"
  shows "sound_step s [] s'"
  unfolding sound_step_def
proof (intro conjI impI)
  note e = healthy_remove [OF h(1) k run]
  show "sound_disk s [] s'"
    by (rule sound_diskI) (use e s' enq_knownD [OF h(2)] grows_refl in auto)
  show "sound_copies s [] s'"
  proof (rule sound_copiesI)
    show "lodges s s' p y" if "(p, y) \<in> lodged s'" for p y
      by (rule lodges_self) (use that s' e(6,7) in \<open>auto simp: lodged_def split: if_splits\<close>)
  qed (use s' entersI(1) [where s = s] in auto)
  show "serving s" if "serving s'" using that e s' by (simp add: serving_def)
  have "present s \<subseteq> present s' \<union> {}"
  proof (rule present_up)
    show "ID x \<in> present s' \<union> {}" if "x \<in> set (queued (yM s) p)" for p x
    proof (cases "p = q \<and> expired cutoff x")
      case True
      then have "(p, x) \<in> set (yExp s')" using that e(6) s' by auto
      then show ?thesis using present_exp by blast
    next
      case False
      then have "x \<in> set (queued (yM s') p)" using that e(7) [of p] s' by auto
      then show ?thesis using present_topic by blast
    qed
  qed (use s' present_carried [of _ s'] present_exp [of _ _ s'] presentI(2) [where s = s'] in auto)
  then show "present s \<union> accepted_ids [] \<subseteq> present s' \<union> settled []" by simp
qed

lemma sound_requeue:
  assumes h: "healthy (yM s) (yW s)" "enq_known s" and t: "yTasks s = ts @ TAct Refuse e # ts'"
    and s': "s' = with_enq (if mClosing (yM s) then yEnq s else EOpen ByNack (nack_target mr now (eMessage e)) # yEnq s)
      (with_tasks (ts @ ts') s)"
  shows "sound_step s [] s'"
  unfolding sound_step_def
proof (intro conjI impI)
  let ?t = "nack_target mr now (eMessage e)"
  have eq: "yM s' = yM s" "yW s' = yW s" "yExp s' = yExp s" using s' by simp_all
  show "sound_disk s [] s'"
    by (rule sound_diskI) (use h(1) eq s' enq_knownD [OF h(2)] grows_refl in \<open>auto split: if_splits\<close>)
  have c: "carried s' \<subseteq> carried s" using s' t by (auto simp: carried_def)
  have x: "(Queue (eMessage e), eMessage e) \<in> lodged s"
    using lodgedI(2) [OF carriedI(3)] t by (metis in_set_conv_decomp task_entry.simps(2))
  show "sound_copies s [] s'"
  proof (rule sound_copiesI)
    show "lodges s s' p y" if "(p, y) \<in> lodged s'" for p y
      by (rule lodges_self) (use that c eq in \<open>auto simp: lodged_def\<close>)
    show "enters s [] y" if "e' \<in> set (yEnq s')" "y \<in> enq_copy e'" for e' y
      using that s' entersI(1) [of e' s y] entersI(2) [OF x, of "[]" mr now] by (auto split: if_splits)
  qed simp_all
  assume sv: "serving s'"
  then show "serving s" using s' by (simp add: serving_def)
  have es: "yEnq s' = EOpen ByNack ?t # yEnq s" using sv s' by (simp add: serving_def)
  have "present s \<subseteq> present s' \<union> {}"
  proof (rule present_up)
    show "ID y \<in> present s' \<union> {}" if y: "y \<in> carried s" for y
    proof (cases "y = eMessage e")
      case True
      then show ?thesis using presentI(2) [of "EOpen ByNack ?t" s' ?t] es by simp
    next
      case False
      then have "y \<in> carried s'" using y t s' by (auto simp: carried_def)
      then show ?thesis using present_carried by blast
    qed
    show "ID y \<in> present s' \<union> {}" if "e' \<in> set (yEnq s)" "y \<in> enq_copy e'" for e' y
      using presentI(2) [of e' s' y] that es by simp
  qed (use eq present_topic [of _ s'] present_exp [of _ _ s'] in auto)
  then show "present s \<union> accepted_ids [] \<subseteq> present s' \<union> settled []" by simp
qed

lemma sound_shutdown:
  assumes h: "healthy (yM s) (yW s)" "enq_known s" and s': "s' = with_manager (BeginShutdown (yM s)) (yW s) s"
  shows "sound_step s [] s'"
  unfolding sound_step_def
proof (intro conjI impI)
  let ?m = "BeginShutdown (yM s)"
  have m: "known ?m = known (yM s)" "mWalDir ?m = mWalDir (yM s)" "queued ?m = queued (yM s)" "mClosing ?m"
    by (auto simp: BeginShutdown_def known_def queued_def)
  have "mgr_inv ?m" using healthyD(2) [OF h(1)] unfolding mgr_inv_def m(1) by (simp add: BeginShutdown_def)
  then have "healthy ?m (yW s)" using h(1) m unfolding healthy_def by simp
  then show "sound_disk s [] s'" by (intro sound_diskI) (use m s' enq_knownD [OF h(2)] grows_refl in auto)
  have "lodged s' = lodged s" using m s' by (simp add: lodged_def)
  then show "sound_copies s [] s'" by (intro sound_copiesI) (use lodges_self s' entersI(1) [where s = s] in auto)
qed (use s' in \<open>simp_all add: serving_def BeginShutdown_def\<close>)

subsection \<open>The dispatcher and the other steps\<close>

lemma carried_ran:
  "carried s = (\<Union>pc \<in> ran (sDisp (yServer s)). held pc) \<union> eMessage ` ran (bInFlight (yB s)) \<union>
     (\<lambda>t. eMessage (task_entry t)) ` set (yTasks s)"
  by (auto simp: carried_def ran_def)

text \<open>One dispatcher moves.\<close>

lemma carried_dispatch:
  assumes D: "sDisp (yServer s) q = Some pc"
    and s': "s' = s\<lparr>yServer := (yServer s)\<lparr>sBroker := b, sDisp := (sDisp (yServer s))(q \<mapsto> pc')\<rparr>\<rparr>"
  shows "y \<in> carried s' \<Longrightarrow> y \<in> carried s \<or> y \<in> held pc' \<or> (\<exists>i e. bInFlight b i = Some e \<and> y = eMessage e)"
    and "x \<in> carried s \<Longrightarrow> x \<in> carried s' \<or> x \<in> held pc \<or> (\<exists>i e. bInFlight (yB s) i = Some e \<and> x = eMessage e)"
    and "y \<in> held pc' \<Longrightarrow> y \<in> carried s'" "bInFlight b i = Some e \<Longrightarrow> eMessage e \<in> carried s'"
proof -
  show "y \<in> carried s' \<Longrightarrow> y \<in> carried s \<or> y \<in> held pc' \<or> (\<exists>i e. bInFlight b i = Some e \<and> y = eMessage e)"
    "y \<in> held pc' \<Longrightarrow> y \<in> carried s'" "bInFlight b i = Some e \<Longrightarrow> eMessage e \<in> carried s'"
    using s' by (auto simp: carried_def split: if_splits)
  assume "x \<in> carried s"
  then show "x \<in> carried s' \<or> x \<in> held pc \<or> (\<exists>i e. bInFlight (yB s) i = Some e \<and> x = eMessage e)"
  proof (cases rule: carriedE)
    case (holds p pc1)
    then show ?thesis using D s' carriedI(1) [of s' p pc1 x] by (cases "p = q") auto
  next
    case (works t)
    then show ?thesis using s' carriedI(3) [of t s'] by simp
  qed blast
qed

lemma sound_dispatch_quiet:
  assumes h: "healthy (yM s) (yW s)" "enq_known s" and D: "sDisp (yServer s) q = Some pc"
    and s': "s' = s\<lparr>yServer := (yServer s)\<lparr>sBroker := b, sDisp := (sDisp (yServer s))(q \<mapsto> pc')\<rparr>\<rparr>"
    and eq: "bManager b = yM s" "bWorld b = yW s"
    and down: "\<And>y. y \<in> held pc' \<Longrightarrow> y \<in> carried s"
      "\<And>i e. bInFlight b i = Some e \<Longrightarrow> \<exists>x \<in> carried s. same x (eMessage e)"
    and up: "\<And>x. \<not> yCtxDone s \<Longrightarrow> x \<in> held pc \<Longrightarrow> x \<in> held pc' \<or> (\<exists>i e. bInFlight b i = Some e \<and> ID (eMessage e) = ID x)"
      "\<And>i e. \<not> yCtxDone s \<Longrightarrow> bInFlight (yB s) i = Some e \<Longrightarrow> \<exists>e'. bInFlight b i = Some e' \<and> ID (eMessage e') = ID (eMessage e)"
  shows "sound_step s [] s'"
proof (rule sound_quiet [OF h])
  note c = carried_dispatch [OF D s']
  show "yM s' = yM s" "yW s' = yW s" "yEnq s' = yEnq s" "yExp s' = yExp s" "serving s' \<Longrightarrow> serving s"
    using eq s' by (simp_all add: serving_def)
  show "\<exists>x \<in> carried s. same x y" if "y \<in> carried s'" for y
    using c(1) [OF that] down same_refl by blast
  fix x assume "serving s'" and x: "x \<in> carried s"
  then have n: "\<not> yCtxDone s" using s' by (simp add: serving_def)
  from c(2) [OF x] show "ID x \<in> ID ` carried s'"
  proof (elim disjE exE conjE)
    assume "x \<in> held pc"
    with up(1) [OF n] c(3,4) show ?thesis by (metis imageI)
  next
    fix i e assume "bInFlight (yB s) i = Some e" "x = eMessage e"
    with up(2) [OF n] c(4) show ?thesis by (metis imageI)
  qed simp
qed

lemma sound_dequeue:
  assumes h: "healthy (yM s) (yW s)" "enq_known s" and D: "sDisp (yServer s) q = Some DDequeue"
    and run: "Run order now c pd q DDequeue (yB s) = (pc', b)"
    and s': "s' = s\<lparr>yServer := (yServer s)\<lparr>sBroker := b, sDisp := (sDisp (yServer s))(q \<mapsto> pc')\<rparr>\<rparr>"
  shows "sound_step s [] s'"
  unfolding sound_step_def
proof (intro conjI impI)
  obtain res m w where d: "Manager_Dequeue q (yM s) (yW s) = (res, m, w)" by (metis prod.exhaust)
  note e = healthy_Dequeue [OF h(1) d]
  have b: "b = (yB s)\<lparr>bManager := m, bWorld := w\<rparr>"
    and pc': "pc' = (case res of None \<Rightarrow> DDequeue | Some (x, ok) \<Rightarrow> if ok then DSelect x else DReturned)"
    using run d by (auto simp: Let_def split: option.splits)
  have ms: "yM s' = m" "yW s' = w" "yEnq s' = yEnq s" "yExp s' = yExp s" using s' b by simp_all
  have hp: "y \<in> held pc' \<longleftrightarrow> res = Some (y, True)" for y using pc' by (auto split: option.splits if_splits)
  note cd = carried_dispatch [OF D s']
  have cs: "y \<in> carried s' \<longleftrightarrow> y \<in> carried s \<or> res = Some (y, True)" for y
    using cd(1-3) [of y] hp [of y] cd(4) carriedI(2) [of s] b by auto
  show "sound_disk s [] s'"
  proof (rule sound_diskI)
    show "known (yM s') (Queue x)" if "en \<in> set (yEnq s')" "x \<in> past_open en" for en x
      using that ms e(6) enq_knownD [OF h(2)] by simp
    show "files (yW s) f \<noteq> None \<or> (\<exists>q. known (yM s') q \<and> f = qpath (yM s) q)" if "files (yW s') f \<noteq> None" for f
      using that ms e(7) e(8) [of f] by auto
  qed (use e ms grows_refl in auto)
  show "sound_copies s [] s'"
  proof (rule sound_copiesI)
    show "lodges s s' p y" if "(p, y) \<in> lodged s'" for p y
    proof (rule lodged_down [OF _ _ _ that])
      show "lodges s s' r x" if "x \<in> set (queued (yM s') r)" for r x
        using e(9) [of x r] that ms e(7) lodges_self [OF lodgedI(1), of x s r s'] lodgesI(3) [of s q s' x r] by auto
      show "lodges s s' (Queue x) x" if "x \<in> carried s'" for x
      proof (cases "x \<in> carried s")
        case True
        then show ?thesis using lodges_self [OF lodgedI(2)] by blast
      next
        case False
        then have "x \<in> set (queued (yM s) q) \<or> replays (yM s) (yW s) q \<and> tombstone_ok (ID x)" using that cs e(10) by blast
        then show ?thesis using lodgesI(1) [OF lodgedI(1) same_refl, of x s q "Queue x" s'] lodgesI(3) [of s q s' x] ms e(7) by auto
      qed
    qed (use ms lodges_self lodgedI in auto)
  qed (use ms entersI(1) [where s = s] in auto)
  show "serving s" if "serving s'" using that e(3) s' b by (simp add: serving_def)
  have "present s \<subseteq> present s' \<union> {}"
  proof (rule present_up)
    show "ID x \<in> present s' \<union> {}" if "x \<in> set (queued (yM s) p)" for p x
      using e(5) [OF that] ms cs [of x] present_topic [of x s' p] present_carried [of x s'] by auto
  qed (use ms cs present_carried [of _ s'] present_exp [of _ _ s'] presentI(2) [where s = s'] in auto)
  then show "present s \<union> accepted_ids [] \<subseteq> present s' \<union> settled []" by simp
qed

lemma sound_dispatch:
  assumes h: "healthy (yM s) (yW s)" "enq_known s" and inv: "ack_inv (yB s)" and D: "sDisp (yServer s) q = Some pc"
    and run: "Run order now (yCtxDone s) pd q pc (yB s) = (pc', b)"
    and s': "s' = s\<lparr>yServer := (yServer s)\<lparr>sBroker := b, sDisp := (sDisp (yServer s))(q \<mapsto> pc')\<rparr>\<rparr>"
  shows "sound_step s [] s'"
proof (cases "pc = DDequeue")
  case True
  then show ?thesis using sound_dequeue [OF h _ _ s'] D run by blast
next
  case False
  have st: "\<exists>y \<in> carried s. same y (stamp now x)" if "x \<in> held pc" for x
    by (rule bexI [OF _ carriedI(1) [OF D that]]) (simp add: same_def stamp_def)
  have fl: "\<exists>x \<in> carried s. same x (eMessage e)" if "bInFlight (yB s) i = Some e" for i e
    using carriedI(2) [OF that] same_refl by blast
  show ?thesis
  proof (rule sound_dispatch_quiet [OF h D s'])
    show "bManager b = yM s" "bWorld b = yW s"
      using run False by (cases pc; auto simp: Let_def chan_push_def Unregister_def drop_entry_def split: if_splits option.splits)+
    show "y \<in> carried s" if "y \<in> held pc'" for y
      using that run False carriedI(1) [OF D, of y] by (cases pc) (auto simp: Let_def split: if_splits)
    show "\<exists>x \<in> carried s. same x (eMessage e)" if "bInFlight b i = Some e" for i e
    proof (cases "bInFlight (yB s) i = Some e")
      case True
      then show ?thesis by (rule fl)
    next
      case n: False
      then have "\<exists>x \<in> held pc. eMessage e = stamp now x" using that run False
        by (cases pc) (auto simp: Let_def chan_push_def Unregister_def drop_entry_def split: if_splits option.splits)
      then show ?thesis using st by auto
    qed
    show "x \<in> held pc' \<or> (\<exists>i e. bInFlight b i = Some e \<and> ID (eMessage e) = ID x)" if "\<not> yCtxDone s" "x \<in> held pc" for x
      using that run by (cases pc) (auto simp: Let_def stamp_def split: if_splits)
    show "\<exists>e'. bInFlight b i = Some e' \<and> ID (eMessage e') = ID (eMessage e)"
      if "\<not> yCtxDone s" "bInFlight (yB s) i = Some e" for i e
      using that run False ack_invD [OF inv that(2)]
      by (cases pc) (auto simp: Let_def stamp_def chan_push_def split: if_splits option.splits)
  qed
qed

lemma sound_collect:
  assumes h: "healthy (yM s) (yW s)" "enq_known s"
    and ord: "range_order order (bInFlight (yB s))" and c: "collect_entries P order [] (yB s) = (es, b)"
  shows "sound_step s [] (with_tasks (map (TDec a) es @ yTasks s) (with_broker b s))" (is "sound_step s [] ?s'")
proof (rule sound_same [OF h])
  note all = collect_entries_all [OF ord c]
  show "yM ?s' = yM s" "yW ?s' = yW s" "yEnq ?s' = yEnq s" "yExp ?s' = yExp s" "serving ?s' \<Longrightarrow> serving s"
    using all(1) by (simp_all add: serving_def)
  have "bInFlight b i = Some e \<longleftrightarrow> bInFlight (yB s) i = Some e \<and> \<not> P e" for i e
    unfolding all(1) by (auto simp: keep_entries_def split: option.splits if_splits)
  then have "ran (bInFlight (yB s)) = ran (bInFlight b) \<union> set es" unfolding all(3) by (auto simp: ran_def)
  then show "carried ?s' = carried s" by (simp add: carried_ran image_Un image_image Un_ac)
qed

lemma sound_take:
  assumes h: "healthy (yM s) (yW s)" "enq_known s" and e: "bInFlight (yB s) i = Some e"
  shows "sound_step s [] (with_tasks (TDec a e # yTasks s) (with_broker (drop_entry i (yB s)) s))" (is "sound_step s [] ?s'")
proof (rule sound_same [OF h])
  have "ran (bInFlight (yB s)) = insert e (ran ((bInFlight (yB s))(i := None)))"
    using ran_map_upd [of "(bInFlight (yB s))(i := None)" i e] e by (simp add: fun_upd_idem)
  then show "carried ?s' = carried s" by (auto simp: carried_ran)
qed (simp_all add: serving_def)

lemma sound_subscribe:
  assumes h: "healthy (yM s) (yW s)" "enq_known s" and inv: "dom (sDisp (yServer s)) = sStarted (yServer s)"
    and run: "Subscribe_open first (Some rnd) now ref (yServer s) = (Inr c, sv)"
  shows "sound_step s [] (s\<lparr>yServer := sv\<rparr>)" (is "sound_step s [] ?s'")
proof (rule sound_same [OF h])
  let ?b = "(yB s)\<lparr>bConsumers := (bConsumers (yB s))(ref \<mapsto> c), bRegistry := Registry_Register ref c (bRegistry (yB s))\<rparr>"
  have "sv = ensureDispatcher (cQueue c) ((yServer s)\<lparr>sBroker := ?b\<rparr>)" using run by (rule Subscribe_open_ok)
  then have sv: "sBroker sv = ?b" "sDisp sv = sDisp (yServer s) \<or>
      sDisp sv = (sDisp (yServer s))(cQueue c \<mapsto> DDequeue) \<and> sDisp (yServer s) (cQueue c) = None"
    using inv by (auto simp: ensureDispatcher_def)
  then show "yM ?s' = yM s" "yW ?s' = yW s" "yEnq ?s' = yEnq s" "yExp ?s' = yExp s" "serving ?s' \<Longrightarrow> serving s"
    by (simp_all add: serving_def)
  have "(\<Union>pc \<in> ran (sDisp sv). held pc) = (\<Union>pc \<in> ran (sDisp (yServer s)). held pc)"
    using sv(2) by (auto simp: ran_map_upd)
  then show "carried ?s' = carried s" using sv(1) by (simp add: carried_ran)
qed

lemma sys_inv_ack: "sys_inv s \<Longrightarrow> ack_inv (yB s)"
  using shapeD(3) by (auto simp: sys_inv_def)

lemma sys_step_sound:
  assumes "sys_step s ls s'" "sys_inv s" "healthy (yM s) (yW s)" "enq_known s" "\<forall>i \<in> present s. tombstone_ok i"
    "\<forall>x \<in> logged ls. message_ok x"
  shows "sound_step s ls s'"
  using assms
proof (induction rule: sys_step.induct)
  case (publish s rnd now req)
  let ?e = "EOpen ByPublish (published (hex_EncodeToString rnd) now req)"
  have "present (with_enq (?e # yEnq s) s) = present s" "lodged (with_enq (?e # yEnq s) s) = lodged s"
    by (simp_all add: present_def lodged_def)
  with publish show ?case unfolding sound_step_def
    by (intro conjI sound_diskI sound_copiesI)
      (auto simp: serving_def grows_refl lodges_self intro: entersI(1) enq_knownD split: if_splits)
next
  case (enq_open s es c msg es' err m w)
  have "err = None" using healthy_initQueue [OF enq_open(4,2)] by simp
  then show ?case by (intro sound_open [OF enq_open(4,5,2)]) (use enq_open(1) in \<open>auto split: if_splits\<close>)
next
  case (enq_write s es c msg es' err w)
  from sound_write [OF enq_write(4,5,1,2) refl enq_write(7) refl] show ?case .
next
  case (enq_push s es msg es')
  from sound_push [OF enq_push(3,4,1) refl] show ?case .
next
  case (subscribe first rnd now ref s c sv)
  then show ?case using sound_subscribe [OF _ _ _ subscribe(1)] by (simp add: sys_inv_def)
next
  case (open_queue s q m w)
  from sound_open [OF open_queue(4,5,2), of "with_manager m w s" "yEnq s"] show ?case by auto
next
  case (dispatch s q pc order now pd pc' b)
  then show ?case using sound_dispatch [OF _ _ sys_inv_ack dispatch(1,3) refl] by simp
next
  case (receive ref s msg b)
  note f = chan_pop_frame [OF receive(1)]
  show ?case by (rule sound_same [OF receive(3,4)]) (use f in \<open>simp_all add: serving_def carried_def\<close>)
next
  case (take_entry s i e a)
  then show ?case using sound_take by simp
next
  case (deregister s k)
  then show ?case by (intro sound_same) (simp_all add: serving_def carried_def Subscribe_deregister_def)
next
  case (timeout_scan order s d now es b)
  then show ?case using sound_collect [OF _ _ timeout_scan(1,2)] by simp
next
  case (expiry_scan order s cutoff es b)
  then show ?case using sound_collect [OF _ _ expiry_scan(1,2)] by simp
next
  case (expire_topic_step q s cutoff removed m w)
  have "known (yM s) q" using mgr_invD [OF healthyD(2) [OF expire_topic_step(5)], of q] expire_topic_step(2) by blast
  from sound_remove [OF expire_topic_step(5,6) this expire_topic_step(3) refl] show ?case .
next
  case (expire_tombstone s xs q x xs' err b)
  have x: "(q, x) \<in> lodged s" using expire_tombstone(1) lodgedI(3) [of "(q, x)" s] by simp
  then have "tombstone_ok (ID x)" using expire_tombstone(6) presentI(1) by blast
  then show ?case by (rule sound_tombstone [OF expire_tombstone(4,5,2) x refl]) (use expire_tombstone(1) in auto)
next
  case (decrement s ts a e ts')
  show ?case by (rule sound_same [OF decrement(3,4)]) (use decrement(1) in \<open>simp_all add: serving_def carried_def\<close>)
next
  case (tombstone s ts e ts' err b)
  have x: "(Queue (eMessage e), eMessage e) \<in> lodged s"
    using lodgedI(2) [OF carriedI(3) [of "TAct Settle e" s]] tombstone(1) by simp
  then have "tombstone_ok (ID (eMessage e))" using tombstone(6) presentI(1) by blast
  then show ?case by (rule sound_tombstone [OF tombstone(4,5,2) x refl]) (use tombstone(1) in auto)
next
  case (requeue s ts e ts' now)
  from sound_requeue [OF requeue(3,4,1) refl] show ?case .
next
  case (shutdown s)
  then show ?case using sound_shutdown by simp
next
  case (cancel s)
  then show ?case by (intro sound_same) (simp_all add: serving_def carried_def)
qed

end
