(* ===== verification/Durability.thy ===== *)
theory Durability
  imports DurableSteps
begin

text \<open>
  Invariants of every run on a disk without faults, from a restart on intact logs: what the logs
  hold (\<open>durable\<close>) and where the copies of one message are (\<open>kept\<close>), and the properties of whole
  runs that follow.
\<close>

subsection \<open>Runs from a restart\<close>

definition intact_dir :: "string \<Rightarrow> world \<Rightarrow> bool" where
  "intact_dir dir w \<longleftrightarrow> faults w = [] \<and>
     (\<forall>q data. files w (wal_path dir q) = Some data \<longrightarrow> (\<exists>rs. data = log_of frame rs \<and> (\<forall>r \<in> set rs. encodable r)))"

definition listing :: "string \<Rightarrow> (string \<times> bool) list \<Rightarrow> world \<Rightarrow> bool" where
  "listing dir entries w \<longleftrightarrow> (\<forall>q. (q @ ''.wal'', False) \<in> set entries \<longrightarrow> files w (wal_path dir q) \<noteq> None)"

lemma healthy_intact: "healthy m w \<Longrightarrow> intact_dir (mWalDir m) w"
  unfolding healthy_def intact_dir_def by blast

lemma restart_healthy:
  assumes dir: "intact_dir dir w" and ents: "listing dir entries w"
  obtains m where "NewManager dir entries w = (Inr m, w)" "healthy m w" "mWalDir m = dir" "\<not> mClosing m"
    "\<And>q x. x \<in> set (queued m q) \<Longrightarrow> tombstone_ok (ID x)"
    "\<And>q. queued m q = (if (q @ ''.wal'', False) \<in> set entries then live_messages (disk_records w (wal_path dir q)) else [])"
    "\<And>q. known m q \<longleftrightarrow> (q @ ''.wal'', False) \<in> set entries"
proof -
  let ?R = "\<lambda>q. disk_records w (wal_path dir q)"
  have f: "faults w = []" using dir by (simp add: intact_dir_def)
  have logs: "files w (wal_path dir q) = Some (log_of frame (?R q)) \<and> (\<forall>r \<in> set (?R q). encodable r)"
    if "q \<in> wal_queues entries" for q
  proof -
    have "files w (wal_path dir q) \<noteq> None" using ents that by (auto simp: listing_def wal_queues_def)
    then obtain rs where rs: "files w (wal_path dir q) = Some (log_of frame rs)" "\<forall>r \<in> set rs. encodable r"
      using dir unfolding intact_dir_def by blast
    with disk_records_log [OF rs] show ?thesis by simp
  qed
  then have wl: "\<exists>data. files w (wal_path dir q) = Some data \<and> wal_log (?R q) data" if "q \<in> wal_queues entries" for q
    using wal_logI that by blast
  obtain m where m: "NewManager dir entries w = (Inr m, w)" "mWalDir m = dir" "\<not> mClosing m"
    "\<And>q. mTopics m q = (if q \<in> wal_queues entries then Some (restored (?R q)) else None)"
    "\<And>q. mWriters m q = (if q \<in> wal_queues entries then Some (open_writer dir q) else None)"
    using NewManager_ok [OF f wl] by blast
  have k: "known m q \<longleftrightarrow> q \<in> wal_queues entries" for q using m(2,4,5) by (auto simp: known_def)
  have "mgr_inv m" by (rule mgr_invI) (auto simp: k m(4,5) split: if_splits)
  then have h: "healthy m w" using dir logs k m(2) by (auto simp: healthy_def intact_dir_def)
  have q: "queued m q = (if q \<in> wal_queues entries then live_messages (?R q) else [])" for q
    using m(4) by (simp add: queued_def)
  have "tombstone_ok (ID x)" if "x \<in> set (queued m q)" for q x
    using that logs [of q] live_tombstone_ok [of "?R q" x] by (auto simp: q split: if_splits)
  with m h q k show ?thesis by (intro that [of m]) (simp_all add: wal_queues_def)
qed

definition durable :: "string \<Rightarrow> (string \<Rightarrow> wal_record list) \<Rightarrow> MessageID set \<Rightarrow> label list \<Rightarrow> System \<Rightarrow> bool" where
  "durable dir d0 P0 ls s \<longleftrightarrow>
     ((\<forall>x \<in> logged ls. message_ok x) \<longrightarrow>
        sys_inv s \<and> healthy (yM s) (yW s) \<and> mWalDir (yM s) = dir \<and> enq_known s \<and> (\<forall>i \<in> present s. tombstone_ok i) \<and>
        grows dir ls d0 (disk_records (yW s)) \<and>
        (serving s \<longrightarrow> P0 \<union> accepted_ids ls \<subseteq> present s \<union> settled ls))"

lemma durableD:
  assumes "durable dir d0 P0 ls s" "\<forall>x \<in> logged ls. message_ok x"
  shows "healthy (yM s) (yW s)" "mWalDir (yM s) = dir" "grows dir ls d0 (disk_records (yW s))"
    "serving s \<Longrightarrow> P0 \<union> accepted_ids ls \<subseteq> present s \<union> settled ls"
    "sys_inv s" "enq_known s" "\<forall>i \<in> present s. tombstone_ok i"
  using assms unfolding durable_def by auto

lemma lodgesE:
  assumes "lodges s s' q y"
  obtains (stays) p x where "(p, x) \<in> lodged s" "same x y" "q = p \<or> q = Queue y"
    | (pushed) "EPush y \<in> set (yEnq s)" "q = Queue y"
    | (replay) p where "replays (yM s) (yW s) p" "known (yM s') p" "tombstone_ok (ID y)"
  using assms unfolding lodges_def by blast

lemma entersE:
  assumes "enters s ls y"
  obtains (stays) e where "e \<in> set (yEnq s)" "y \<in> enq_copy e"
    | (refused) p x mr now where "(p, x) \<in> lodged s" "y = nack_target mr now x"
    | (published) "Accepted y \<in> set ls"
  using assms unfolding enters_def by blast

lemma sound_tombstone_ok:
  assumes "sound_step s ls s'" "\<forall>i \<in> present s. tombstone_ok i" "\<forall>x \<in> logged ls. message_ok x" "i \<in> present s'"
  shows "tombstone_ok i"
  using assms(4)
proof (cases rule: presentE)
  case (lodges q y)
  then have "lodges s s' q y" using assms(1) by (auto simp: sound_step_def sound_copies_def)
  then show ?thesis
  proof (cases rule: lodgesE)
    case (stays p x)
    then show ?thesis using assms(2) presentI(1) [of p x s] lodges(2) by (auto simp: same_def)
  next
    case pushed
    then show ?thesis using assms(2) presentI(2) [of "EPush y" s y] lodges(2) by auto
  qed (use lodges(2) in simp)
next
  case (enqueues e y)
  then have "enters s ls y" using assms(1) by (auto simp: sound_step_def sound_copies_def)
  then show ?thesis
  proof (cases rule: entersE)
    case (stays e')
    then show ?thesis using assms(2) presentI(2) [of e' s y] enqueues(3) by auto
  next
    case (refused p x mr now)
    then show ?thesis using assms(2) presentI(1) [of p x s] enqueues(3) by auto
  next
    case published
    then show ?thesis using assms(3) message_tombstone_ok [of y] enqueues(3) by (auto simp: logged_def)
  qed
qed

lemma durable_sound:
  assumes "durable dir d0 P0 ls s" "sys_step s ls' s'" "\<forall>x \<in> logged (ls @ ls'). message_ok x"
  shows "sound_step s ls' s'"
proof -
  have "\<forall>x \<in> logged ls. message_ok x" "\<forall>x \<in> logged ls'. message_ok x" using assms(3) by auto
  then show ?thesis using sys_step_sound [OF assms(2)] durableD [OF assms(1)] by blast
qed

lemma durable_step:
  assumes "durable dir d0 P0 ls s" "sys_step s ls' s'"
  shows "durable dir d0 P0 (ls @ ls') s'"
  unfolding durable_def
proof
  assume ok: "\<forall>x \<in> logged (ls @ ls'). message_ok x"
  then have d: "sys_inv s" "mWalDir (yM s) = dir" "\<forall>i \<in> present s. tombstone_ok i"
    "grows dir ls d0 (disk_records (yW s))" "serving s \<Longrightarrow> P0 \<union> accepted_ids ls \<subseteq> present s \<union> settled ls"
    using durableD [OF assms(1)] by auto
  note st = durable_sound [OF assms ok]
  then have s': "healthy (yM s') (yW s')" "mWalDir (yM s') = dir" "enq_known s'"
    "grows dir ls' (disk_records (yW s)) (disk_records (yW s'))"
    "serving s' \<Longrightarrow> serving s \<and> present s \<union> accepted_ids ls' \<subseteq> present s' \<union> settled ls'"
    using d(2) unfolding sound_step_def sound_disk_def by auto
  show "sys_inv s' \<and> healthy (yM s') (yW s') \<and> mWalDir (yM s') = dir \<and> enq_known s' \<and> (\<forall>i \<in> present s'. tombstone_ok i) \<and>
        grows dir (ls @ ls') d0 (disk_records (yW s')) \<and>
        (serving s' \<longrightarrow> P0 \<union> accepted_ids (ls @ ls') \<subseteq> present s' \<union> settled (ls @ ls'))"
  proof (intro conjI impI)
    show "sys_inv s'" using sys_inv_step [OF assms(2) d(1)] .
    show "\<forall>i \<in> present s'. tombstone_ok i" using sound_tombstone_ok [OF st d(3)] ok by auto
    show "grows dir (ls @ ls') d0 (disk_records (yW s'))" using grows_trans d(4) s'(4) by blast
    show "P0 \<union> accepted_ids (ls @ ls') \<subseteq> present s' \<union> settled (ls @ ls')" if "serving s'"
      using s'(5) [OF that] d(5) by auto
  qed (use s' in auto)
qed

interpretation dur: trace_invariant sys_step "durable dir d0 P0" for dir d0 P0
  by unfold_locales (rule durable_step)

lemma lodged_init: "lodged (init_system w m mr) = {(q, x). x \<in> set (queued m q)}"
  by (simp add: lodged_def carried_def init_system_def NewAckManager_def)

lemma durable_start:
  assumes "healthy m w" "\<And>q x. x \<in> set (queued m q) \<Longrightarrow> tombstone_ok (ID x)"
  shows "durable (mWalDir m) (disk_records w) (waiting m) [] (init_system w m mr)"
proof -
  have "present (init_system w m mr) = waiting m"
    unfolding present_def lodged_init by (force simp: init_system_def waiting_def)
  with assms sys_inv_init show ?thesis
    by (auto simp: durable_def init_system_def NewAckManager_def grows_refl waiting_iff enq_known_def)
qed

lemma restart_runs:
  assumes "intact_dir dir w" "listing dir entries w" "NewManager dir entries w = (Inr m, w')"
    and "runs (init_system w' m mr) ls s"
  shows "durable dir (disk_records w) (waiting m) ls s" "w' = w"
proof -
  obtain m1 where m1: "NewManager dir entries w = (Inr m1, w)" "healthy m1 w" "mWalDir m1 = dir"
    "\<And>q x. x \<in> set (queued m1 q) \<Longrightarrow> tombstone_ok (ID x)"
    using restart_healthy [OF assms(1,2)] by metis
  then have eq: "m = m1" "w' = w" using assms(3) by simp_all
  show "w' = w" by (rule eq(2))
  show "durable dir (disk_records w) (waiting m) ls s"
    using dur.trace_I [OF assms(4)] durable_start [OF m1(2,4)] m1(3) eq by simp
qed

lemma live_messages_mem:
  assumes "message_record x \<in> set rs" "ID x \<notin> tombs_of rs"
  shows "replayed x \<in> set (live_messages rs)"
proof -
  have "replayed x \<in> set (messages_of rs)" using assms(1)
  proof (induction rs)
    case (Cons r rs)
    have "messages_of [message_record x] = [replayed x]"
      using live_messages_messages [of "[x]"] by (simp add: live_messages_def filter_eq_Cons_iff)
    with Cons messages_of_append [of "[r]" rs] show ?case by (auto simp del: messages_of.simps)
  qed simp
  then show ?thesis using assms(2) by (simp add: live_messages_def replayed_def)
qed

lemma disk_records_none: "files w p = None \<Longrightarrow> disk_records w p = []"
  by (simp add: disk_records_def)

subsection \<open>The copies of one message\<close>

text \<open>A dead-letter name over another: refusals append the suffix, once for every time the retries are
  used up.\<close>

definition lineage :: "string \<Rightarrow> string \<Rightarrow> bool" where
  "lineage q q' \<longleftrightarrow> (\<exists>n. q' = q @ concat (replicate n DLQSuffix))"

lemma lineage_refl [simp]: "lineage q q"
  unfolding lineage_def by (rule exI [of _ 0]) simp

lemma lineage_dlq: "lineage q q' \<Longrightarrow> lineage q (q' @ DLQSuffix)"
proof -
  have "concat (replicate n DLQSuffix) @ DLQSuffix = concat (replicate (Suc n) DLQSuffix)" for n
    by (induction n) simp_all
  then show "lineage q q' \<Longrightarrow> lineage q (q' @ DLQSuffix)" unfolding lineage_def by (metis append.assoc)
qed

definition kin :: "Message \<Rightarrow> Message \<Rightarrow> bool" where
  "kin x y \<longleftrightarrow> ID y = ID x \<and> Payload y = Payload x \<and> Headers y = Headers x \<and> lineage (Queue x) (Queue y)"

lemma kin_same: "kin x y \<Longrightarrow> same y z \<Longrightarrow> kin x z"
  by (simp add: kin_def same_def)

lemma kin_nack: "kin x y \<Longrightarrow> kin x (nack_target mr now y)"
  using lineage_dlq by (simp add: kin_def nack_target_def)

text \<open>The messages that a run accepted, in order; and that one message is the only one with its
  identifier among those restored at the start and accepted since.\<close>

fun accepted :: "label list \<Rightarrow> Message list" where
  "accepted [] = []"
| "accepted (Accepted x # ls) = x # accepted ls"
| "accepted (_ # ls) = accepted ls"

lemma set_accepted: "set (accepted ls) = {x. Accepted x \<in> set ls}"
  by (induction ls rule: accepted.induct) auto

definition sole_origin :: "Manager \<Rightarrow> label list \<Rightarrow> Message \<Rightarrow> bool" where
  "sole_origin m ls x \<longleftrightarrow> (\<forall>q. q \<noteq> Queue x \<longrightarrow> ID x \<notin> ID ` set (queued m q)) \<and>
     filter (\<lambda>y. ID y = ID x) (queued m (Queue x) @ accepted ls) = [x]"

lemma sole_originD:
  assumes "sole_origin m ls x"
  shows "y \<in> set (queued m q) \<Longrightarrow> ID y = ID x \<Longrightarrow> y = x \<and> q = Queue x"
    and "Accepted y \<in> set ls \<Longrightarrow> ID y = ID x \<Longrightarrow> y = x"
    and "x \<in> set (queued m (Queue x)) \<or> Accepted x \<in> set ls"
proof -
  have "set (filter (\<lambda>y. ID y = ID x) (queued m (Queue x) @ accepted ls)) = {x}"
    using assms by (simp add: sole_origin_def)
  then have f: "y \<in> set (queued m (Queue x)) \<or> Accepted y \<in> set ls \<Longrightarrow> ID y = ID x \<Longrightarrow> y = x"
    "x \<in> set (queued m (Queue x)) \<or> Accepted x \<in> set ls" for y
    unfolding set_filter set_append set_accepted by blast+
  then show "Accepted y \<in> set ls \<Longrightarrow> ID y = ID x \<Longrightarrow> y = x" "x \<in> set (queued m (Queue x)) \<or> Accepted x \<in> set ls" by blast+
  have "\<forall>q. q \<noteq> Queue x \<longrightarrow> ID x \<notin> ID ` set (queued m q)" using assms by (simp add: sole_origin_def)
  then show "y \<in> set (queued m q) \<Longrightarrow> ID y = ID x \<Longrightarrow> y = x \<and> q = Queue x" using f(1) by (metis imageI)
qed

text \<open>As long as no two names in use share a file, every file belongs to a name in use, every copy of
  the message is in a queue of its lineage that is in use, and only there is it settled.\<close>

definition one_file_each :: "string \<Rightarrow> System \<Rightarrow> bool" where
  "one_file_each dir s \<longleftrightarrow> inj_on (wal_path dir) {q. known (yM s) q}"

definition kept :: "string \<Rightarrow> Message \<Rightarrow> label list \<Rightarrow> System \<Rightarrow> bool" where
  "kept dir x ls s \<longleftrightarrow>
     (\<forall>q. files (yW s) (wal_path dir q) \<noteq> None \<longrightarrow> (\<exists>q'. known (yM s) q' \<and> wal_path dir q' = wal_path dir q)) \<and>
     (\<forall>q y. (q, y) \<in> lodged s \<longrightarrow> ID y = ID x \<longrightarrow> q = Queue y \<and> kin x y \<and> known (yM s) q) \<and>
     (\<forall>e \<in> set (yEnq s). \<forall>y \<in> enq_copy e. ID y = ID x \<longrightarrow> kin x y) \<and>
     (\<forall>q. Settled (ID x) q \<in> set ls \<longrightarrow> lineage (Queue x) q) \<and> (\<forall>q. Unsettled (ID x) q \<notin> set ls)"

lemma keptD:
  assumes "kept dir x ls s"
  shows "files (yW s) (wal_path dir q) \<noteq> None \<Longrightarrow> \<exists>q'. known (yM s) q' \<and> wal_path dir q' = wal_path dir q"
    and "(q, y) \<in> lodged s \<Longrightarrow> ID y = ID x \<Longrightarrow> q = Queue y \<and> kin x y \<and> known (yM s) q"
    and "e \<in> set (yEnq s) \<Longrightarrow> y \<in> enq_copy e \<Longrightarrow> ID y = ID x \<Longrightarrow> kin x y"
    and "Settled (ID x) q \<in> set ls \<Longrightarrow> lineage (Queue x) q" "Unsettled (ID x) q \<notin> set ls"
  using assms unfolding kept_def by blast+

lemma kept_no_replay:
  assumes "kept dir x ls s" "mWalDir (yM s) = dir" "one_file_each dir s'" "\<And>q. known (yM s) q \<Longrightarrow> known (yM s') q"
    and "replays (yM s) (yW s) p" "known (yM s') p"
  shows False
proof -
  obtain q where q: "known (yM s) q" "wal_path dir q = wal_path dir p"
    using assms(5) keptD(1) [OF assms(1), of p] assms(2) by (auto simp: replays_def)
  then have "q = p" using assms(3,4,6) by (auto simp: one_file_each_def inj_on_def)
  then show False using q(1) assms(5) by (simp add: replays_def)
qed

lemma kept_step:
  assumes k: "kept dir x ls s" and dir: "mWalDir (yM s) = dir" and ek: "enq_known s" and st: "sound_step s ls' s'"
    and one: "one_file_each dir s'" and only: "\<And>y. Accepted y \<in> set ls' \<Longrightarrow> ID y = ID x \<Longrightarrow> y = x"
  shows "kept dir x (ls @ ls') s'"
proof -
  have km: "known (yM s) q \<Longrightarrow> known (yM s') q" for q using st by (simp add: sound_step_def sound_disk_def)
  have fl: "files (yW s') f \<noteq> None \<Longrightarrow> files (yW s) f \<noteq> None \<or> (\<exists>q. known (yM s') q \<and> f = wal_path dir q)" for f
    using st dir by (auto simp: sound_step_def sound_disk_def)
  have lab: "Settled i q \<in> set ls' \<or> Unsettled i q \<in> set ls' \<Longrightarrow> \<exists>y. (q, y) \<in> lodged s \<and> ID y = i"
    "Unsettled i q \<in> set ls' \<Longrightarrow> \<not> known (yM s) q" for i q
    using st unfolding sound_step_def sound_copies_def by blast+
  have lod: "q = Queue y \<and> kin x y \<and> known (yM s') q" if "(q, y) \<in> lodged s'" "ID y = ID x" for q y
  proof -
    have "lodges s s' q y" using st that(1) by (simp add: sound_step_def sound_copies_def)
    then show ?thesis
    proof (cases rule: lodgesE)
      case (stays p z)
      then have "p = Queue z \<and> kin x z \<and> known (yM s) p" using keptD(2) [OF k] that(2) by (simp add: same_def)
      then show ?thesis using stays kin_same km by (auto simp: same_def)
    next
      case pushed
      then have "known (yM s) (Queue y)" "kin x y" using enq_knownD [OF ek, of "EPush y" y] keptD(3) [OF k, of "EPush y" y] that(2) by simp_all
      then show ?thesis using pushed(2) km by simp
    next
      case (replay p)
      then show ?thesis using kept_no_replay [OF k dir one km] by blast
    qed
  qed
  have enq: "kin x y" if "e \<in> set (yEnq s')" "y \<in> enq_copy e" "ID y = ID x" for e y
  proof -
    have "enters s ls' y" using st that(1,2) by (auto simp: sound_step_def sound_copies_def)
    then show ?thesis
    proof (cases rule: entersE)
      case (refused p z mr now)
      then show ?thesis using keptD(2) [OF k, of p z] that(3) kin_nack by auto
    next
      case published
      then show ?thesis using only [of y] that(3) by (simp add: kin_def)
    qed (use keptD(3) [OF k] that(3) in blast)
  qed
  show ?thesis unfolding kept_def
  proof (intro conjI allI impI ballI)
    show "\<exists>q'. known (yM s') q' \<and> wal_path dir q' = wal_path dir q" if "files (yW s') (wal_path dir q) \<noteq> None" for q
      using fl [OF that] keptD(1) [OF k, of q] km by metis
    show "lineage (Queue x) q" if l: "Settled (ID x) q \<in> set (ls @ ls')" for q
    proof (cases "Settled (ID x) q \<in> set ls")
      case False
      then obtain y where "(q, y) \<in> lodged s" "ID y = ID x" using l lab(1) by auto
      then show ?thesis using keptD(2) [OF k] by (auto simp: kin_def)
    qed (rule keptD(4) [OF k])
    show "Unsettled (ID x) q \<notin> set (ls @ ls')" for q
    proof
      assume "Unsettled (ID x) q \<in> set (ls @ ls')"
      then have u: "Unsettled (ID x) q \<in> set ls'" using keptD(5) [OF k] by simp
      then obtain y where "(q, y) \<in> lodged s" "ID y = ID x" using lab(1) by blast
      then show False using keptD(2) [OF k] lab(2) [OF u] by blast
    qed
  qed (use lod enq in blast)+
qed

text \<open>Both invariants along a run.\<close>

definition tracked :: "string \<Rightarrow> (string \<Rightarrow> wal_record list) \<Rightarrow> MessageID set \<Rightarrow> Message \<Rightarrow> label list \<Rightarrow> System \<Rightarrow> bool" where
  "tracked dir d0 P0 x ls s \<longleftrightarrow> durable dir d0 P0 ls s \<and>
     ((\<forall>y \<in> logged ls. message_ok y) \<longrightarrow> (\<forall>y. Accepted y \<in> set ls \<longrightarrow> ID y = ID x \<longrightarrow> y = x) \<longrightarrow> one_file_each dir s \<longrightarrow>
        kept dir x ls s)"

interpretation track: trace_invariant sys_step "tracked dir d0 P0 x" for dir d0 P0 x
proof
  fix ls s ls' s' assume I: "tracked dir d0 P0 x ls s" and st: "sys_step s ls' s'"
  then have d: "durable dir d0 P0 ls s" by (simp add: tracked_def)
  have "kept dir x (ls @ ls') s'"
    if ok: "\<forall>y \<in> logged (ls @ ls'). message_ok y" and only: "\<forall>y. Accepted y \<in> set (ls @ ls') \<longrightarrow> ID y = ID x \<longrightarrow> y = x"
      and one: "one_file_each dir s'"
  proof -
    note so = durable_sound [OF d st ok]
    have "{q. known (yM s) q} \<subseteq> {q. known (yM s') q}" using so by (auto simp: sound_step_def sound_disk_def)
    then have "one_file_each dir s" using one inj_on_subset unfolding one_file_each_def by blast
    then have k: "kept dir x ls s" using I ok only by (simp add: tracked_def)
    have l: "\<forall>y \<in> logged ls. message_ok y" using ok by simp
    show ?thesis by (rule kept_step [OF k durableD(2,6) [OF d l] so one]) (use only in simp)
  qed
  then show "tracked dir d0 P0 x (ls @ ls') s'" unfolding tracked_def using durable_step [OF d st] by blast
qed

text \<open>A directory listing that has every log of the directory.\<close>

definition full_listing :: "string \<Rightarrow> (string \<times> bool) list \<Rightarrow> world \<Rightarrow> bool" where
  "full_listing dir entries w \<longleftrightarrow> listing dir entries w \<and>
     (\<forall>q. files w (wal_path dir q) \<noteq> None \<longrightarrow> (\<exists>q'. (q' @ ''.wal'', False) \<in> set entries \<and> wal_path dir q' = wal_path dir q))"

lemma restart_tracked:
  assumes "intact_dir dir w" "full_listing dir entries w" "NewManager dir entries w = (Inr m, w')"
    and "runs (init_system w' m mr) ls s" "\<And>q y. y \<in> set (queued m q) \<Longrightarrow> ID y = ID x \<Longrightarrow> y = x \<and> q = Queue x"
  shows "tracked dir (disk_records w) (waiting m) x ls s"
proof -
  have l: "listing dir entries w" using assms(2) by (simp add: full_listing_def)
  obtain m1 where m1: "NewManager dir entries w = (Inr m1, w)" "mWalDir m1 = dir"
    "\<And>q. queued m1 q = (if (q @ ''.wal'', False) \<in> set entries then live_messages (disk_records w (wal_path dir q)) else [])"
    "\<And>q. known m1 q \<longleftrightarrow> (q @ ''.wal'', False) \<in> set entries"
    using restart_healthy [OF assms(1) l] by metis
  then have eq: "m = m1" "w' = w" using assms(3) by simp_all
  let ?s = "init_system w' m mr"
  have y: "yM ?s = m" "yW ?s = w" "yEnq ?s = []" using eq by (simp_all add: init_system_def NewAckManager_def)
  have "q = Queue y \<and> kin x y \<and> known m q" if "y \<in> set (queued m q)" "ID y = ID x" for q y
  proof -
    have "y = x" "q = Queue x" using assms(5) [OF that] by simp_all
    moreover have "known m q" using that(1) m1(3,4) [of q] eq(1) by (simp split: if_splits)
    ultimately show ?thesis by (simp add: kin_def)
  qed
  then have "kept dir x [] ?s"
    unfolding kept_def y lodged_init using assms(2) m1(4) eq(1) by (simp add: full_listing_def)
  moreover have "durable dir (disk_records w) (waiting m) [] ?s"
    using restart_runs(1) [OF assms(1) l assms(3) trace_refl] .
  ultimately have "tracked dir (disk_records w) (waiting m) x [] ?s" by (simp add: tracked_def)
  then show ?thesis by (rule track.trace_I [OF assms(4)])
qed

subsection \<open>Properties\<close>

text \<open>A broker started on an empty directory that has accepted one message.\<close>

abbreviation sample_id :: string where "sample_id \<equiv> hex_EncodeToString [1, 2, 3, 4, 5, 6, 7, 8]"

definition sample_accepted :: System where
  "sample_accepted = with_broker (snd (Publish (Some [1, 2, 3, 4, 5, 6, 7, 8]) 5 sample_request (yB sample_start))) sample_start"

lemma sample_new: "NewManager ''wal'' [] \<lparr>files = Map.empty, faults = []\<rparr> = (Inr (empty_Manager ''wal''), \<lparr>files = Map.empty, faults = []\<rparr>)"
  by (simp add: NewManager_def)

lemma sample_empty: "intact_dir ''wal'' \<lparr>files = Map.empty, faults = []\<rparr>" "listing ''wal'' [] \<lparr>files = Map.empty, faults = []\<rparr>"
  by (simp_all add: intact_dir_def listing_def)

lemma sample_accepted_ok:
  assumes "Manager_Enqueue (published sample_id 5 sample_request) (yM sample_start) (yW sample_start) = (err, m, w)"
  shows "err = None"
proof -
  have b: "yM sample_start = empty_Manager ''wal''" "yW sample_start = \<lparr>files = Map.empty, faults = []\<rparr>"
    by (simp_all add: sample_start_def init_system_def NewAckManager_def)
  have h: "healthy (empty_Manager ''wal'') \<lparr>files = Map.empty, faults = []\<rparr>" "\<not> mClosing (empty_Manager ''wal'')"
    by (rule restart_healthy [OF sample_empty]; simp add: sample_new)+
  then show ?thesis using healthy_Enqueue_ok [OF h(1) assms [unfolded b] h(2)] by simp
qed

lemma sample_accepts: "runs sample_start [Accepted (published sample_id 5 sample_request)] sample_accepted"
proof -
  obtain r b where p: "Publish (Some [1, 2, 3, 4, 5, 6, 7, 8]) 5 sample_request (yB sample_start) = (r, b)" by (metis prod.exhaust)
  from p obtain err where "Manager_Enqueue (published sample_id 5 sample_request) (yM sample_start) (yW sample_start) = (err, bManager b, bWorld b)"
    and r: "r = (case err of None \<Rightarrow> Inr sample_id | Some e \<Rightarrow> Inl \<lparr>stCode = Internal, stText = ''enqueue'', stCause = Some e\<rparr>)"
    by (rule Publish_run)
  then have "err = None" using sample_accepted_ok by blast
  moreover have "mgr_inv (yM sample_start)"
    by (rule mgr_invI) (simp add: sample_start_def init_system_def NewAckManager_def empty_Manager_def)
  ultimately show ?thesis using Publish_as_steps [OF _ p] r p by (simp add: sample_accepted_def)
qed

text \<open>C1. Durability of a whole run: start the broker on a directory of intact logs, let publishers,
  dispatchers, consumers, scanners and shutdown interleave in any way on a disk without faults,
  and stop it at any step. A message that was accepted or requeued, and for whose queue's log no
  settlement of its identifier was made in the run or is in the initial log, is back in the
  topic of its queue after the next start.\<close>

theorem accepted_survives_restart:
  assumes "intact_dir dir w" "listing dir entries w" "NewManager dir entries w = (Inr m, w1)"
    and "runs (init_system w1 m maxRetries) ls s" "\<forall>x \<in> logged ls. message_ok x"
    and "Accepted x \<in> set ls \<or> Requeued x \<in> set ls"
    and "\<And>q. Settled (ID x) q \<in> set ls \<Longrightarrow> wal_path dir q \<noteq> wal_path dir (Queue x)"
    and "ID x \<notin> tombs_of (disk_records w (wal_path dir (Queue x)))"
    and "listing dir entries' (bWorld (yB s))" "(Queue x @ ''.wal'', False) \<in> set entries'"
  shows "\<exists>m'. NewManager dir entries' (bWorld (yB s)) = (Inr m', bWorld (yB s)) \<and> replayed x \<in> set (queued m' (Queue x))"
proof -
  let ?p = "wal_path dir (Queue x)"
  let ?R = "disk_records (yW s) ?p"
  note d = durableD [OF restart_runs(1) [OF assms(1-4)] assms(5)]
  have "message_record x \<in> set ?R" using d(3) assms(6) by (auto simp: grows_def logged_def)
  moreover have "ID x \<notin> tombs_of ?R"
  proof
    assume "ID x \<in> tombs_of ?R"
    then obtain r where r: "r \<in> set ?R" "recType r = RecordTombstone" "recID r = ID x" by (auto simp: tombs_of_def)
    then have "r \<notin> set (disk_records w ?p)" using assms(8) by (force simp: tombs_of_def)
    then have "caused dir ls ?p r" using d(3) r(1) unfolding grows_def by blast
    then show False using r(2,3) assms(7) by (force simp: caused_def)
  qed
  ultimately have "replayed x \<in> set (live_messages ?R)" by (rule live_messages_mem)
  moreover have "intact_dir dir (yW s)" using healthy_intact [OF d(1)] d(2) by simp
  ultimately show ?thesis using restart_healthy [OF _ assms(9)] assms(10) by metis
qed

theorem accepted_survives_restart_witness:
  "\<exists>m'. NewManager ''wal'' [(''orders.wal'', False)] (bWorld (yB sample_accepted)) = (Inr m', bWorld (yB sample_accepted)) \<and>
     replayed (published sample_id 5 sample_request) \<in> set (queued m' ''orders'')"
proof -
  let ?x = "published sample_id 5 sample_request"
  have ok: "\<forall>x \<in> logged [Accepted ?x]. message_ok x" using sample_request_ok by simp
  have q: "Queue ?x = ''orders''" by (simp add: sample_request_def)
  have n: "q = ''orders''" if "(q @ ''.wal'', False) \<in> set [(''orders.wal'', False)]" for q :: string
    using that append_same_eq [of q "''.wal''" "''orders''"] by simp
  note run = sample_accepts [unfolded sample_start_def]
  have "message_record ?x \<in> set (disk_records (yW sample_accepted) (wal_path ''wal'' ''orders''))"
    using durableD(3) [OF restart_runs(1) [OF sample_empty sample_new run] ok] q by (simp add: grows_def)
  then have "files (yW sample_accepted) (wal_path ''wal'' ''orders'') \<noteq> None"
    using disk_records_none by fastforce
  then have l: "listing ''wal'' [(''orders.wal'', False)] (yW sample_accepted)" using n unfolding listing_def by blast
  have t: "ID ?x \<notin> tombs_of (disk_records \<lparr>files = Map.empty, faults = []\<rparr> p)" for p by (simp add: disk_records_def)
  from accepted_survives_restart [OF sample_empty sample_new run ok _ _ t l] q show ?thesis by simp
qed

text \<open>C2. Settlement of a whole run: on such a run, a message whose acknowledgement or expiry the
  broker has recorded for a queue is not in that queue after the next start, however often it was
  requeued before.\<close>

theorem settled_not_replayed:
  assumes "intact_dir dir w" "listing dir entries w" "NewManager dir entries w = (Inr m, w1)"
    and "runs (init_system w1 m maxRetries) ls s" "\<forall>x \<in> logged ls. message_ok x"
    and "Settled i q \<in> set ls" "listing dir entries' (bWorld (yB s))"
  shows "\<exists>m'. NewManager dir entries' (bWorld (yB s)) = (Inr m', bWorld (yB s)) \<and> i \<notin> ID ` set (queued m' q)"
proof -
  note d = durableD [OF restart_runs(1) [OF assms(1-4)] assms(5)]
  have "tombstone_record i \<in> set (disk_records (yW s) (wal_path dir q))" using d(3) assms(6) unfolding grows_def by blast
  then have "i \<in> tombs_of (disk_records (yW s) (wal_path dir q))" by (force simp: tombs_of_def)
  then have "i \<notin> ID ` set (live_messages (disk_records (yW s) (wal_path dir q)))" by (auto simp: live_messages_def)
  moreover have "intact_dir dir (yW s)" using healthy_intact [OF d(1)] d(2) by simp
  ultimately show ?thesis using restart_healthy [OF _ assms(7)] by (metis empty_iff image_empty list.set(1))
qed

text \<open>A directory with one dead letter, and the broker after its expiry.\<close>

definition dead_letter :: Message where
  "dead_letter = sample_message\<lparr>Queue := ''orders.dlq'', Status := StatusDead\<rparr>"

definition dead_disk :: world where
  "dead_disk = \<lparr>files = [wal_path ''wal'' ''orders.dlq'' \<mapsto> log_of frame [message_record dead_letter]], faults = []\<rparr>"

abbreviation dead_listing :: "(string \<times> bool) list" where
  "dead_listing \<equiv> [(''orders.dlq.wal'', False)]"

lemma dead_entries: "(q @ ''.wal'', False) \<in> set dead_listing \<longleftrightarrow> q = ''orders.dlq''"
  using append_same_eq [of q "''.wal''" "''orders.dlq''"] by simp

lemma dead_encodable: "encodable (message_record dead_letter)"
proof -
  have "valid_utf8 ''orders.dlq''" by (rule valid_utf8_ascii) simp
  then have "message_ok dead_letter" using sample_ascii(1)
    by (intro message_okI) (simp_all add: dead_letter_def message_size_def max_message_def)
  then show ?thesis by (simp add: message_ok_def)
qed

lemma dead_disk_records: "disk_records dead_disk (wal_path ''wal'' ''orders.dlq'') = [message_record dead_letter]"
  by (rule disk_records_log) (simp_all add: dead_disk_def dead_encodable)

lemma dead_disk_ok: "intact_dir ''wal'' dead_disk" "listing ''wal'' dead_listing dead_disk"
proof -
  show "intact_dir ''wal'' dead_disk" unfolding intact_dir_def
  proof (intro conjI allI impI)
    fix q data assume "files dead_disk (wal_path ''wal'' q) = Some data"
    then have "data = log_of frame [message_record dead_letter]" by (auto simp: dead_disk_def split: if_splits)
    then show "\<exists>rs. data = log_of frame rs \<and> (\<forall>r \<in> set rs. encodable r)" using dead_encodable by (intro exI [of _ "[message_record dead_letter]"]) simp
  qed (simp add: dead_disk_def)
  show "listing ''wal'' dead_listing dead_disk" unfolding listing_def dead_entries by (simp add: dead_disk_def)
qed

lemma dead_letter_expires:
  obtains m s where "NewManager ''wal'' dead_listing dead_disk = (Inr m, dead_disk)"
    "runs (init_system dead_disk m 3) [Settled ''00c0ffee'' ''orders.dlq''] s"
proof -
  let ?q = "''orders.dlq''"
  obtain m where m: "NewManager ''wal'' dead_listing dead_disk = (Inr m, dead_disk)"
    "queued m ?q = live_messages (disk_records dead_disk (wal_path ''wal'' ?q))" "known m ?q"
    by (rule restart_healthy [OF dead_disk_ok]) (unfold dead_entries, simp)
  then have q: "queued m ?q = [replayed dead_letter]"
    unfolding dead_disk_records using live_messages_messages [of "[dead_letter]"] by simp
  let ?s = "init_system dead_disk m 3"
  have y: "yM ?s = m" "yW ?s = dead_disk" by (simp_all add: init_system_def NewAckManager_def)
  have x: "expired (2 ^ 63) (replayed dead_letter)"
    using nano_range_time_Unix0 [of "UnixNano (EnqueueTime dead_letter)"]
    by (simp add: expired_def time_Before_def replayed_def nano_range_def)
  obtain removed m1 w1 where e: "expire_remove ?q (2 ^ 63) (yM ?s) (yW ?s) = (removed, m1, w1)" by (metis prod.exhaust)
  have h: "healthy m dead_disk" using restart_healthy [OF dead_disk_ok] m(1) by (metis Pair_inject sum.inject(2))
  note r = healthy_remove [OF h m(3) e [unfolded y]]
  let ?s1 = "with_exp [(?q, replayed dead_letter)] (with_manager m1 w1 ?s)"
  have "IsDLQQueue ?q" by (simp add: IsDLQQueue_def HasSuffix_def DLQSuffix_def)
  moreover have "mWriters (yM ?s) ?q \<noteq> None" using m(3) y(1) by (simp add: known_def)
  moreover have "removed = [replayed dead_letter]" "yExp ?s = []" using r(6) q x by (simp_all add: init_system_def)
  ultimately have s1: "sys_step ?s [] ?s1" using expire_topic_step [OF _ _ e] by simp
  obtain w2 where w2: "append_record (open_writer (mWalDir m1) ?q) (tombstone_record ''00c0ffee'') w1 = (None, w2)"
    using healthy_append_ok [OF r(1) r(5) [OF m(3)]] by blast
  have "mWriters m1 ?q = Some (open_writer (mWalDir m1) ?q)" using r(5) [OF m(3)] by (simp add: known_def)
  then have "b_WriteTombstone (ID (replayed dead_letter)) ?q (yB ?s1) = (None, (yB ?s1)\<lparr>bWorld := w2\<rparr>)"
    using w2 by (simp add: b_WriteTombstone_def Manager_WriteTombstone_def WriteTombstone_def dead_letter_def replayed_def)
  then have "sys_step ?s1 [Settled ''00c0ffee'' ?q] (with_exp [] (with_broker ((yB ?s1)\<lparr>bWorld := w2\<rparr>) ?s1))"
    using expire_tombstone [of ?s1 "[]" ?q "replayed dead_letter" "[]"] by (simp add: tomb_label_def dead_letter_def replayed_def)
  from trace_append [OF run1 [OF s1] run1 [OF this]] show ?thesis by (intro that [OF m(1)]) simp
qed

theorem settled_not_replayed_witness:
  "\<exists>m s m'. NewManager ''wal'' dead_listing dead_disk = (Inr m, dead_disk) \<and>
     runs (init_system dead_disk m 3) [Settled ''00c0ffee'' ''orders.dlq''] s \<and>
     NewManager ''wal'' dead_listing (bWorld (yB s)) = (Inr m', bWorld (yB s)) \<and> ''00c0ffee'' \<notin> ID ` set (queued m' ''orders.dlq'')"
proof -
  obtain m s where r: "NewManager ''wal'' dead_listing dead_disk = (Inr m, dead_disk)"
    "runs (init_system dead_disk m 3) [Settled ''00c0ffee'' ''orders.dlq''] s" by (rule dead_letter_expires)
  have ok: "\<forall>x \<in> logged [Settled ''00c0ffee'' ''orders.dlq'']. message_ok x" by simp
  have "message_record dead_letter \<in> set (disk_records (yW s) (wal_path ''wal'' ''orders.dlq''))"
    using durableD(3) [OF restart_runs(1) [OF dead_disk_ok r] ok] dead_disk_records unfolding grows_def by force
  then have "files (yW s) (wal_path ''wal'' ''orders.dlq'') \<noteq> None" using disk_records_none by fastforce
  then have l: "listing ''wal'' dead_listing (yW s)" unfolding listing_def dead_entries by simp
  from settled_not_replayed [OF dead_disk_ok r ok _ l] r show ?thesis by fastforce
qed

text \<open>C3. No message vanishes: start the broker on a directory of intact logs, all of them listed, and let
  it run in any interleaving on a disk without faults, with no two queue names that share a log
  file. Take a message that was restored at the start into its own queue or accepted since, the only
  one among those with its identifier. While the broker is serving (not shutting down), it has been
  settled in its queue or in one of the dead-letter queues above it, or a copy with its identifier,
  payload and headers, on its way through these queues, is waiting in the topic of its queue, held
  by a dispatcher, in flight, with a pending acknowledgement or refusal, being enqueued, or removed
  by an expiry that has still to write its tombstone.\<close>

theorem no_message_vanishes:
  assumes "intact_dir dir w" "full_listing dir entries w" "NewManager dir entries w = (Inr m, w1)"
    and "runs (init_system w1 m maxRetries) ls s" "\<forall>y \<in> logged ls. message_ok y"
    and "inj_on (wal_path dir) {q. known (bManager (yB s)) q}" "sole_origin m ls x"
    and "\<not> mClosing (bManager (yB s))" "\<not> yCtxDone s"
  shows "(\<exists>q. Settled (ID x) q \<in> set ls \<and> lineage (Queue x) q) \<or>
    (\<exists>y. ID y = ID x \<and> Payload y = Payload x \<and> Headers y = Headers x \<and> lineage (Queue x) (Queue y) \<and>
       (y \<in> set (queued (bManager (yB s)) (Queue y)) \<or>
        (\<exists>q pc. sDisp (yServer s) q = Some pc \<and> y \<in> held pc) \<or>
        (\<exists>i e. bInFlight (yB s) i = Some e \<and> eMessage e = y) \<or>
        (\<exists>t \<in> set (yTasks s). eMessage (task_entry t) = y) \<or>
        (\<exists>e \<in> set (yEnq s). y \<in> enq_copy e) \<or> (Queue y, y) \<in> set (yExp s)))"
proof -
  note tr = restart_tracked [OF assms(1-4) sole_originD(1) [OF assms(7)]]
  then have d: "durable dir (disk_records w) (waiting m) ls s" by (simp add: tracked_def)
  have k: "kept dir x ls s"
    using tr assms(5,6) sole_originD(2) [OF assms(7)] by (simp add: tracked_def one_file_each_def)
  have "serving s" using assms(8,9) by (simp add: serving_def)
  then have "ID x \<in> present s \<or> ID x \<in> settled ls"
    using durableD(4) [OF d assms(5)] sole_originD(3) [OF assms(7)] by (auto simp: accepted_ids_def waiting_def)
  then show ?thesis
  proof
    assume "ID x \<in> settled ls"
    then show ?thesis using keptD(4,5) [OF k] by (auto simp: settled_def)
  next
    assume "ID x \<in> present s"
    then show ?thesis
    proof (cases rule: presentE)
      case (lodges q y)
      then have "q = Queue y" "kin x y" using keptD(2) [OF k, of q y] by simp_all
      then show ?thesis using lodges(1) unfolding lodged_def carried_def kin_def
        by (intro disjI2 exI [of _ y]) auto
    next
      case (enqueues e y)
      then have "kin x y" using keptD(3) [OF k, of e y] by simp
      with enqueues show ?thesis by (auto simp: kin_def)
    qed
  qed
qed

theorem no_message_vanishes_witness:
  "published sample_id 5 sample_request \<in> set (queued (bManager (yB sample_accepted)) ''orders'') \<and>
   (\<exists>y. ID y = sample_id \<and> Payload y = Some [7] \<and> lineage ''orders'' (Queue y) \<and>
     y \<in> set (queued (bManager (yB sample_accepted)) (Queue y)))"
proof -
  let ?x = "published sample_id 5 sample_request"
  have ok: "\<forall>x \<in> logged [Accepted ?x]. message_ok x" using sample_request_ok by simp
  note run = sample_accepts [unfolded sample_start_def]
  have x: "ID ?x = sample_id" "Payload ?x = Some [7]" "Queue ?x = ''orders''" by (simp_all add: sample_request_def)
  have s: "sDisp (yServer sample_accepted) = Map.empty" "yTasks sample_accepted = []" "\<not> yCtxDone sample_accepted"
    "yEnq sample_accepted = []" "yExp sample_accepted = []"
    by (simp_all add: sample_accepted_def sample_start_def init_system_def)
  obtain r b' where p: "Publish (Some [1, 2, 3, 4, 5, 6, 7, 8]) 5 sample_request (yB sample_start) = (r, b')" by (metis prod.exhaust)
  from p obtain err where e: "Manager_Enqueue ?x (yM sample_start) (yW sample_start) = (err, bManager b', bWorld b')"
    "bInFlight b' = bInFlight (yB sample_start)" by (rule Publish_run)
  have b0: "yM sample_start = empty_Manager ''wal''" "bInFlight (yB sample_start) = Map.empty"
    by (simp_all add: sample_start_def init_system_def NewAckManager_def)
  have b: "yB sample_accepted = b'" using p by (simp add: sample_accepted_def)
  have cl: "\<not> mClosing (yM sample_accepted)" "bInFlight (yB sample_accepted) = Map.empty"
    using Manager_Enqueue_queued(5) [OF e(1)] e(2) b0 unfolding b by (simp_all add: empty_Manager_def)
  have "q = ''orders''" if "known (yM sample_accepted) q" for q
  proof (rule ccontr)
    assume "q \<noteq> ''orders''"
    then have "mTopics (bManager b') q = None"
      using Manager_Enqueue_queued(1) [OF e(1), of q] b0(1) x(3) by (simp add: empty_Manager_def)
    then show False using that b by (simp add: known_def)
  qed
  then have inj: "inj_on (wal_path ''wal'') {q. known (bManager (yB sample_accepted)) q}" by (auto simp: inj_on_def)
  have so: "sole_origin (empty_Manager ''wal'') [Accepted ?x] ?x" by (simp add: sole_origin_def queued_def empty_Manager_def)
  have full: "full_listing ''wal'' [] \<lparr>files = Map.empty, faults = []\<rparr>" using sample_empty(2) by (simp add: full_listing_def)
  note nv = no_message_vanishes [OF sample_empty(1) full sample_new run ok inj so cl(1) s(3)]
  then obtain y where y: "ID y = sample_id" "Payload y = Some [7]" "lineage ''orders'' (Queue y)"
    "y \<in> set (queued (bManager (yB sample_accepted)) (Queue y))"
    unfolding s cl x by auto
  moreover have "?x \<in> set (queued (bManager (yB sample_accepted)) ''orders'')"
    using Manager_Enqueue_queued(2) [OF e(1)] sample_accepted_ok [OF e(1)] x(3) unfolding b by force
  ultimately show ?thesis by blast
qed

end
