(* ===== verification/OutcomeProps.thy ===== *)
theory OutcomeProps
  imports Durability
begin

text \<open>
  Properties of outcomes that need the logs: refusals in a row, the expiry of dead letters in
  flight, and the drain at a disconnect, on a disk without faults where the logs are concerned.
\<close>

section \<open>One refusal on a healthy disk\<close>

definition calm :: "Broker \<Rightarrow> bool" where
  "calm b \<longleftrightarrow> healthy (bManager b) (bWorld b) \<and> \<not> mClosing (bManager b)"

text \<open>A message is back in its queue: in the topic and in the log of its queue.\<close>

definition back_in_queue :: "Message \<Rightarrow> Broker \<Rightarrow> bool" where
  "back_in_queue t b \<longleftrightarrow> t \<in> set (queued (bManager b) (Queue t)) \<and>
     message_record t \<in> set (disk_records (bWorld b) (qpath (bManager b) (Queue t)))"

definition adds :: "Broker \<Rightarrow> Broker \<Rightarrow> bool" where
  "adds b b' \<longleftrightarrow> mWalDir (bManager b') = mWalDir (bManager b) \<and> bMaxRetries b' = bMaxRetries b \<and>
     (\<forall>q. set (queued (bManager b) q) \<subseteq> set (queued (bManager b') q)) \<and>
     (\<forall>p. set (disk_records (bWorld b) p) \<subseteq> set (disk_records (bWorld b') p))"

lemma adds_refl [simp]: "adds b b"
  by (simp add: adds_def)

lemma adds_trans: "adds b b' \<Longrightarrow> adds b' b'' \<Longrightarrow> adds b b''"
  unfolding adds_def by (metis subset_trans)

lemma back_in_queue_adds: "back_in_queue t b \<Longrightarrow> adds b b' \<Longrightarrow> back_in_queue t b'"
  unfolding back_in_queue_def adds_def by auto

lemma calm_Nack:
  assumes c: "calm b" and run: "Nack now i b = (err, b')"
    and ok: "\<And>e. bInFlight b i = Some e \<Longrightarrow> message_ok (nack_target (bMaxRetries b) now (eMessage e))"
  shows "err = None" "calm b'" "adds b b'" "bInFlight b' = (bInFlight b)(i := None)"
    "\<And>e. bInFlight b i = Some e \<Longrightarrow> back_in_queue (nack_target (bMaxRetries b) now (eMessage e)) b'"
proof -
  show fl: "bInFlight b' = (bInFlight b)(i := None)" using Nack_inFlight [of now i b] run by simp
  have "err = None \<and> calm b' \<and> adds b b' \<and>
      (\<forall>e. bInFlight b i = Some e \<longrightarrow> back_in_queue (nack_target (bMaxRetries b) now (eMessage e)) b')"
  proof (cases "bInFlight b i")
    case None
    then show ?thesis using run c by (auto simp: Nack_unknown)
  next
    case (Some e)
    let ?t = "nack_target (bMaxRetries b) now (eMessage e)"
    note k = Nack_known [OF Some run]
    have h: "healthy (bManager b) (bWorld b)" "\<not> mClosing (bManager b)" using c by (simp_all add: calm_def)
    have none: "err = None" using healthy_Enqueue_ok [OF h(1) k(1) h(2)] .
    note e = healthy_Enqueue [OF h(1) k(1) ok [OF Some]] and q = Manager_Enqueue_queued [OF k(1)]
    have "calm b'" using e(1) q(5) h(2) by (simp add: calm_def)
    moreover have "set (queued (bManager b) p) \<subseteq> set (queued (bManager b') p)" for p
      using Enqueue_monotone [OF k(1)] by blast
    then have "adds b b'" using e(2,3) none k(3) by (auto simp: adds_def)
    moreover have "?t \<in> set (queued (bManager b') (Queue ?t))" using q(2) [OF none] by force
    then have "back_in_queue ?t b'" using e(2,3) none by (simp add: back_in_queue_def)
    ultimately show ?thesis using none Some by simp
  qed
  then show "err = None" "calm b'" "adds b b'"
    "\<And>e. bInFlight b i = Some e \<Longrightarrow> back_in_queue (nack_target (bMaxRetries b) now (eMessage e)) b'" by blast+
qed

section \<open>Refusals in a row\<close>

text \<open>One delivery of a message that ends in a refusal: in some state of a broker the dispatcher
  registers the stamped message, \<open>Nack\<close> succeeds, and what it appended to a queue is the new state
  of the message.\<close>

definition refusal :: "int32 \<Rightarrow> Message \<Rightarrow> Message \<Rightarrow> bool" where
  "refusal mr m m' \<longleftrightarrow>
     (\<exists>b t now k b' q. bMaxRetries b = mr \<and> Nack now (ID m) (Ack_Register (stamp t m) k b) = (None, b') \<and>
        queued (bManager b') q \<noteq> queued (bManager b) q \<and> m' = last (queued (bManager b') q))"

inductive refused_times :: "int32 \<Rightarrow> nat \<Rightarrow> Message \<Rightarrow> Message \<Rightarrow> bool" for mr where
  never: "refused_times mr 0 m m"
| again: "refused_times mr n m m' \<Longrightarrow> refusal mr m' m'' \<Longrightarrow> refused_times mr (Suc n) m m''"

inductive_cases refused_SucE: "refused_times mr (Suc n) m m''"

lemma refusal_target:
  assumes "refusal mr m m'"
  obtains t now where "m' = nack_target mr now (stamp t m)"
proof -
  obtain b t now k b' q where r: "bMaxRetries b = mr" "Nack now (ID m) (Ack_Register (stamp t m) k b) = (None, b')"
    "queued (bManager b') q \<noteq> queued (bManager b) q" "m' = last (queued (bManager b') q)"
    using assms by (auto simp: refusal_def)
  let ?b = "Ack_Register (stamp t m) k b" and ?x = "nack_target mr now (stamp t m)"
  have "bInFlight ?b (ID m) = Some \<lparr>eMessage = stamp t m, eConsumerID = k\<rparr>" by simp
  from Nack_known(1) [OF this r(2)] have e: "Manager_Enqueue ?x (bManager b) (bWorld b) = (None, bManager b', bWorld b')"
    using r(1) by simp
  have "q = Queue ?x"
    using Manager_Enqueue_queued(1) [OF e, of q] r(3) unfolding queued_def by metis
  then have "m' = ?x" using Manager_Enqueue_queued(2) [OF e] r(4) by auto
  then show ?thesis by (rule that)
qed

lemma refusal_keeps: "refusal mr m m' \<Longrightarrow> ID m' = ID m \<and> Payload m' = Payload m \<and> Headers m' = Headers m"
  by (erule refusal_target) simp

lemma refused_keeps: "refused_times mr n m m' \<Longrightarrow> ID m' = ID m \<and> Payload m' = Payload m \<and> Headers m' = Headers m"
  by (induction rule: refused_times.induct) (auto dest: refusal_keeps)

lemma refused_below:
  assumes "refused_times mr n m m'" "sint (RetryCount m) + int n \<le> sint mr"
  shows "Queue m' = Queue m \<and> sint (RetryCount m') = sint (RetryCount m) + int n"
  using assms
proof (induction rule: refused_times.induct)
  case (again n m m' m'')
  then have IH: "Queue m' = Queue m" "sint (RetryCount m') = sint (RetryCount m) + int n" by simp_all
  obtain t now where x: "m'' = nack_target mr now (stamp t m')" using again(2) by (rule refusal_target)
  have lt: "sint (RetryCount (stamp t m')) < sint mr" using IH again(4) by simp
  then have "m'' = WithRetry (stamp t m')" using x by (simp add: nack_target_def)
  then show ?case using IH sint_RetryCount_WithRetry [OF lt] by simp
qed simp

lemma refusal_exists: "\<exists>m'. refusal mr m m'"
proof -
  let ?b = "NewAckManager \<lparr>files = Map.empty, faults = []\<rparr> (empty_Manager ''wal'') NewRegistry mr"
  let ?b1 = "Ack_Register (stamp 0 m) ''c1'' ?b" and ?x = "nack_target mr 0 (stamp 0 m)"
  obtain err b' where n: "Nack 0 (ID m) ?b1 = (err, b')" by (metis prod.exhaust)
  have "bInFlight ?b1 (ID m) = Some \<lparr>eMessage = stamp 0 m, eConsumerID = ''c1''\<rparr>" by simp
  from Nack_known(1) [OF this n] have e: "Manager_Enqueue ?x (bManager ?b) (bWorld ?b) = (err, bManager b', bWorld b')"
    by (simp add: NewAckManager_def)
  have "mgr_inv (empty_Manager ''wal'')" by (rule mgr_invI) (simp add: empty_Manager_def)
  then have "healthy (bManager ?b) (bWorld ?b)" "\<not> mClosing (bManager ?b)"
    by (simp_all add: NewAckManager_def healthy_def known_def empty_Manager_def)
  then have none: "err = None" using healthy_Enqueue_ok [OF _ e] by blast
  have "queued (bManager ?b) (Queue ?x) = []" by (simp add: NewAckManager_def queued_def empty_Manager_def)
  moreover have "queued (bManager b') (Queue ?x) \<noteq> []" using Manager_Enqueue_queued(2) [OF e none] by auto
  moreover have "bMaxRetries ?b = mr" by (simp add: NewAckManager_def)
  ultimately show ?thesis using n none unfolding refusal_def by metis
qed

lemma refused_exists: "\<exists>m'. refused_times mr n m m'"
  by (induction n) (use refused_times.intros refusal_exists in blast)+

text \<open>C10. A message that is refused every time, in whatever states of the broker: for each of the first
  \<open>maxRetries\<close> refusals it returns to its queue with its retry count one higher, and the next one
  moves it to the dead-letter queue with that count, marked dead. Identifier, payload and headers
  never change and the 32-bit count does not wrap. (From a fresh message these are \<open>maxRetries + 1\<close>
  deliveries.)\<close>

theorem retries_then_dead_letter:
  assumes "refused_times mr n msg m'" "sint (RetryCount msg) \<le> sint mr"
  shows "ID m' = ID msg \<and> Payload m' = Payload msg \<and> Headers m' = Headers msg \<and>
    (sint (RetryCount msg) + int n \<le> sint mr \<longrightarrow>
       Queue m' = Queue msg \<and> sint (RetryCount m') = sint (RetryCount msg) + int n) \<and>
    (sint (RetryCount msg) + int n = sint mr + 1 \<longrightarrow>
       Queue m' = Queue msg @ DLQSuffix \<and> IsDLQQueue (Queue m') \<and> sint (RetryCount m') = sint mr \<and> Status m' = StatusDead)"
proof (intro conjI impI)
  show "Queue m' = Queue msg" "sint (RetryCount m') = sint (RetryCount msg) + int n"
    if "sint (RetryCount msg) + int n \<le> sint mr" using refused_below [OF assms(1) that] by simp_all
  have last: "m' = (stamp t m)\<lparr>Queue := Queue msg @ DLQSuffix, EnqueueTime := now, Status := StatusDead\<rparr> \<and> RetryCount m' = mr"
    if "n = Suc k" "refused_times mr k msg m" "m' = nack_target mr now (stamp t m)" "sint (RetryCount msg) + int n = sint mr + 1"
    for k m t now
  proof -
    have "Queue m = Queue msg" "sint (RetryCount m) = sint mr" using refused_below [OF that(2)] that(1,4) by simp_all
    then have "RetryCount m = mr" by (simp add: signed_word_eqI)
    then show ?thesis using that(3) \<open>Queue m = Queue msg\<close> by (simp add: nack_target_def)
  qed
  assume n: "sint (RetryCount msg) + int n = sint mr + 1"
  then obtain k where k: "n = Suc k" using assms(2) by (cases n) auto
  obtain m where m: "refused_times mr k msg m" "refusal mr m m'" using assms(1) k by (auto elim: refused_SucE)
  obtain t now where "m' = nack_target mr now (stamp t m)" using m(2) by (rule refusal_target)
  from last [OF k m(1) this n]
  show "Queue m' = Queue msg @ DLQSuffix" "IsDLQQueue (Queue m')" "sint (RetryCount m') = sint mr" "Status m' = StatusDead"
    by auto
qed (use refused_keeps [OF assms(1)] in simp_all)

theorem retries_then_dead_letter_witness:
  "\<exists>m3 m4. refused_times 3 3 sample_message m3 \<and> Queue m3 = ''orders'' \<and> sint (RetryCount m3) = 3 \<and>
     refused_times 3 4 sample_message m4 \<and> Queue m4 = ''orders'' @ DLQSuffix \<and> Status m4 = StatusDead"
proof -
  obtain m3 m4 where m: "refused_times 3 3 sample_message m3" "refused_times 3 4 sample_message m4"
    using refused_exists by metis
  then show ?thesis using retries_then_dead_letter [OF m(1)] retries_then_dead_letter [OF m(2)] by auto
qed

section \<open>Expiry of dead letters in flight\<close>

lemma healthy_Tombstone_ok:
  assumes "healthy m w" "known m q" "Manager_WriteTombstone i q m w = (err, w')"
  shows "err = None"
  using healthy_append_ok [OF assms(1,2), of "tombstone_record i"] assms(2,3)
  by (auto simp: Manager_WriteTombstone_def WriteTombstone_def known_def)

lemma expire_all_logs:
  assumes "healthy (bManager b) (bWorld b)"
    and "\<forall>e \<in> set es. known (bManager b) (Queue (eMessage e)) \<and> tombstone_ok (ID (eMessage e))"
    and "expire_all es None b = (err, b')"
  shows "err = None \<and> (\<forall>p. disk_records (bWorld b') p = disk_records (bWorld b) p @
    map (tombstone_record \<circ> ID \<circ> eMessage) (filter (\<lambda>e. qpath (bManager b) (Queue (eMessage e)) = p) es))"
  using assms
proof (induction es arbitrary: b)
  case (Cons e es)
  let ?b0 = "b_DecrementInFlight (eConsumerID e) b"
  obtain err1 b1 where n: "b_WriteTombstone (ID (eMessage e)) (Queue (eMessage e)) ?b0 = (err1, b1)" by (metis prod.exhaust)
  then have t: "Manager_WriteTombstone (ID (eMessage e)) (Queue (eMessage e)) (bManager b) (bWorld b) = (err1, bWorld b1)"
    and m: "bManager b1 = bManager b" by (auto simp: b_WriteTombstone_def split: prod.splits)
  have e1: "err1 = None" using healthy_Tombstone_ok [OF Cons.prems(1) _ t] Cons.prems(2) by simp
  note h = healthy_Tombstone [OF Cons.prems(1) t]
  have "expire_all es None b1 = (err, b')" using Cons.prems(3) n e1 by simp
  from Cons.IH [OF _ _ this] h Cons.prems(2) m e1 show ?case by auto
qed simp

text \<open>C24. The expiry of in-flight dead letters takes exactly the entries of dead-letter queues older
  than the cutoff out of the map and counts them; every connected consumer gets back one unit per
  message of its own that expired; topics and registry stay. On a disk without faults, where the
  queues of these messages are open and their identifiers fit in a record, there is no error, and
  the log of each queue has grown by one tombstone per expired message of that queue.\<close>

theorem dlq_inflight_expiry_exact:
  assumes "reg_inv (bRegistry b) (bConsumers b)" "range_order order (bInFlight b)"
    and "ExpireDLQInFlight cutoff order b = ((n, err), b')"
  shows "(\<forall>i. bInFlight b' i = (case bInFlight b i of None \<Rightarrow> None
            | Some e \<Rightarrow> if IsDLQQueue (Queue (eMessage e)) \<and> EnqueueTime (eMessage e) < cutoff then None else Some e)) \<and>
    n = card {i. \<exists>e. bInFlight b i = Some e \<and> IsDLQQueue (Queue (eMessage e)) \<and> EnqueueTime (eMessage e) < cutoff} \<and>
    bManager b' = bManager b \<and> bRegistry b' = bRegistry b \<and>
    (\<forall>k. map_option cInFlight (connected (bRegistry b') (bConsumers b') k) =
       map_option (\<lambda>c. cInFlight c - of_nat (card {i. \<exists>e. bInFlight b i = Some e \<and> IsDLQQueue (Queue (eMessage e)) \<and>
           EnqueueTime (eMessage e) < cutoff \<and> eConsumerID e = k}))
         (connected (bRegistry b) (bConsumers b) k)) \<and>
    (healthy (bManager b) (bWorld b) \<and> (\<forall>i e. bInFlight b i = Some e \<longrightarrow> IsDLQQueue (Queue (eMessage e)) \<longrightarrow>
        EnqueueTime (eMessage e) < cutoff \<longrightarrow> known (bManager b) (Queue (eMessage e)) \<and> tombstone_ok (ID (eMessage e))) \<longrightarrow>
     err = None \<and> (\<exists>es. length es = n \<and>
       set es = {e. \<exists>i. bInFlight b i = Some e \<and> IsDLQQueue (Queue (eMessage e)) \<and> EnqueueTime (eMessage e) < cutoff} \<and>
       (\<forall>p. disk_records (bWorld b') p = disk_records (bWorld b) p @
          map (tombstone_record \<circ> ID \<circ> eMessage) (filter (\<lambda>e. qpath (bManager b) (Queue (eMessage e)) = p) es))))"
proof -
  have P: "dlq_expired cutoff e \<longleftrightarrow> IsDLQQueue (Queue (eMessage e)) \<and> EnqueueTime (eMessage e) < cutoff" for e
    by (simp add: dlq_expired_def expired_def time_Before_def)
  obtain es where es: "set es = {e. \<exists>i. bInFlight b i = Some e \<and> dlq_expired cutoff e}" "n = length es"
    "es = map (the \<circ> bInFlight b) (filter (\<lambda>i. \<exists>e. bInFlight b i = Some e \<and> dlq_expired cutoff e) order)"
    "expire_all es None (b\<lparr>bInFlight := keep_entries (dlq_expired cutoff) (bInFlight b)\<rparr>) = (err, b')"
    by (rule ExpireDLQInFlight_collect [OF assms(2,3)])
  note fr = expire_all_frame [OF es(4), simplified]
  then have mv: "(bRegistry b', bConsumers b') = fold regc.move (map (\<lambda>e. (eConsumerID e, False)) es) (bRegistry b, bConsumers b)"
    by blast
  note card = scanned_card [OF assms(2) es(3)]
  have "n = card {i. \<exists>e. bInFlight b i = Some e \<and> dlq_expired cutoff e}" using card [of "\<lambda>_. True"] es(2) by simp
  moreover have "map_option cInFlight (connected (bRegistry b') (bConsumers b') k) =
      map_option (\<lambda>c. cInFlight c - of_nat (card {i. \<exists>e. bInFlight b i = Some e \<and> dlq_expired cutoff e \<and> eConsumerID e = k}))
        (connected (bRegistry b) (bConsumers b) k)" for k
    using scan_counters [OF assms(1) mv, of k] card [of "\<lambda>e. eConsumerID e = k"]
    by (simp add: count_of_def option.map_comp o_def)
  moreover have "bInFlight b' i = (case bInFlight b i of None \<Rightarrow> None | Some e \<Rightarrow> if dlq_expired cutoff e then None else Some e)" for i
    using fr by (simp add: keep_entries_def)
  moreover have "err = None \<and> (\<forall>p. disk_records (bWorld b') p = disk_records (bWorld b) p @
        map (tombstone_record \<circ> ID \<circ> eMessage) (filter (\<lambda>e. qpath (bManager b) (Queue (eMessage e)) = p) es))"
    if "healthy (bManager b) (bWorld b)" "\<forall>i e. bInFlight b i = Some e \<longrightarrow> IsDLQQueue (Queue (eMessage e)) \<longrightarrow>
        EnqueueTime (eMessage e) < cutoff \<longrightarrow> known (bManager b) (Queue (eMessage e)) \<and> tombstone_ok (ID (eMessage e))"
    using expire_all_logs [OF _ _ es(4)] that es(1) P by auto
  ultimately show ?thesis using fr es(1,2) unfolding P conj_assoc by auto
qed

text \<open>The dead letter of the sample directory, delivered and not answered.\<close>

definition dead_flight :: "Manager \<Rightarrow> Broker" where
  "dead_flight m = sample_broker\<lparr>bManager := m, bWorld := dead_disk,
     bInFlight := [''00c0ffee'' \<mapsto> \<lparr>eMessage = dead_letter, eConsumerID = ''c1''\<rparr>]\<rparr>"

theorem dlq_inflight_expiry_exact_witness:
  "\<exists>m b'. NewManager ''wal'' dead_listing dead_disk = (Inr m, dead_disk) \<and>
     ExpireDLQInFlight 100 [''00c0ffee''] (dead_flight m) = ((1, None), b') \<and> bInFlight b' ''00c0ffee'' = None \<and>
     map_option cInFlight (connected (bRegistry b') (bConsumers b') ''c1'') = Some (cInFlight sub1 - 1) \<and>
     disk_records (bWorld b') (wal_path ''wal'' ''orders.dlq'') = [message_record dead_letter, tombstone_record ''00c0ffee'']"
proof -
  let ?q = "''orders.dlq''"
  obtain m where m: "NewManager ''wal'' dead_listing dead_disk = (Inr m, dead_disk)" "known m ?q" "healthy m dead_disk" "mWalDir m = ''wal''"
    using restart_healthy [OF dead_disk_ok] dead_entries by metis
  let ?b = "dead_flight m"
  have dq: "IsDLQQueue ?q" by (simp add: IsDLQQueue_def HasSuffix_def DLQSuffix_def)
  have b: "bInFlight ?b = [''00c0ffee'' \<mapsto> \<lparr>eMessage = dead_letter, eConsumerID = ''c1''\<rparr>]" "bManager ?b = m" "bWorld ?b = dead_disk"
    "bRegistry ?b = bRegistry sample_broker" "bConsumers ?b = bConsumers sample_broker"
    by (simp_all add: dead_flight_def)
  have x: "ID dead_letter = ''00c0ffee''" "Queue dead_letter = ?q" "EnqueueTime dead_letter = time_zero" "time_zero < 100"
    by (simp_all add: dead_letter_def time_zero_def)
  obtain n err b' where r: "ExpireDLQInFlight 100 [''00c0ffee''] ?b = ((n, err), b')" by (metis prod.exhaust)
  have o: "range_order [''00c0ffee''] (bInFlight ?b)" unfolding b(1) by (simp add: range_order_def)
  have one: "{i. \<exists>e. bInFlight ?b i = Some e \<and> IsDLQQueue (Queue (eMessage e)) \<and> EnqueueTime (eMessage e) < 100} = {''00c0ffee''}"
    "{i. \<exists>e. bInFlight ?b i = Some e \<and> IsDLQQueue (Queue (eMessage e)) \<and> EnqueueTime (eMessage e) < 100 \<and> eConsumerID e = ''c1''} = {''00c0ffee''}"
    "{e. \<exists>i. bInFlight ?b i = Some e \<and> IsDLQQueue (Queue (eMessage e)) \<and> EnqueueTime (eMessage e) < 100} =
      {\<lparr>eMessage = dead_letter, eConsumerID = ''c1''\<rparr>}"
    using x dq by (auto simp: b split: if_splits)
  have g: "healthy (bManager ?b) (bWorld ?b) \<and> (\<forall>i e. bInFlight ?b i = Some e \<longrightarrow> IsDLQQueue (Queue (eMessage e)) \<longrightarrow>
        EnqueueTime (eMessage e) < 100 \<longrightarrow> known (bManager ?b) (Queue (eMessage e)) \<and> tombstone_ok (ID (eMessage e)))"
    using m x by (auto simp: b split: if_splits)
  have reg: "reg_inv (bRegistry ?b) (bConsumers ?b)" using sample_registry by (simp only: b)
  note d = dlq_inflight_expiry_exact [OF reg o r, unfolded one]
  have n: "n = 1" using d by simp
  have gone: "bInFlight b' ''00c0ffee'' = None" using conjunct1 [OF d] dq x by (simp add: b)
  have cnt: "map_option cInFlight (connected (bRegistry b') (bConsumers b') ''c1'') = Some (cInFlight sub1 - 1)"
  proof -
    have "map_option cInFlight (connected (bRegistry b') (bConsumers b') ''c1'') =
        map_option (\<lambda>c. cInFlight c - of_nat (card {''00c0ffee''})) (connected (bRegistry ?b) (bConsumers ?b) ''c1'')"
      using d [THEN conjunct2, THEN conjunct2, THEN conjunct2, THEN conjunct2, THEN conjunct1, THEN spec, of "''c1''"]
      unfolding one(2) .
    then show ?thesis using sample_conn by (simp add: b)
  qed
  have "err = None \<and> (\<exists>es. length es = n \<and> set es = {\<lparr>eMessage = dead_letter, eConsumerID = ''c1''\<rparr>} \<and>
       (\<forall>p. disk_records (bWorld b') p = disk_records (bWorld ?b) p @
          map (tombstone_record \<circ> ID \<circ> eMessage) (filter (\<lambda>e. qpath (bManager ?b) (Queue (eMessage e)) = p) es)))"
    using d g by blast
  note all = n gone cnt this [unfolded b n]
  obtain es where es: "es = [\<lparr>eMessage = dead_letter, eConsumerID = ''c1''\<rparr>]" "\<forall>p. disk_records (bWorld b') p = disk_records dead_disk p @
          map (tombstone_record \<circ> ID \<circ> eMessage) (filter (\<lambda>e. qpath m (Queue (eMessage e)) = p) es)"
    using all(4) by (auto simp: length_Suc_conv)
  then have "disk_records (bWorld b') (wal_path ''wal'' ?q) = [message_record dead_letter, tombstone_record ''00c0ffee'']"
    using dead_disk_records m(4) x by simp
  then show ?thesis using m(1) r all by (intro exI [of _ m] exI [of _ b']) simp
qed

section \<open>Disconnecting\<close>

lemma calm_pop:
  assumes "chan_pop ref b = Some (msg, b1)"
  shows "calm b1 = calm b" "adds b b1"
  using chan_pop_frame [OF assms] by (simp_all add: calm_def adds_def)

lemma drain_restores:
  assumes "calm b" "drain clock ref drained b = (r, b')"
    and "\<forall>x \<in> set (chan_of b ref). \<forall>e. bInFlight b (ID x) = Some e \<longrightarrow>
      message_ok (nack_target (bMaxRetries b) (clock (ID x)) (eMessage e))"
  shows "r = Some (drained + length (chan_of b ref)) \<and> adds b b' \<and>
    (\<forall>x \<in> set (chan_of b ref). \<forall>e. bInFlight b (ID x) = Some e \<longrightarrow>
       back_in_queue (nack_target (bMaxRetries b) (clock (ID x)) (eMessage e)) b')"
  using assms
proof (induction clock ref drained b rule: drain.induct)
  case (1 clock ref drained b)
  show ?case
  proof (cases "chan_pop ref b")
    case None
    with "1.prems"(2) show ?thesis by (simp add: drain.simps [of clock ref drained b])
  next
    case (Some p)
    obtain msg b1 where p: "p = (msg, b1)" by (cases p)
    note pop = Some [unfolded p] and fr = chan_pop_frame [OF Some [unfolded p]]
    have ch: "chan_of b ref = msg # chan_of b1 ref" by (rule chan_pop_Some [OF pop])
    obtain err b2 where n: "Nack (clock (ID msg)) (ID msg) b1 = (err, b2)" by (metis prod.exhaust)
    have c1: "calm b1" "adds b b1" using calm_pop [OF pop] "1.prems"(1) by simp_all
    have ok1: "message_ok (nack_target (bMaxRetries b1) (clock (ID msg)) (eMessage e))" if "bInFlight b1 (ID msg) = Some e" for e
      using "1.prems"(3) that ch fr by auto
    note k = calm_Nack [OF c1(1) n ok1]
    have ch2: "chan_of b2 ref = chan_of b1 ref" using Nack_chan [OF n [symmetric]] by simp
    have mr: "bMaxRetries b2 = bMaxRetries b" using k(3) fr by (simp add: adds_def)
    have fl: "bInFlight b2 i = (if i = ID msg then None else bInFlight b i)" for i using k(4) fr by simp
    have "err \<noteq> Some ErrPanic" "drain clock ref (Suc drained) b2 = (r, b')"
      using "1.prems"(2) Some p n k(1) by (simp_all add: drain.simps [of clock ref drained b])
    note IH = "1.IH" [OF Some p [symmetric] n [symmetric] this(1) k(2) this(2)]
    have ih: "r = Some (Suc drained + length (chan_of b1 ref))" "adds b2 b'"
      "\<forall>x \<in> set (chan_of b1 ref). \<forall>e. bInFlight b2 (ID x) = Some e \<longrightarrow>
        back_in_queue (nack_target (bMaxRetries b) (clock (ID x)) (eMessage e)) b'"
      using IH "1.prems"(3) ch ch2 mr fl by auto
    have "back_in_queue (nack_target (bMaxRetries b) (clock (ID msg)) (eMessage e)) b'" if "bInFlight b (ID msg) = Some e" for e
      using back_in_queue_adds [OF k(5) ih(2)] that fr by simp
    then show ?thesis using ih fl ch adds_trans [OF c1(2) adds_trans [OF k(3) ih(2)]] by (auto split: if_splits)
  qed
qed

text \<open>C25. Disconnection: when \<open>Subscribe\<close> ends without a panic, the consumer is no longer connected
  and its channel is empty; none of the messages that were still in the channel is in flight any
  more, the other in-flight messages are untouched, and the loop reports how many it drained. On a
  broker that is not shutting down, on a disk without faults and where what is requeued fits in a
  record, it does end that way, and every drained message that was in flight has been refused: it is
  in the topic and in the log of its queue, with its retry count raised, or of the dead-letter queue.\<close>

theorem disconnect_drains:
  assumes "reg_inv (bRegistry b) (bConsumers b)" "Subscribe_close clock cid ref b = (r, b')"
  shows "(\<forall>n. r = Some n \<longrightarrow>
      connected (bRegistry b') (bConsumers b') cid = None \<and> chan_of b' ref = [] \<and> n = length (chan_of b ref) \<and>
      (\<forall>i. bInFlight b' i = (if i \<in> ID ` set (chan_of b ref) then None else bInFlight b i))) \<and>
    (calm b \<and> (\<forall>x \<in> set (chan_of b ref). \<forall>e. bInFlight b (ID x) = Some e \<longrightarrow>
        message_ok (nack_target (bMaxRetries b) (clock (ID x)) (eMessage e))) \<longrightarrow>
      r = Some (length (chan_of b ref)) \<and>
      (\<forall>x \<in> set (chan_of b ref). \<forall>e. bInFlight b (ID x) = Some e \<longrightarrow>
         back_in_queue (nack_target (bMaxRetries b) (clock (ID x)) (eMessage e)) b'))"
proof -
  let ?b = "Subscribe_deregister cid b"
  have c: "chan_of ?b ref = chan_of b ref" "bInFlight ?b = bInFlight b" "bMaxRetries ?b = bMaxRetries b" "calm ?b = calm b"
    by (simp_all add: Subscribe_deregister_def chan_of_def calm_def)
  have id: "byID (bRegistry ?b) cid = None" using Deregister_maps(1) [OF assms(1), of cid] by (simp add: Subscribe_deregister_def)
  have d: "drain clock ref 0 ?b = (r, b')" using assms(2) by (simp add: Subscribe_close_def)
  have "connected (bRegistry b') (bConsumers b') cid = None \<and> chan_of b' ref = [] \<and> n = length (chan_of b ref) \<and>
      (\<forall>i. bInFlight b' i = (if i \<in> ID ` set (chan_of b ref) then None else bInFlight b i))" if "r = Some n" for n
    using drain_result [of clock ref 0 ?b n b'] d that c id by (auto simp: connected_def)
  moreover have "r = Some (length (chan_of b ref)) \<and> (\<forall>x \<in> set (chan_of b ref). \<forall>e. bInFlight b (ID x) = Some e \<longrightarrow>
         back_in_queue (nack_target (bMaxRetries b) (clock (ID x)) (eMessage e)) b')"
    if "calm b" "\<forall>x \<in> set (chan_of b ref). \<forall>e. bInFlight b (ID x) = Some e \<longrightarrow>
        message_ok (nack_target (bMaxRetries b) (clock (ID x)) (eMessage e))"
    using drain_restores [OF _ d] that unfolding c by simp
  ultimately show ?thesis by blast
qed

text \<open>The sample broker with its message still in the consumer's channel.\<close>

definition buffered :: Broker where
  "buffered = sample_broker\<lparr>bConsumers := [0 \<mapsto> sub1\<lparr>cSend := [sample_message]\<rparr>]\<rparr>"

lemma sample_healthy: "healthy sample_manager sample_disk"
  using sample_manager_inv unfolding healthy_def
  by (auto simp: sample_disk_def sample_manager_def known_def empty_Manager_def split: if_splits intro!: exI [of _ "[]"])

lemma sample_retry_ok: "message_ok (WithRetry sample_message)"
  using sample_ascii(1,2) by (intro message_okI) (simp_all add: WithRetry_def message_size_def max_message_def)

theorem disconnect_drains_witness:
  "\<exists>b'. Subscribe_close (\<lambda>_. 9) ''c1'' 0 buffered = (Some 1, b') \<and> chan_of b' 0 = [] \<and>
    connected (bRegistry b') (bConsumers b') ''c1'' = None \<and> bInFlight b' ''00c0ffee'' = None \<and>
    WithRetry sample_message \<in> set (queued (bManager b') ''orders'')"
proof -
  obtain r b' where d: "Subscribe_close (\<lambda>_. 9) ''c1'' 0 buffered = (r, b')" by (metis prod.exhaust)
  have b: "bInFlight buffered = [''00c0ffee'' \<mapsto> sample_entry]" "chan_of buffered 0 = [sample_message]" "bMaxRetries buffered = 3"
    by (simp_all add: buffered_def chan_of_def)
  have "Registry_Register 0 (sub1\<lparr>cSend := [sample_message]\<rparr>) NewRegistry = Registry_Register 0 sub1 NewRegistry"
    by (simp add: Registry_Register_def Let_def)
  then have reg: "reg_inv (bRegistry buffered) (bConsumers buffered)"
    using Register_inv(1) [of NewRegistry Map.empty "sub1\<lparr>cSend := [sample_message]\<rparr>" 0] NewRegistry_inv
    by (simp add: buffered_def)
  have t: "nack_target 3 9 sample_message = WithRetry sample_message" by (simp add: nack_target_def)
  have "calm buffered" using sample_healthy by (simp add: calm_def buffered_def sample_manager_def empty_Manager_def)
  then have res: "r = Some 1" "back_in_queue (WithRetry sample_message) b'"
    using disconnect_drains [OF reg d, THEN conjunct2, unfolded b] sample_retry_ok t by simp_all
  moreover note disconnect_drains [OF reg d, THEN conjunct1, THEN spec, THEN mp, OF res(1)]
  ultimately show ?thesis using d by (simp add: b back_in_queue_def)
qed

section \<open>The methods and the interleaving\<close>




end
