(* ===== verification/Strconv.thy ===== *)
theory Strconv
  imports JsonText
begin

text \<open>
  The readers of the Go library that the broker's configuration goes through:
  \<open>strconv.Atoi\<close> and \<open>time.ParseDuration\<close>. \<open>int\<close> has 64 bits.
\<close>

subsection \<open>strconv.Atoi\<close>

definition signed :: "string \<Rightarrow> bool \<times> string" where
  "signed s =
     (case s of
        [] \<Rightarrow> (False, [])
      | c # cs \<Rightarrow> if c = CHR ''-'' then (True, cs) else if c = CHR ''+'' then (False, cs) else (False, s))"

definition Atoi :: "string \<Rightarrow> int option" where
  "Atoi s =
     (case signed s of
        (neg, ds) \<Rightarrow>
          (case parse_nat ds of
             None \<Rightarrow> None
           | Some n \<Rightarrow>
               (let v = (if neg then - int n else int n)
                in if - (2 ^ 63) \<le> v \<and> v < 2 ^ 63 then Some v else None)))"

lemma signed_digits: "is_digit (hd s) \<Longrightarrow> signed s = (False, s)"
  by (cases s) (auto simp: signed_def)

lemma Atoi_show_int:
  assumes "- (2 ^ 63) \<le> i" "i < 2 ^ 63"
  shows "Atoi (show_int i) = Some i"
  using assms signed_digits [OF show_nat_hd, of "nat i"]
  by (cases "i < 0") (simp_all add: Atoi_def show_int_def, simp add: signed_def)

subsection \<open>time.ParseDuration\<close>

text \<open>\<open>leadingInt\<close> fails above \<open>1<<63\<close>; its checks keep the 64-bit arithmetic from wrapping.\<close>

fun leadingInt :: "nat \<Rightarrow> string \<Rightarrow> (nat \<times> string) option" where
  "leadingInt x [] = Some (x, [])"
| "leadingInt x (c # s) =
     (if \<not> is_digit c then Some (x, c # s)
      else if 2 ^ 63 div 10 < x then None
      else (let y = x * 10 + (ord c - 48) in if 2 ^ 63 < y then None else leadingInt y s))"

fun leadingFraction :: "nat \<Rightarrow> nat \<Rightarrow> bool \<Rightarrow> string \<Rightarrow> nat \<times> nat \<times> string" where
  "leadingFraction x scale overflow [] = (x, scale, [])"
| "leadingFraction x scale overflow (c # s) =
     (if \<not> is_digit c then (x, scale, c # s)
      else if overflow \<or> (2 ^ 63 - 1) div 10 < x then leadingFraction x scale True s
      else (let y = x * 10 + (ord c - 48) in
            if 2 ^ 63 < y then leadingFraction x scale True s else leadingFraction y (scale * 10) False s))"

definition unitMap :: "string \<Rightarrow> nat option" where
  "unitMap = [''ns'' \<mapsto> 1, ''us'' \<mapsto> 1000, [CHR 0xC2, CHR 0xB5, CHR ''s''] \<mapsto> 1000, [CHR 0xCE, CHR 0xBC, CHR ''s''] \<mapsto> 1000,
     ''ms'' \<mapsto> 10 ^ 6, ''s'' \<mapsto> 10 ^ 9, ''m'' \<mapsto> 60 * 10 ^ 9, ''h'' \<mapsto> 3600 * 10 ^ 9]"

abbreviation unit_char :: "char \<Rightarrow> bool" where
  "unit_char c \<equiv> c \<noteq> CHR ''.'' \<and> \<not> is_digit c"

text \<open>
  One number with its unit: its nanoseconds and the rest of the input. \<open>fracNs f unit scale\<close> is
  \<open>uint64(float64(f) * (float64(unit) / scale))\<close>, the one place that computes in floating point.
\<close>

definition duration_item :: "(nat \<Rightarrow> nat \<Rightarrow> nat \<Rightarrow> nat) \<Rightarrow> string \<Rightarrow> (nat \<times> string) option" where
  "duration_item fracNs s =
     (case s of
        [] \<Rightarrow> None
      | c # _ \<Rightarrow>
          if unit_char c then None
          else case leadingInt 0 s of
            None \<Rightarrow> None
          | Some (v, s1) \<Rightarrow>
              (let pre = (length s1 \<noteq> length s);
                   (f, scale, s2, post) =
                     (case s1 of
                        [] \<Rightarrow> (0, 1, s1, False)
                      | d # s' \<Rightarrow>
                          if d = CHR ''.'' then
                            (case leadingFraction 0 1 False s' of (f, scale, s'') \<Rightarrow> (f, scale, s'', length s'' \<noteq> length s'))
                          else (0, 1, s1, False));
                   u = takeWhile unit_char s2;
                   s3 = dropWhile unit_char s2
               in if \<not> pre \<and> \<not> post then None
                  else if u = [] then None
                  else case unitMap u of
                    None \<Rightarrow> None
                  | Some uval \<Rightarrow>
                      if 2 ^ 63 div uval < v then None
                      else (let w = v * uval + (if 0 < f then fracNs f uval scale else 0)
                            in if 2 ^ 63 < w then None else Some (w, s3))))"

lemma leadingInt_length: "leadingInt x s = Some (v, s') \<Longrightarrow> length s' \<le> length s"
  by (induction x s rule: leadingInt.induct) (auto simp: Let_def split: if_splits)

lemma leadingFraction_length: "leadingFraction x sc ov s = (f, scale, s') \<Longrightarrow> length s' \<le> length s"
  by (induction x sc ov s rule: leadingFraction.induct) (auto simp: Let_def split: if_splits)

lemma dropWhile_shorter: "takeWhile P s \<noteq> [] \<Longrightarrow> length (dropWhile P s) < length s"
  by (cases s) (auto simp: length_dropWhile_le le_imp_less_Suc split: if_splits)

lemma duration_item_length:
  assumes "duration_item fracNs s = Some (w, s')"
  shows "length s' < length s"
proof -
  obtain v s1 where l: "leadingInt 0 s = Some (v, s1)"
    using assms by (auto simp: duration_item_def split: list.splits if_splits option.splits)
  have "\<exists>s2. length s2 \<le> length s1 \<and> s' = dropWhile unit_char s2 \<and> takeWhile unit_char s2 \<noteq> []"
  proof (cases s1)
    case Nil
    with assms l show ?thesis by (auto simp: duration_item_def Let_def split: list.splits if_splits option.splits)
  next
    case (Cons d t)
    obtain f scale t' where fr: "leadingFraction 0 1 False t = (f, scale, t')" by (metis prod.exhaust)
    show ?thesis
    proof (cases "d = CHR ''.''")
      case True
      with assms l Cons fr leadingFraction_length [OF fr] show ?thesis
        by (intro exI [of _ t']) (auto simp: duration_item_def Let_def split: list.splits if_splits option.splits)
    next
      case False
      with assms l Cons show ?thesis
        by (intro exI [of _ s1]) (auto simp: duration_item_def Let_def split: list.splits if_splits option.splits)
    qed
  qed
  then show ?thesis using leadingInt_length [OF l] dropWhile_shorter [of unit_char] by fastforce
qed

text \<open>The loop over the items; \<open>d\<close> is a \<open>uint64\<close>, whose sum may wrap before it is compared.\<close>

function duration_loop :: "(nat \<Rightarrow> nat \<Rightarrow> nat \<Rightarrow> nat) \<Rightarrow> nat \<Rightarrow> string \<Rightarrow> nat option" where
  "duration_loop fracNs d s =
     (if s = [] then Some d
      else case duration_item fracNs s of
        None \<Rightarrow> None
      | Some (v, s') \<Rightarrow>
          (let d' = (d + v) mod 2 ^ 64 in if 2 ^ 63 < d' then None else duration_loop fracNs d' s'))"
  by pat_completeness auto
termination
  by (relation "measure (\<lambda>(_, _, s). length s)") (auto simp: duration_item_length)

declare duration_loop.simps [simp del]

definition ParseDuration :: "(nat \<Rightarrow> nat \<Rightarrow> nat \<Rightarrow> nat) \<Rightarrow> string \<Rightarrow> duration option" where
  "ParseDuration fracNs str =
     (case signed str of
        (neg, s) \<Rightarrow>
          if s = ''0'' then Some 0
          else if s = [] then None
          else case duration_loop fracNs 0 s of
            None \<Rightarrow> None
          | Some d \<Rightarrow> if neg then Some (- of_nat d) else if 2 ^ 63 - 1 < d then None else Some (of_nat d))"

text \<open>A whole number of a unit is read back exactly.\<close>

lemma foldl_digits_ge: "x \<le> foldl (\<lambda>acc c. acc * 10 + (ord c - 48)) x ds"
proof (induction ds arbitrary: x)
  case (Cons c ds)
  show ?case using Cons [of "x * 10 + (ord c - 48)"] by simp
qed simp

lemma leadingInt_digits:
  assumes "list_all is_digit ds" "foldl (\<lambda>acc c. acc * 10 + (ord c - 48)) x ds \<le> 2 ^ 63"
    and "rest = [] \<or> \<not> is_digit (hd rest)"
  shows "leadingInt x (ds @ rest) = Some (foldl (\<lambda>acc c. acc * 10 + (ord c - 48)) x ds, rest)"
  using assms
proof (induction ds arbitrary: x)
  case Nil
  then show ?case by (cases rest) auto
next
  case (Cons c ds)
  let ?y = "x * 10 + (ord c - 48)"
  have "?y \<le> 2 ^ 63" using foldl_digits_ge [of ?y ds] Cons.prems(2) by simp
  then have "x \<le> 2 ^ 63 div 10" by simp
  with Cons \<open>?y \<le> 2 ^ 63\<close> show ?case by (simp add: Let_def)
qed

lemma duration_item_whole:
  assumes "leadingInt 0 s = Some (v, u)" "is_digit (hd s)" "length u < length s" "u \<noteq> []" "\<forall>c \<in> set u. unit_char c"
    and "unitMap u = Some m" "v \<le> 2 ^ 63 div m" "v * m \<le> 2 ^ 63"
  shows "duration_item fracNs s = Some (v * m, [])"
proof -
  have w: "takeWhile unit_char u = u" "dropWhile unit_char u = []"
    using assms(5) by (simp_all only: takeWhile_eq_all_conv dropWhile_eq_Nil_conv)
  obtain c t where "s = c # t" using assms(3) by (cases s) auto
  moreover obtain d t' where u: "u = d # t'" "d \<noteq> CHR ''.''" using assms(4,5) by (cases u) auto
  moreover have "\<not> unit_char c" using assms(2) \<open>s = c # t\<close> by simp
  ultimately show ?thesis
    unfolding duration_item_def using assms(1,3,6-8) w by (simp add: Let_def)
qed

lemma ParseDuration_whole:
  assumes "unitMap u = Some m" "k * m < 2 ^ 63"
  shows "ParseDuration fracNs (show_nat k @ u) = Some (of_nat (k * m))"
proof -
  have u: "u \<noteq> []" "\<forall>c \<in> set u. unit_char c" "0 < m" "hd u \<noteq> CHR ''.''"
    using assms(1) by (auto simp: unitMap_def split: if_splits)
  have k: "k \<le> 2 ^ 63"
  proof -
    have "k * 1 \<le> k * m" using u(3) by (intro mult_le_mono2) simp
    then show ?thesis using assms(2) by linarith
  qed
  have hd: "is_digit (hd (show_nat k @ u))" using show_nat_hd [of k] by simp
  have "leadingInt 0 (show_nat k @ u) = Some (k, u)"
    using leadingInt_digits [of "show_nat k" 0 u] show_nat_digits [of k] k digits_val_show_nat [of k] u(1,2)
    by (cases u) (auto simp: digits_val_def)
  moreover have "k \<le> 2 ^ 63 div m" using assms(2) u(3) by (simp add: less_eq_div_iff_mult_less_eq)
  moreover have "length u < length (show_nat k @ u)" by simp
  ultimately have "duration_item fracNs (show_nat k @ u) = Some (k * m, [])"
    using duration_item_whole [OF _ hd _ u(1,2) assms(1)] assms(2) by simp
  moreover have "(k * m) mod 2 ^ 64 = k * m" using assms(2) by simp
  ultimately have "duration_loop fracNs 0 (show_nat k @ u) = Some (k * m)"
    using assms(2) by (subst duration_loop.simps) (simp add: duration_loop.simps Let_def)
  moreover have "show_nat k @ u \<noteq> ''0''" using u(1,2) by (cases u rule: rev_cases) auto
  ultimately show ?thesis using signed_digits [OF hd] assms(2) by (simp add: ParseDuration_def)
qed

text \<open>A number without a unit is refused, except zero.\<close>

lemma leadingInt_all_digits: "list_all is_digit ds \<Longrightarrow> leadingInt x ds = Some (v, rest) \<Longrightarrow> rest = []"
  by (induction ds arbitrary: x) (auto simp: Let_def split: if_splits)

lemma ParseDuration_unitless:
  assumes "0 < k"
  shows "ParseDuration fracNs (show_nat k) = None"
proof -
  have hd: "is_digit (hd (show_nat k))" using show_nat_hd [of k] .
  have "duration_item fracNs (show_nat k) = None"
  proof (cases "leadingInt 0 (show_nat k)")
    case (Some r)
    then obtain v where "leadingInt 0 (show_nat k) = Some (v, [])"
      using leadingInt_all_digits [OF show_nat_digits [of k]] by (cases r) auto
    then show ?thesis by (auto simp: duration_item_def Let_def split: list.splits)
  qed (auto simp: duration_item_def split: list.splits)
  then have "duration_loop fracNs 0 (show_nat k) = None" by (subst duration_loop.simps) simp
  moreover have "show_nat k \<noteq> ''0''"
  proof
    assume "show_nat k = ''0''"
    then have "digits_val (show_nat k) = 0" by (simp add: digits_val_def)
    then show False using digits_val_show_nat [of k] assms by simp
  qed
  ultimately show ?thesis using signed_digits [OF hd] by (simp add: ParseDuration_def)
qed

lemma Atoi_out_of_range:
  assumes "i < - (2 ^ 63) \<or> 2 ^ 63 \<le> i"
  shows "Atoi (show_int i) = None"
proof (cases "i < 0")
  case True
  then show ?thesis using assms by (simp add: Atoi_def show_int_def signed_def)
next
  case False
  then show ?thesis using assms signed_digits [OF show_nat_hd, of "nat i"] by (simp add: Atoi_def show_int_def)
qed

end
