(* ===== verification/BrokerMain.thy ===== *)
theory BrokerMain
  imports Durability Strconv
begin

text \<open>
  Command \<open>cmd/broker\<close>: the configuration from the environment, the start of the broker, and its
  shutdown by a signal. \<open>os.Getenv\<close> is a function that gives the empty string for an unset
  variable. \<open>main\<close> and its signal handler are two goroutines beside those of the broker; the gRPC
  server is known by the contract of \<open>Serve\<close>, \<open>GracefulStop\<close> and \<open>Stop\<close>.
\<close>

subsection \<open>Configuration\<close>

type_synonym environ = "string \<Rightarrow> string"

definition envOr :: "environ \<Rightarrow> string \<Rightarrow> string \<Rightarrow> string" where
  "envOr env key fallback = (if env key \<noteq> [] then env key else fallback)"

definition envOrInt :: "environ \<Rightarrow> string \<Rightarrow> int \<Rightarrow> int" where
  "envOrInt env key fallback =
     (if env key \<noteq> [] then (case Atoi (env key) of Some n \<Rightarrow> n | None \<Rightarrow> fallback) else fallback)"

definition envOrDuration :: "(nat \<Rightarrow> nat \<Rightarrow> nat \<Rightarrow> nat) \<Rightarrow> environ \<Rightarrow> string \<Rightarrow> duration \<Rightarrow> duration" where
  "envOrDuration fracNs env key fallback =
     (if env key \<noteq> [] then (case ParseDuration fracNs (env key) of Some d \<Rightarrow> d | None \<Rightarrow> fallback) else fallback)"

definition Second :: duration where "Second = 1000000000"
definition Hour :: duration where "Hour = 3600 * Second"

record MainConfig =
  walDir :: string
  listenAddr :: string
  maxRetries :: int32
  dispatchTimeout :: duration
  scanInterval :: duration
  dlqTTL :: duration
  dlqTTLScanInterval :: duration
  shutdownTimeout :: duration

definition read_config :: "(nat \<Rightarrow> nat \<Rightarrow> nat \<Rightarrow> nat) \<Rightarrow> environ \<Rightarrow> MainConfig" where
  "read_config fracNs env =
     \<lparr>walDir = envOr env ''WAL_DIR'' ''data/wal'',
      listenAddr = envOr env ''LISTEN_ADDR'' '':50051'',
      maxRetries = word_of_int (envOrInt env ''MAX_RETRIES'' 3),
      dispatchTimeout = envOrDuration fracNs env ''DISPATCH_TIMEOUT'' (30 * Second),
      scanInterval = envOrDuration fracNs env ''SCAN_INTERVAL'' (5 * Second),
      dlqTTL = envOrDuration fracNs env ''DLQ_TTL'' (30 * 24 * Hour),
      dlqTTLScanInterval = envOrDuration fracNs env ''DLQ_TTL_SCAN_INTERVAL'' Hour,
      shutdownTimeout = envOrDuration fracNs env ''SHUTDOWN_TIMEOUT'' (15 * Second)\<rparr>"

subsection \<open>Start\<close>

text \<open>\<open>log.Fatalf\<close> with its first word.\<close>

record fatal =
  fatalAt :: string
  fatalErr :: error

record Started =
  stSys :: System
  stScanner :: retry_Scanner
  stDlqScanner :: dlq_Scanner

definition main_start :: "MainConfig \<Rightarrow> (string \<times> bool) list \<Rightarrow> error option \<Rightarrow> world \<Rightarrow> (fatal + Started) \<times> world" where
  "main_start cfg entries listenErr w =
     (case NewManager (walDir cfg) entries w of
        (Inl err, w') \<Rightarrow> (Inl \<lparr>fatalAt = ''queue manager'', fatalErr = err\<rparr>, w')
      | (Inr manager, w') \<Rightarrow>
          (case listenErr of
             Some err \<Rightarrow> (Inl \<lparr>fatalAt = ''listen'', fatalErr = err\<rparr>, w')
           | None \<Rightarrow>
               (Inr \<lparr>stSys = init_system w' manager (maxRetries cfg),
                     stScanner = retry_NewScanner (scanInterval cfg) (dispatchTimeout cfg),
                     stDlqScanner = dlq_NewScanner (dlqTTL cfg) (dlqTTLScanInterval cfg)\<rparr>, w')))"

subsection \<open>Shutdown\<close>

text \<open>
  The signal handler: waiting for a signal; after \<open>BeginShutdown\<close>; in the \<open>select\<close> on the goroutine it
  started for \<open>GracefulStop\<close>; in \<open>WaitDrained\<close>, which it entered at \<open>now\<close> and where it has made the
  observations \<open>obs\<close> (a clock reading and the size of the in-flight map each); before \<open>cancel\<close>, with
  the answer; finished. The main goroutine: in \<open>Serve\<close>; returned from it, before the deferred
  \<open>manager.Close\<close>; before the deferred \<open>cancel\<close>; exited, which ends the process. When \<open>Serve\<close>
  returns an error, \<open>log.Fatalf\<close> ends it without the deferred calls.
\<close>

datatype handler = HWait | HBegun | HStopping | HDraining time "(time \<times> nat) list" | HCancel bool | HFinished

datatype main_pc = MServing | MReturned | MClosed | MExited | MFatal

record Process =
  pSys :: System
  pHandler :: handler
  pMain :: main_pc
  pShutdownTimeout :: duration

fun stop_called :: "handler \<Rightarrow> bool" where
  "stop_called HWait = False"
| "stop_called HBegun = False"
| "stop_called _ = True"

definition alive :: "Process \<Rightarrow> bool" where
  "alive p \<longleftrightarrow> pMain p \<noteq> MExited \<and> pMain p \<noteq> MFatal"

text \<open>
  The steps of the process: those of the broker, of the handler and of \<open>main\<close>. By its documentation
  \<open>Serve\<close> returns nil only when \<open>GracefulStop\<close> or \<open>Stop\<close> has been called; it may return at any time
  from then on, also while the handler is still in its \<open>select\<close>. The handler leaves the \<open>select\<close> when
  \<open>GracefulStop\<close> is done, or after the timeout and a \<open>Stop\<close>; the model does not distinguish the two.
\<close>

inductive main_step :: "Process \<Rightarrow> label list \<Rightarrow> Process \<Rightarrow> bool" where
  broker:
    "alive p \<Longrightarrow> sys_step (pSys p) ls s \<Longrightarrow> mClosing (yM s) = mClosing (yM (pSys p)) \<Longrightarrow>
     yCtxDone s = yCtxDone (pSys p) \<Longrightarrow> main_step p ls (p\<lparr>pSys := s\<rparr>)"
| signal:
    "alive p \<Longrightarrow> pHandler p = HWait \<Longrightarrow>
     main_step p [] (p\<lparr>pHandler := HBegun, pSys := with_manager (BeginShutdown (yM (pSys p))) (yW (pSys p)) (pSys p)\<rparr>)"
| stopping:
    "alive p \<Longrightarrow> pHandler p = HBegun \<Longrightarrow> main_step p [] (p\<lparr>pHandler := HStopping\<rparr>)"
| stopped:
    "alive p \<Longrightarrow> pHandler p = HStopping \<Longrightarrow> main_step p [] (p\<lparr>pHandler := HDraining now []\<rparr>)"
| poll:
    "alive p \<Longrightarrow> pHandler p = HDraining now obs \<Longrightarrow> WaitDrained (pShutdownTimeout p) now obs = None \<Longrightarrow>
     main_step p [] (p\<lparr>pHandler := HDraining now (obs @ [(t, card (dom (bInFlight (yB (pSys p)))))])\<rparr>)"
| drained:
    "alive p \<Longrightarrow> pHandler p = HDraining now obs \<Longrightarrow> WaitDrained (pShutdownTimeout p) now obs = Some answer \<Longrightarrow>
     main_step p [] (p\<lparr>pHandler := HCancel answer\<rparr>)"
| cancel_handler:
    "alive p \<Longrightarrow> pHandler p = HCancel answer \<Longrightarrow>
     main_step p [] (p\<lparr>pHandler := HFinished, pSys := (pSys p)\<lparr>yCtxDone := True\<rparr>\<rparr>)"
| serve_returns:
    "pMain p = MServing \<Longrightarrow> stop_called (pHandler p) \<Longrightarrow> main_step p [] (p\<lparr>pMain := MReturned\<rparr>)"
| serve_fails:
    "pMain p = MServing \<Longrightarrow> main_step p [] (p\<lparr>pMain := MFatal\<rparr>)"
| close_manager:
    "pMain p = MReturned \<Longrightarrow> range_order order (mWriters (yM (pSys p))) \<Longrightarrow>
     Manager_Close order (yM (pSys p)) (yW (pSys p)) = (err, m, w) \<Longrightarrow>
     main_step p [] (p\<lparr>pMain := MClosed, pSys := with_manager m w (pSys p)\<rparr>)"
| cancel_main:
    "pMain p = MClosed \<Longrightarrow> main_step p [] (p\<lparr>pMain := MExited, pSys := (pSys p)\<lparr>yCtxDone := True\<rparr>\<rparr>)"

abbreviation main_runs :: "Process \<Rightarrow> label list \<Rightarrow> Process \<Rightarrow> bool" where
  "main_runs \<equiv> trace main_step"

lemmas main1 = trace1 [of main_step]

definition process :: "MainConfig \<Rightarrow> Started \<Rightarrow> Process" where
  "process cfg st = \<lparr>pSys = stSys st, pHandler = HWait, pMain = MServing, pShutdownTimeout = shutdownTimeout cfg\<rparr>"

subsection \<open>Order of the shutdown\<close>

text \<open>The messages of calls of \<open>Enqueue\<close> that have passed the check of \<open>closing\<close>.\<close>

fun enq_message :: "enq \<Rightarrow> Message" where
  "enq_message (EOpen c msg) = msg"
| "enq_message (EWrite c msg) = msg"
| "enq_message (EPush msg) = msg"

definition pending_enq :: "System \<Rightarrow> Message set" where
  "pending_enq s = enq_message ` set (yEnq s)"

lemma pending_enq_cong: "yEnq s' = yEnq s \<Longrightarrow> pending_enq s' = pending_enq s"
  by (simp add: pending_enq_def)

text \<open>A step of the broker after \<open>BeginShutdown\<close> accepts and requeues only for such calls, and starts no
  new one.\<close>

lemma closing_finishes:
  assumes "sys_step s ls s'" "mClosing (yM s)"
  shows "logged ls \<subseteq> pending_enq s \<and> pending_enq s' \<subseteq> pending_enq s"
  using assms
proof (cases rule: sys_step.cases)
  case (enq_open es c msg es' err m w)
  then show ?thesis by (auto simp: pending_enq_def split: option.splits)
next
  case (enq_write es c msg es' err w)
  then show ?thesis by (auto simp: pending_enq_def split: option.splits)
qed (auto simp: pending_enq_def assms(2))

definition shutdown_inv :: "Process \<Rightarrow> bool" where
  "shutdown_inv p \<longleftrightarrow>
     (mClosing (yM (pSys p)) \<longleftrightarrow> pHandler p \<noteq> HWait) \<and>
     (yCtxDone (pSys p) \<longrightarrow> pHandler p = HFinished \<or> pMain p = MExited)"

lemma close_writers_closing: "close_writers qs fe m w = (err, m', w') \<Longrightarrow> mClosing m' = mClosing m"
proof (induction qs arbitrary: fe m w)
  case (Cons q qs)
  then show ?case by (auto split: option.splits prod.splits)
qed simp

lemma Manager_Close_closing: "Manager_Close order m w = (err, m', w') \<Longrightarrow> mClosing m' = mClosing m"
  by (auto simp: Manager_Close_def dest: close_writers_closing)

lemma shutdown_inv_step:
  assumes "main_step p ls p'" "shutdown_inv p"
  shows "shutdown_inv p'"
    and "pHandler p \<noteq> HWait \<Longrightarrow> pHandler p' \<noteq> HWait \<and> logged ls \<subseteq> pending_enq (pSys p) \<and>
      pending_enq (pSys p') \<subseteq> pending_enq (pSys p)"
proof -
  have "shutdown_inv p' \<and> (pHandler p \<noteq> HWait \<longrightarrow> pHandler p' \<noteq> HWait \<and> logged ls \<subseteq> pending_enq (pSys p) \<and>
      pending_enq (pSys p') \<subseteq> pending_enq (pSys p))"
    using assms
  proof (cases rule: main_step.cases)
    case (broker s)
    then show ?thesis using assms(2) closing_finishes [OF broker(3)] by (auto simp: shutdown_inv_def)
  next
    case (close_manager order err m w)
    then show ?thesis using assms(2) Manager_Close_closing [OF close_manager(5)]
      by (auto simp: shutdown_inv_def pending_enq_def)
  qed (auto simp: shutdown_inv_def BeginShutdown_def pending_enq_def)
  then show "shutdown_inv p'" "pHandler p \<noteq> HWait \<Longrightarrow> pHandler p' \<noteq> HWait \<and> logged ls \<subseteq> pending_enq (pSys p) \<and>
      pending_enq (pSys p') \<subseteq> pending_enq (pSys p)" by blast+
qed

text \<open>As long as \<open>main\<close> has not closed the manager, the process is a run of the broker: the handler's
  calls are its shutdown and cancellation steps.\<close>

lemma main_step_sys:
  assumes "main_step p ls p'" "pMain p' = MServing \<or> pMain p' = MReturned"
  shows "runs (pSys p) ls (pSys p') \<and> (pMain p = MServing \<or> pMain p = MReturned)"
  using assms
proof (cases rule: main_step.cases)
  case (broker s)
  then show ?thesis using assms(2) run1 by auto
next
  case signal
  then show ?thesis using assms(2) run1 [OF shutdown [of "pSys p"]] by simp
next
  case (cancel_handler answer)
  then show ?thesis using assms(2) run1 [OF cancel [of "pSys p"]] by simp
qed auto

text \<open>An invariant of runs: \<open>begun\<close> is the set of calls that were past the check when the run started,
  if the shutdown had begun then.\<close>

definition shutdown_trace :: "System \<Rightarrow> Message set option \<Rightarrow> label list \<Rightarrow> Process \<Rightarrow> bool" where
  "shutdown_trace s0 begun ls p \<longleftrightarrow> shutdown_inv p \<and>
     (\<forall>M. begun = Some M \<longrightarrow> pHandler p \<noteq> HWait \<and> logged ls \<subseteq> M \<and> pending_enq (pSys p) \<subseteq> M) \<and>
     (pMain p = MServing \<or> pMain p = MReturned \<longrightarrow> runs s0 ls (pSys p))"

interpretation shut: trace_invariant main_step "shutdown_trace s0 begun" for s0 begun
proof
  fix ls p ls' p' assume I: "shutdown_trace s0 begun ls p" and st: "main_step p ls' p'"
  then have inv: "shutdown_inv p" by (simp add: shutdown_trace_def)
  have "runs s0 (ls @ ls') (pSys p')" if "pMain p' = MServing \<or> pMain p' = MReturned"
    using main_step_sys [OF st that] I trace_trans by (auto simp: shutdown_trace_def)
  moreover have "pHandler p' \<noteq> HWait \<and> logged (ls @ ls') \<subseteq> M \<and> pending_enq (pSys p') \<subseteq> M" if "begun = Some M" for M
    using shutdown_inv_step(2) [OF st inv] I that unfolding shutdown_trace_def logged_append by blast
  ultimately show "shutdown_trace s0 begun (ls @ ls') p'"
    using shutdown_inv_step(1) [OF st inv] by (simp add: shutdown_trace_def)
qed

lemma init_entries_closing: "init_entries es m w = (err, m', w') \<Longrightarrow> mClosing m' = mClosing m"
proof (induction es arbitrary: m w)
  case (Cons e es)
  obtain n d where e: "e = (n, d)" by (metis prod.exhaust)
  obtain err1 m1 w1 where i: "initQueue (TrimSuffix n ''.wal'') m w = (err1, m1, w1)" by (metis prod.exhaust)
  show ?case using Cons e i initQueue_topics(2) [OF i] by (auto simp: Let_def split: if_splits option.splits)
qed simp

lemma main_start_inv:
  assumes "main_start cfg entries listenErr w = (Inr st, w')"
  shows "shutdown_inv (process cfg st)"
proof -
  obtain m w1 where m: "NewManager (walDir cfg) entries w = (Inr m, w1)" "stSys st = init_system w1 m (maxRetries cfg)"
    using assms by (auto simp: main_start_def split: prod.splits sum.splits option.splits)
  then have "\<not> mClosing m"
    by (auto simp: NewManager_def Let_def empty_Manager_def dest!: init_entries_closing split: if_splits prod.splits option.splits)
  with m(2) show ?thesis by (simp add: shutdown_inv_def process_def init_system_def NewAckManager_def)
qed

text \<open>\<open>Manager.Close\<close> leaves no writer open.\<close>

definition open_file :: "fhandle \<Rightarrow> bool" where
  "open_file f \<longleftrightarrow> (\<exists>p. f = FOpen p)"

lemma Writer_Close_closed: "Writer_Close wr w = ((err, wr'), w') \<Longrightarrow> \<not> open_file (wFile wr')"
  by (auto simp: Writer_Close_def f_Close_def open_file_def split: fhandle.splits)

lemma close_writers_closed:
  assumes "close_writers qs fe m w = (err, m', w')" "mWriters m' q = Some wr" "open_file (wFile wr)"
  shows "q \<notin> set qs \<and> mWriters m q = Some wr"
  using assms(1)
proof (induction qs arbitrary: fe m w)
  case Nil
  then show ?case using assms(2) by simp
next
  case (Cons p qs)
  show ?case
  proof (cases "mWriters m p")
    case None
    with Cons show ?thesis by auto
  next
    case (Some wp)
    obtain e wp' w1 where c: "Writer_Close wp w = ((e, wp'), w1)" by (metis prod.exhaust)
    with Cons Some have "q \<notin> set qs \<and> ((mWriters m)(p \<mapsto> wp')) q = Some wr" by fastforce
    then show ?thesis using Writer_Close_closed [OF c] assms(3) by (auto split: if_splits)
  qed
qed

lemma Manager_Close_closed:
  assumes "range_order order (mWriters m)" "Manager_Close order m w = (err, m', w')" "mWriters m' q = Some wr"
  shows "\<not> open_file (wFile wr)"
proof
  assume "open_file (wFile wr)"
  with close_writers_closed [of order None _ w err m' w'] assms(2,3) have "q \<notin> set order \<and> mWriters m q = Some wr"
    by (fastforce simp: Manager_Close_def)
  then show False using range_orderD(3) [OF assms(1), of q] by auto
qed

lemma closed_tombstone:
  assumes "\<And>wr. mWriters m q = Some wr \<Longrightarrow> \<not> open_file (wFile wr)"
  shows "\<exists>e. Manager_WriteTombstone i q m w = (Some e, w)"
proof (cases "mWriters m q")
  case (Some wr)
  with assms have "wFile wr = FNil \<or> wFile wr = FClosed" by (cases "wFile wr") (auto simp: open_file_def)
  with Some show ?thesis
    by (auto simp: Manager_WriteTombstone_def WriteTombstone_def append_record_def f_Write_def split: sum.splits)
qed (simp add: Manager_WriteTombstone_def)


subsection \<open>Properties\<close>







text \<open>C32. Order of the shutdown, in every interleaving of the process: until \<open>main\<close> closes the manager
  the process is a run of the broker; once the signal handler has called \<open>BeginShutdown\<close> the manager
  stays closing, and the only messages that are still accepted or requeued are those of calls that
  were already past the check of \<open>closing\<close>; and the context is cancelled only when the handler has
  finished its wait or \<open>main\<close> is at its end.\<close>

theorem shutdown_order:
  assumes "main_start cfg entries listenErr w = (Inr st, w')"
    and "main_runs (process cfg st) ls p" "main_runs p ls' p'"
  shows "(pMain p = MServing \<or> pMain p = MReturned \<longrightarrow> runs (stSys st) ls (pSys p)) \<and>
    (pHandler p \<noteq> HWait \<longrightarrow> mClosing (bManager (yB (pSys p'))) \<and> logged ls' \<subseteq> enq_message ` set (yEnq (pSys p))) \<and>
    (yCtxDone (pSys p) \<longrightarrow> pHandler p = HFinished \<or> pMain p = MExited)"
proof -
  have "shutdown_trace (stSys st) None [] (process cfg st)"
    using main_start_inv [OF assms(1)] by (simp add: shutdown_trace_def process_def trace_refl)
  then have p: "shutdown_trace (stSys st) None ls p" by (rule shut.trace_I [OF assms(2)])
  have "mClosing (yM (pSys p')) \<and> logged ls' \<subseteq> pending_enq (pSys p)" if "pHandler p \<noteq> HWait"
  proof -
    have "shutdown_trace (pSys p) (Some (pending_enq (pSys p))) [] p" using p that by (simp add: shutdown_trace_def trace_refl)
    then have "shutdown_trace (pSys p) (Some (pending_enq (pSys p))) ls' p'" by (rule shut.trace_I [OF assms(3)])
    then show ?thesis by (simp add: shutdown_trace_def shutdown_inv_def)
  qed
  with p show ?thesis by (simp add: shutdown_trace_def shutdown_inv_def pending_enq_def)
qed

text \<open>A broker on an empty directory, started with the default configuration, and one more with a
  message in flight whose handler is waiting for it.\<close>

abbreviation default_config :: MainConfig where
  "default_config \<equiv> read_config (\<lambda>f u s. f * u div s) (\<lambda>_. [])"

definition sample_started :: Started where
  "sample_started = \<lparr>stSys = init_system \<lparr>files = Map.empty, faults = []\<rparr> (empty_Manager ''data/wal'') 3,
     stScanner = retry_NewScanner (5 * Second) (30 * Second), stDlqScanner = dlq_NewScanner (30 * 24 * Hour) Hour\<rparr>"

lemma sample_main: "main_start default_config [] None \<lparr>files = Map.empty, faults = []\<rparr> =
    (Inr sample_started, \<lparr>files = Map.empty, faults = []\<rparr>)"
  by (simp add: main_start_def NewManager_def read_config_def envOr_def envOrInt_def envOrDuration_def sample_started_def)

definition sample_draining :: Process where
  "sample_draining = \<lparr>pSys = \<lparr>yServer = \<lparr>sBroker = sample_broker, sStarted = {}, sDisp = Map.empty\<rparr>, yTasks = [], yEnq = [], yExp = [], yCtxDone = False\<rparr>,
     pHandler = HDraining 0 [(1, 1)], pMain = MServing, pShutdownTimeout = 15 * Second\<rparr>"

text \<open>A publisher that has passed the check when the signal comes.\<close>

lemma sample_late_publish:
  obtains p p' where "main_runs (process default_config sample_started) [] p" "pHandler p = HBegun"
    "main_runs p [Accepted (published sample_id 5 sample_request)] p'"
proof -
  let ?p0 = "process default_config sample_started" and ?x = "published sample_id 5 sample_request"
  let ?s0 = "pSys ?p0"
  let ?s1 = "with_enq [EOpen ByPublish ?x] ?s0"
  let ?s2 = "with_manager (BeginShutdown (yM ?s1)) (yW ?s1) ?s1"
  let ?p2 = "?p0\<lparr>pSys := ?s2, pHandler := HBegun\<rparr>"
  have y: "yEnq ?s0 = []" "yM ?s0 = empty_Manager ''data/wal''" "yW ?s0 = \<lparr>files = Map.empty, faults = []\<rparr>"
    by (simp_all add: process_def sample_started_def init_system_def NewAckManager_def)
  have "sys_step ?s0 [] ?s1"
    using publish [of ?s0 "[1, 2, 3, 4, 5, 6, 7, 8]" 5 sample_request] y by (simp add: empty_Manager_def)
  then have "main_step ?p0 [] (?p0\<lparr>pSys := ?s1\<rparr>)" by (intro broker) (simp_all add: process_def alive_def)
  moreover have "main_step (?p0\<lparr>pSys := ?s1\<rparr>) [] ?p2"
    using signal [of "?p0\<lparr>pSys := ?s1\<rparr>"] by (simp add: process_def alive_def)
  ultimately have r2: "main_runs ?p0 [] ?p2" using trace_append [OF main1 main1] by fastforce
  have h: "healthy (yM ?s2) (yW ?s2)"
  proof -
    have "mgr_inv (empty_Manager ''data/wal'')" by (rule mgr_invI) (simp add: empty_Manager_def)
    then show ?thesis using y
      by (simp add: healthy_def mgr_inv_def known_def BeginShutdown_def empty_Manager_def)
  qed
  obtain err m w where i: "initQueue (Queue ?x) (yM ?s2) (yW ?s2) = (err, m, w)" by (metis prod.exhaust)
  note hi = healthy_initQueue [OF h i]
  let ?s3 = "with_enq [EWrite ByPublish ?x] (with_manager m w ?s2)"
  have s3: "sys_step ?s2 [] ?s3" using enq_open [of ?s2 "[]" ByPublish ?x "[]" err m w] i hi by simp
  obtain err' w' where wr: "Enqueue_write ?x (yM ?s3) (yW ?s3) = (err', w')" by (metis prod.exhaust)
  have "err' = None" using healthy_write(1) [of "yM ?s3" "yW ?s3" ?x err' w'] hi wr sample_request_ok by simp
  then have s4: "sys_step ?s3 [Accepted ?x] (with_enq [EPush ?x] (with_manager m w' ?s3))"
    using enq_write [of ?s3 "[]" ByPublish ?x "[]" err' w'] wr by simp
  let ?p4 = "?p2\<lparr>pSys := with_enq [EPush ?x] (with_manager m w' ?s3)\<rparr>"
  have "main_step ?p2 [] (?p2\<lparr>pSys := ?s3\<rparr>)" using s3 hi by (intro broker) (simp_all add: process_def alive_def)
  moreover have "main_step (?p2\<lparr>pSys := ?s3\<rparr>) [Accepted ?x] ?p4"
    using broker [of "?p2\<lparr>pSys := ?s3\<rparr>" "[Accepted ?x]" "with_enq [EPush ?x] (with_manager m w' ?s3)"] s4
    by (simp add: process_def alive_def)
  ultimately have r4: "main_runs ?p2 [Accepted ?x] ?p4" using trace_append [OF main1 main1] by fastforce
  have "pHandler ?p2 = HBegun" by simp
  from that [OF r2 this r4] show ?thesis .
qed

theorem shutdown_order_witness:
  "\<exists>p p'. main_runs (process default_config sample_started) [] p \<and> pHandler p = HBegun \<and>
     main_runs p [Accepted (published sample_id 5 sample_request)] p' \<and> mClosing (bManager (yB (pSys p'))) \<and>
     published sample_id 5 sample_request \<in> enq_message ` set (yEnq (pSys p))"
proof -
  obtain p p' where r: "main_runs (process default_config sample_started) [] p" "pHandler p = HBegun"
    "main_runs p [Accepted (published sample_id 5 sample_request)] p'" by (rule sample_late_publish)
  from shutdown_order [OF sample_main r(1,3)] r show ?thesis by auto
qed

text \<open>C38. The deferred \<open>manager.Close\<close> does not wait for \<open>WaitDrained\<close>: while the handler is still
  polling, \<open>Serve\<close> may have returned, and two steps of \<open>main\<close> close every log with the in-flight
  messages as they were. From then on no acknowledgement can be recorded.\<close>

theorem wal_closed_before_drained:
  assumes "pMain p = MServing" "pHandler p = HDraining now obs" "range_order order (mWriters (bManager (yB (pSys p))))"
  shows "\<exists>p'. main_runs p [] p' \<and> pMain p' = MClosed \<and> pHandler p' = HDraining now obs \<and>
    bInFlight (yB (pSys p')) = bInFlight (yB (pSys p)) \<and>
    (\<forall>i q. \<exists>e. Manager_WriteTombstone i q (bManager (yB (pSys p'))) (bWorld (yB (pSys p'))) =
       (Some e, bWorld (yB (pSys p'))))"
proof -
  obtain err m w where c: "Manager_Close order (yM (pSys p)) (yW (pSys p)) = (err, m, w)" by (metis prod.exhaust)
  let ?p1 = "p\<lparr>pMain := MReturned\<rparr>" and ?p2 = "p\<lparr>pMain := MClosed, pSys := with_manager m w (pSys p)\<rparr>"
  have "main_step p [] ?p1" using serve_returns [OF assms(1)] assms(2) by simp
  moreover have "main_step ?p1 [] ?p2" using close_manager [of ?p1 order err m w] assms(3) c by simp
  ultimately have "main_runs p [] ?p2" using trace_append [OF main1 main1, of p "[]" ?p1 "[]" ?p2 "[]"] by simp
  moreover have "\<exists>e. Manager_WriteTombstone i q m w = (Some e, w)" for i q
    by (rule closed_tombstone) (use Manager_Close_closed [OF assms(3) c] in blast)
  ultimately show ?thesis using assms(2) by (intro exI [of _ ?p2]) simp
qed

theorem wal_closed_before_drained_witness:
  "\<exists>p'. main_runs sample_draining [] p' \<and> pMain p' = MClosed \<and> bInFlight (yB (pSys p')) ''00c0ffee'' = Some sample_entry \<and>
    (\<exists>e. Manager_WriteTombstone ''00c0ffee'' ''orders'' (bManager (yB (pSys p'))) (bWorld (yB (pSys p'))) =
       (Some e, bWorld (yB (pSys p'))))"
proof -
  have "range_order [''orders''] (mWriters (yM (pSys sample_draining)))"
    by (auto simp: range_order_def sample_draining_def sample_manager_def)
  from wal_closed_before_drained [OF _ _ this, of 0 "[(1, 1)]"] show ?thesis
    by (auto simp: sample_draining_def)
qed

end
