(* ===== verification/Clients.thy ===== *)
theory Clients
  imports OutcomeProps Strconv
begin

text \<open>
  Commands \<open>cmd/publisher\<close> and \<open>cmd/consumer\<close>: the two command line clients. The generated gRPC
  stubs are parameters: what a call returns, and what the stream delivers. Terminal output and
  pauses are left out, except for the slice expression in what the consumer prints.
\<close>

subsection \<open>dialWithRetry\<close>

text \<open>\<open>newClient i\<close> is what the i-th call of \<open>grpc.NewClient\<close> returns; the loop has \<open>n\<close> tries left.\<close>

fun dial_loop :: "(nat \<Rightarrow> error + 'conn) \<Rightarrow> nat \<Rightarrow> nat \<Rightarrow> error option \<Rightarrow> error option + 'conn" where
  "dial_loop newClient i 0 err = Inl err"
| "dial_loop newClient i (Suc n) err =
     (case newClient i of Inr conn \<Rightarrow> Inr conn | Inl e \<Rightarrow> dial_loop newClient (Suc i) n (Some e))"

definition dialWithRetry :: "(nat \<Rightarrow> error + 'conn) \<Rightarrow> error option + 'conn" where
  "dialWithRetry newClient = dial_loop newClient 0 10 None"

lemma dial_loop_first:
  "j < n \<Longrightarrow> newClient (i + j) = Inr c \<Longrightarrow> \<forall>k < j. \<exists>e. newClient (i + k) = Inl e \<Longrightarrow> dial_loop newClient i n err = Inr c"
proof (induction j arbitrary: i n err)
  case 0
  then show ?case by (cases n) simp_all
next
  case (Suc j)
  obtain n' e where "n = Suc n'" "newClient i = Inl e" using Suc.prems by (cases n) fastforce+
  moreover have "\<forall>k < j. \<exists>e. newClient (Suc i + k) = Inl e" using Suc.prems(3) by fastforce
  ultimately show ?case using Suc.IH [of n' "Suc i" "Some e"] Suc.prems by simp
qed

lemma dial_loop_fails: "\<forall>k < n. newClient (i + k) = Inl (f k) \<Longrightarrow> 0 < n \<Longrightarrow> dial_loop newClient i n err = Inl (Some (f (n - 1)))"
proof (induction n arbitrary: i err f)
  case (Suc n)
  show ?case
  proof (cases n)
    case 0
    then show ?thesis using Suc.prems(1) by simp
  next
    case (Suc m)
    have "\<forall>k < n. newClient (Suc i + k) = Inl (f (Suc k))" using Suc.prems(1) by auto
    with Suc.IH [of "Suc i" "f \<circ> Suc"] Suc.prems Suc show ?thesis by (auto simp: Suc)
  qed
qed simp

subsection \<open>The publisher\<close>

record publisher_flags =
  pfQueue :: string
  pfCount :: int
  pfPayload :: string

text \<open>\<open>fmt.Sprintf("%s-%d", *payload, i)\<close> in a request.\<close>

definition nth_request :: "publisher_flags \<Rightarrow> nat \<Rightarrow> PublishRequest" where
  "nth_request fl i =
     \<lparr>prQueue = pfQueue fl, prPayload = Some (string_bytes (pfPayload fl @ ''-'' @ show_int (int i))), prHeaders = []\<rparr>"

text \<open>The loop from message \<open>i\<close> on with \<open>n\<close> messages to go: the error that stops it, the
  identifiers it prints, and what the calls did to the state behind the connection.\<close>

fun publish_loop :: "(nat \<Rightarrow> PublishRequest \<Rightarrow> 's \<Rightarrow> ('e + string) \<times> 's) \<Rightarrow> publisher_flags \<Rightarrow> nat \<Rightarrow> nat \<Rightarrow> 's
    \<Rightarrow> 'e option \<times> string list \<times> 's" where
  "publish_loop rpc fl i 0 s = (None, [], s)"
| "publish_loop rpc fl i (Suc n) s =
     (case rpc i (nth_request fl i) s of
        (Inl err, s') \<Rightarrow> (Some err, [], s')
      | (Inr mid, s') \<Rightarrow>
          (case publish_loop rpc fl (Suc i) n s' of (err, ids, s'') \<Rightarrow> (err, mid # ids, s'')))"

definition publisher_main :: "(nat \<Rightarrow> error + 'conn) \<Rightarrow> ('conn \<Rightarrow> nat \<Rightarrow> PublishRequest \<Rightarrow> 's \<Rightarrow> ('e + string) \<times> 's)
    \<Rightarrow> publisher_flags \<Rightarrow> 's \<Rightarrow> (error option + 'e option \<times> string list) \<times> 's" where
  "publisher_main newClient client fl s =
     (case dialWithRetry newClient of
        Inl err \<Rightarrow> (Inl err, s)
      | Inr conn \<Rightarrow>
          (case publish_loop (client conn) fl 1 (nat (pfCount fl)) s of (err, ids, s') \<Rightarrow> (Inr (err, ids), s')))"

subsection \<open>The consumer\<close>

record consumer_flags =
  cfQueue :: string
  cfPrefetch :: int
  cfOutcome :: string
  cfCount :: int

text \<open>What \<open>stream.Recv\<close> delivers: an event, with or without a message, or an error.\<close>

datatype recv_result = REvent "proto_Message option" | RError error

datatype stop = Blocked | StreamEnded | SendFailed | LimitReached

definition min_int :: "int \<Rightarrow> int \<Rightarrow> int" where
  "min_int a b = (if a < b then a else b)"

text \<open>\<open>msg.Id[:min(8, len(msg.Id))]\<close>.\<close>

definition short_id :: "string \<Rightarrow> string outcome" where
  "short_id mid = slice mid 0 (nat (min_int 8 (int (length mid))))"

definition subscribe_message :: "consumer_flags \<Rightarrow> ConsumerMessage" where
  "subscribe_message fl = CM_Subscribe (cfQueue fl) (word_of_int (cfPrefetch fl))"

definition reply :: "consumer_flags \<Rightarrow> proto_Message \<Rightarrow> ConsumerMessage" where
  "reply fl msg = CM_Ack (pmId msg) (if cfOutcome fl = ''nack'' then NACK else ACK)"

text \<open>The receive loop: the answers it sends, the messages it has counted, and why it stops.
  \<open>sendErr n\<close> is what \<open>stream.Send\<close> returns for the n-th answer.\<close>

fun consume_loop :: "consumer_flags \<Rightarrow> (int \<Rightarrow> error option) \<Rightarrow> recv_result list \<Rightarrow> int
    \<Rightarrow> (ConsumerMessage list \<times> int \<times> stop) outcome" where
  "consume_loop fl sendErr [] received = Ret ([], received, Blocked)"
| "consume_loop fl sendErr (RError err # evs) received = Ret ([], received, StreamEnded)"
| "consume_loop fl sendErr (REvent None # evs) received = consume_loop fl sendErr evs received"
| "consume_loop fl sendErr (REvent (Some msg) # evs) received =
     bind_outcome (short_id (pmId msg)) (\<lambda>_.
       let received' = received + 1 in
       if sendErr received' \<noteq> None then Ret ([], received', SendFailed)
       else if 0 < cfCount fl \<and> cfCount fl \<le> received' then Ret ([reply fl msg], received', LimitReached)
       else bind_outcome (consume_loop fl sendErr evs received') (\<lambda>(replies, n, why). Ret (reply fl msg # replies, n, why)))"

text \<open>\<open>log.Fatalf\<close> with its first words, or the subscription that was sent and the loop's result.
  \<open>openErr\<close> is what \<open>client.Subscribe\<close> returns, \<open>sendErr 0\<close> what the first \<open>stream.Send\<close> returns.\<close>

definition consumer_main :: "(nat \<Rightarrow> error + 'conn) \<Rightarrow> error option \<Rightarrow> (int \<Rightarrow> error option) \<Rightarrow> consumer_flags \<Rightarrow> recv_result list
    \<Rightarrow> string \<times> error option + ConsumerMessage \<times> (ConsumerMessage list \<times> int \<times> stop) outcome" where
  "consumer_main newClient openErr sendErr fl evs =
     (case dialWithRetry newClient of
        Inl err \<Rightarrow> Inl (''connect'', err)
      | Inr conn \<Rightarrow>
          if openErr \<noteq> None then Inl (''subscribe'', openErr)
          else if sendErr 0 \<noteq> None then Inl (''send subscribe request'', sendErr 0)
          else Inr (subscribe_message fl, consume_loop fl sendErr evs 0))"

subsection \<open>The publisher against the broker\<close>

text \<open>The i-th call reaches \<open>Server.Publish\<close> with the random bytes and the clock of that moment.\<close>

definition broker_rpc :: "(nat \<Rightarrow> bytes) \<Rightarrow> (nat \<Rightarrow> time) \<Rightarrow> nat \<Rightarrow> PublishRequest \<Rightarrow> Broker \<Rightarrow> (status + string) \<times> Broker" where
  "broker_rpc rnd clock i req b = Publish (Some (rnd i)) (clock i) req b"

definition nth_message :: "(nat \<Rightarrow> bytes) \<Rightarrow> (nat \<Rightarrow> time) \<Rightarrow> publisher_flags \<Rightarrow> nat \<Rightarrow> Message" where
  "nth_message rnd clock fl i = published (hex_EncodeToString (rnd i)) (clock i) (nth_request fl i)"

lemma nth_message_simps [simp]: "Queue (nth_message rnd clock fl i) = pfQueue fl" "ID (nth_message rnd clock fl i) = hex_EncodeToString (rnd i)"
  by (simp_all add: nth_message_def nth_request_def)

lemma publish_step:
  assumes q: "queue_open (pfQueue fl) rs (bManager b) (bWorld b)" and ok: "message_ok (nth_message rnd clock fl i)"
    and run: "broker_rpc rnd clock i (nth_request fl i) b = (r, b')"
  shows "\<And>e. r = Inl e \<Longrightarrow> queued (bManager b') (pfQueue fl) = queued (bManager b) (pfQueue fl)"
    and "\<And>mid. r = Inr mid \<Longrightarrow> mid = hex_EncodeToString (rnd i) \<and>
      queue_open (pfQueue fl) (rs @ [message_record (nth_message rnd clock fl i)]) (bManager b') (bWorld b') \<and>
      queued (bManager b') (pfQueue fl) = queued (bManager b) (pfQueue fl) @ [nth_message rnd clock fl i]"
proof -
  let ?m = "nth_message rnd clock fl i"
  from run [unfolded broker_rpc_def] obtain err where e: "Manager_Enqueue ?m (bManager b) (bWorld b) = (err, bManager b', bWorld b')"
    and r: "r = (case err of None \<Rightarrow> Inr (hex_EncodeToString (rnd i))
          | Some e \<Rightarrow> Inl \<lparr>stCode = Internal, stText = ''enqueue'', stCause = Some e\<rparr>)"
    unfolding nth_message_def by (rule Publish_run)
  obtain t where t: "mTopics (bManager b) (pfQueue fl) = Some t" using queue_openD(2) [OF q] by auto
  have q': "queue_open (Queue ?m) rs (bManager b) (bWorld b)" using q by simp
  show "queued (bManager b') (pfQueue fl) = queued (bManager b) (pfQueue fl)" if "r = Inl x" for x
    using Manager_Enqueue_queued(4) [OF e] t r that by (auto split: option.splits)
  show "mid = hex_EncodeToString (rnd i) \<and> queue_open (pfQueue fl) (rs @ [message_record ?m]) (bManager b') (bWorld b') \<and>
      queued (bManager b') (pfQueue fl) = queued (bManager b) (pfQueue fl) @ [?m]" if "r = Inr mid" for mid
  proof -
    have none: "err = None" "mid = hex_EncodeToString (rnd i)" using r that by (auto split: option.splits)
    then show ?thesis
      using Enqueue_success(1) [OF q' _ ok] Manager_Enqueue_queued(3) [OF e] e t by simp
  qed
qed

lemma upt_from: "[i..<Suc (i + k)] = i # [Suc i..<Suc (i + k)]"
  by (rule upt_conv_Cons) simp

lemma publish_loop_effect:
  assumes "queue_open (pfQueue fl) rs (bManager b) (bWorld b)" "\<forall>j \<in> {i..<i + n}. message_ok (nth_message rnd clock fl j)"
    and "publish_loop (broker_rpc rnd clock) fl i n b = (err, ids, b')"
  shows "length ids \<le> n \<and> (err = None \<longleftrightarrow> length ids = n) \<and> ids = map (hex_EncodeToString \<circ> rnd) [i..<i + length ids] \<and>
    queued (bManager b') (pfQueue fl) = queued (bManager b) (pfQueue fl) @ map (nth_message rnd clock fl) [i..<i + length ids] \<and>
    (err = None \<longrightarrow> queue_open (pfQueue fl) (rs @ map (message_record \<circ> nth_message rnd clock fl) [i..<i + n]) (bManager b') (bWorld b'))"
  using assms
proof (induction n arbitrary: i rs b ids)
  case (Suc n)
  obtain r b1 where r: "broker_rpc rnd clock i (nth_request fl i) b = (r, b1)" by (metis prod.exhaust)
  note st = publish_step [OF Suc.prems(1) _ r]
  show ?case
  proof (cases r)
    case (Inl e)
    then show ?thesis using Suc.prems(2,3) r st(1) by auto
  next
    case (Inr mid)
    obtain ids1 where l: "publish_loop (broker_rpc rnd clock) fl (Suc i) n b1 = (err, ids1, b')" "ids = mid # ids1"
      using Suc.prems(3) r Inr by (auto split: prod.splits)
    have s: "mid = hex_EncodeToString (rnd i)"
      "queue_open (pfQueue fl) (rs @ [message_record (nth_message rnd clock fl i)]) (bManager b1) (bWorld b1)"
      "queued (bManager b1) (pfQueue fl) = queued (bManager b) (pfQueue fl) @ [nth_message rnd clock fl i]"
      using st(2) [OF _ Inr] Suc.prems(2) by auto
    have "\<forall>j \<in> {Suc i..<Suc i + n}. message_ok (nth_message rnd clock fl j)" using Suc.prems(2) by auto
    from Suc.IH [OF s(2) this l(1)] s l(2) show ?thesis by (simp add: upt_from del: upt_Suc)
  qed
qed simp

subsection \<open>The consumer's answers\<close>

lemma short_id_total: "\<exists>s. short_id mid = Ret s"
  by (auto simp: short_id_def min_int_def slice_def)

text \<open>The messages a consumer sees before the stream ends.\<close>

fun delivered :: "recv_result list \<Rightarrow> proto_Message list" where
  "delivered [] = []"
| "delivered (RError err # evs) = []"
| "delivered (REvent None # evs) = delivered evs"
| "delivered (REvent (Some msg) # evs) = msg # delivered evs"

text \<open>Those it answers when it has counted \<open>received\<close> messages before.\<close>

definition answered :: "consumer_flags \<Rightarrow> int \<Rightarrow> recv_result list \<Rightarrow> proto_Message list" where
  "answered fl received evs =
     (if 0 < cfCount fl then take (nat (cfCount fl - received)) (delivered evs) else delivered evs)"

lemma answered_simps:
  "answered fl received [] = []" "answered fl received (RError err # evs) = []"
  "answered fl received (REvent None # evs) = answered fl received evs"
  by (simp_all add: answered_def)

lemma answered_cons:
  assumes "\<not> (0 < cfCount fl \<and> cfCount fl \<le> received + 1)"
  shows "answered fl received (REvent (Some msg) # evs) = msg # answered fl (received + 1) evs"
proof (cases "0 < cfCount fl")
  case True
  then have "nat (cfCount fl - received) = Suc (nat (cfCount fl - (received + 1)))" using assms by simp
  then show ?thesis by (simp add: answered_def)
qed (simp add: answered_def)

text \<open>The messages answered before the first send that fails, and how the loop ends.\<close>

lemma consume_loop_replies:
  assumes "0 < cfCount fl \<longrightarrow> received < cfCount fl"
  shows "\<exists>ms n why. consume_loop fl sendErr evs received = Ret (map (reply fl) ms, n, why) \<and>
    prefix ms (answered fl received evs) \<and> (\<forall>j. received < j \<and> j \<le> received + int (length ms) \<longrightarrow> sendErr j = None) \<and>
    (if ms = answered fl received evs then n = received + int (length ms) \<and> why \<noteq> SendFailed
     else n = received + int (length ms) + 1 \<and> sendErr n \<noteq> None \<and> why = SendFailed)"
  using assms
proof (induction fl sendErr evs received rule: consume_loop.induct)
  case (4 fl sendErr msg evs received)
  obtain x where x: "short_id (pmId msg) = Ret x" using short_id_total by blast
  show ?case
  proof (cases "sendErr (received + 1)")
    case (Some err)
    have "answered fl received (REvent (Some msg) # evs) \<noteq> []" using "4.prems" by (auto simp: answered_def)
    then show ?thesis using x Some by (intro exI [of _ "[]"]) (auto simp: Let_def)
  next
    case ok: None
    show ?thesis
    proof (cases "0 < cfCount fl \<and> cfCount fl \<le> received + 1")
      case True
      then have "cfCount fl - received = 1" using 4 by simp
      then have "answered fl received (REvent (Some msg) # evs) = [msg]" using True by (simp add: answered_def)
      moreover have "sendErr j = None" if "received < j" "j \<le> received + 1" for j
      proof -
        have "j = received + 1" using that by simp
        then show ?thesis using ok by simp
      qed
      ultimately show ?thesis using True x ok by (intro exI [of _ "[msg]"]) (simp add: Let_def)
    next
      case False
      obtain ms n why where l: "consume_loop fl sendErr evs (received + 1) = Ret (map (reply fl) ms, n, why)"
        "prefix ms (answered fl (received + 1) evs)" "\<forall>j. received + 1 < j \<and> j \<le> received + 1 + int (length ms) \<longrightarrow> sendErr j = None"
        "if ms = answered fl (received + 1) evs then n = received + 1 + int (length ms) \<and> why \<noteq> SendFailed
         else n = received + 1 + int (length ms) + 1 \<and> sendErr n \<noteq> None \<and> why = SendFailed"
        using "4.IH" [OF refl _ False] "4.prems" False ok by auto
      have "sendErr j = None" if "received < j" "j \<le> received + int (length (msg # ms))" for j
        using l(3) ok that by (cases "j = received + 1") auto
      then show ?thesis using l x ok False
        by (intro exI [of _ "msg # ms"] exI [of _ n] exI [of _ why]) (auto simp: Let_def answered_cons [OF False] split: if_splits)
    qed
  qed
next
  case (3 fl sendErr evs received)
  then show ?case unfolding answered_simps consume_loop.simps by blast
qed (auto simp: answered_simps)

text \<open>The broker's side: the receive goroutine of the consumer's stream. An acknowledgement cannot
  panic, since it only appends.\<close>

lemma append_no_panic: "append_record wr r w = (err, w') \<Longrightarrow> err \<noteq> Some ErrPanic"
  by (auto simp: append_record_def encode_frame f_Write_def f_Sync_def Let_def split: fhandle.splits io_fault.splits if_splits)

lemma Ack_no_panic: "Ack i b = (err, b') \<Longrightarrow> err \<noteq> Some ErrPanic"
  by (auto simp: Ack_def b_WriteTombstone_def Manager_WriteTombstone_def WriteTombstone_def
      dest: append_no_panic split: option.splits prod.splits)

text \<open>What the stream carries for the answered messages, with the clock of their handling.\<close>

abbreviation answers :: "(string \<Rightarrow> time) \<Rightarrow> consumer_flags \<Rightarrow> proto_Message list \<Rightarrow> (time \<times> (recv_error + ConsumerMessage)) list" where
  "answers clock fl ms \<equiv> map (\<lambda>m. (clock (pmId m), Inr (reply fl m))) ms"

lemma Subscribe_recv_reply:
  "Subscribe_recv now (reply fl m) b = (if cfOutcome fl = ''nack'' then Nack now (pmId m) b else Ack (pmId m) b)"
  by (simp add: Subscribe_recv_def reply_def)

lemma recv_loop_inFlight:
  assumes "Subscribe_recv_loop (answers clock fl ms) b = (None, b')"
  shows "bInFlight b' i = (if i \<in> pmId ` set ms then None else bInFlight b i)"
  using assms
proof (induction ms arbitrary: b)
  case (Cons m ms)
  let ?now = "clock (pmId m)"
  obtain err b1 where a: "Subscribe_recv ?now (reply fl m) b = (err, b1)" by (metis prod.exhaust)
  then have "bInFlight b1 = (bInFlight b)(pmId m := None)"
    using Ack_inFlight [of "pmId m" b] Nack_inFlight [of ?now "pmId m" b] unfolding Subscribe_recv_reply by (metis snd_conv)
  with Cons.IH [of b1] Cons.prems a show ?case by (auto split: if_splits)
qed simp

lemma recv_loop_acks:
  assumes "cfOutcome fl \<noteq> ''nack''" "Subscribe_recv_loop (answers clock fl ms) b = (res, b')"
  shows "res = None \<and> bManager b' = bManager b"
  using assms(2)
proof (induction ms arbitrary: b)
  case (Cons m ms)
  obtain err b1 where a: "Ack (pmId m) b = (err, b1)" by (metis prod.exhaust)
  have "bManager b1 = bManager b" using Ack_known(1) [OF _ a] Ack_unknown [of b "pmId m"] a by (cases "bInFlight b (pmId m)") auto
  with Cons.IH [of b1] Cons.prems a assms(1) Ack_no_panic [OF a] show ?case by (simp add: Subscribe_recv_reply)
qed simp

lemma healthy_Ack:
  assumes h: "healthy (bManager b) (bWorld b)" and run: "Ack i b = (err, b')"
    and ok: "\<And>e. bInFlight b i = Some e \<Longrightarrow> known (bManager b) (Queue (eMessage e)) \<and> tombstone_ok i"
  shows "healthy (bManager b') (bWorld b')" "set (disk_records (bWorld b) p) \<subseteq> set (disk_records (bWorld b') p)"
    "bInFlight b i = Some e \<Longrightarrow> tombstone_record i \<in> set (disk_records (bWorld b') (qpath (bManager b) (Queue (eMessage e))))"
proof -
  have "healthy (bManager b') (bWorld b') \<and> set (disk_records (bWorld b) p) \<subseteq> set (disk_records (bWorld b') p) \<and>
    (bInFlight b i = Some e \<longrightarrow> tombstone_record i \<in> set (disk_records (bWorld b') (qpath (bManager b) (Queue (eMessage e)))))"
  proof (cases "bInFlight b i")
    case None
    then show ?thesis using run h by (simp add: Ack_unknown)
  next
    case (Some x)
    note k = Ack_known [OF Some run]
    have "err = None" using healthy_Tombstone_ok [OF h _ k(5)] ok [OF Some] by blast
    then show ?thesis using healthy_Tombstone [OF h k(5)] ok [OF Some] k(1) Some by auto
  qed
  then show "healthy (bManager b') (bWorld b')" "set (disk_records (bWorld b) p) \<subseteq> set (disk_records (bWorld b') p)"
    "bInFlight b i = Some e \<Longrightarrow> tombstone_record i \<in> set (disk_records (bWorld b') (qpath (bManager b) (Queue (eMessage e))))"
    by blast+
qed

lemma recv_loop_settles:
  assumes "cfOutcome fl \<noteq> ''nack''" "Subscribe_recv_loop (answers clock fl ms) b = (res, b')"
    and "healthy (bManager b) (bWorld b)"
    and "\<forall>m \<in> set ms. \<forall>e. bInFlight b (pmId m) = Some e \<longrightarrow> known (bManager b) (Queue (eMessage e)) \<and> tombstone_ok (pmId m)"
  shows "(\<forall>p. set (disk_records (bWorld b) p) \<subseteq> set (disk_records (bWorld b') p)) \<and>
    (\<forall>m \<in> set ms. \<forall>e. bInFlight b (pmId m) = Some e \<longrightarrow>
       tombstone_record (pmId m) \<in> set (disk_records (bWorld b') (qpath (bManager b) (Queue (eMessage e)))))"
  using assms(2-4)
proof (induction ms arbitrary: b)
  case (Cons m ms)
  obtain err b1 where a: "Ack (pmId m) b = (err, b1)" by (metis prod.exhaust)
  have ok: "known (bManager b) (Queue (eMessage e)) \<and> tombstone_ok (pmId m)" if "bInFlight b (pmId m) = Some e" for e
    using Cons.prems(3) that by simp
  note h = healthy_Ack [OF Cons.prems(2) a ok]
  have fl: "bInFlight b1 j = (if j = pmId m then None else bInFlight b j)" for j using Ack_inFlight [of "pmId m" b] a by simp
  have m: "bManager b1 = bManager b" using Ack_known(1) [OF _ a] Ack_unknown [of b "pmId m"] a by (cases "bInFlight b (pmId m)") auto
  have "Subscribe_recv_loop (answers clock fl ms) b1 = (res, b')"
    using Cons.prems(1) a assms(1) Ack_no_panic [OF a] by (simp add: Subscribe_recv_reply)
  from Cons.IH [OF this h(1)] have IH: "set (disk_records (bWorld b1) p) \<subseteq> set (disk_records (bWorld b') p)"
    "x \<in> set ms \<Longrightarrow> bInFlight b1 (pmId x) = Some e \<Longrightarrow>
       tombstone_record (pmId x) \<in> set (disk_records (bWorld b') (qpath (bManager b) (Queue (eMessage e))))" for p x e
    using Cons.prems(3) fl m by auto
  have "tombstone_record (pmId x) \<in> set (disk_records (bWorld b') (qpath (bManager b) (Queue (eMessage e))))"
    if "x \<in> set (m # ms)" "bInFlight b (pmId x) = Some e" for x e
    using that IH h(3) fl [of "pmId x"] by (cases "pmId x = pmId m") auto
  moreover have "set (disk_records (bWorld b) p) \<subseteq> set (disk_records (bWorld b') p)" for p using h(2) IH(1) by blast
  ultimately show ?case by blast
qed simp

lemma recv_loop_restores:
  assumes "cfOutcome fl = ''nack''" "Subscribe_recv_loop (answers clock fl ms) b = (res, b')" "calm b"
    and "\<forall>m \<in> set ms. \<forall>e. bInFlight b (pmId m) = Some e \<longrightarrow> message_ok (nack_target (bMaxRetries b) (clock (pmId m)) (eMessage e))"
  shows "res = None \<and> adds b b' \<and> (\<forall>m \<in> set ms. \<forall>e. bInFlight b (pmId m) = Some e \<longrightarrow>
       back_in_queue (nack_target (bMaxRetries b) (clock (pmId m)) (eMessage e)) b')"
  using assms(2-4)
proof (induction ms arbitrary: b)
  case (Cons m ms)
  obtain err b1 where n: "Nack (clock (pmId m)) (pmId m) b = (err, b1)" by (metis prod.exhaust)
  have ok: "message_ok (nack_target (bMaxRetries b) (clock (pmId m)) (eMessage e))" if "bInFlight b (pmId m) = Some e" for e
    using Cons.prems(3) that by simp
  note k = calm_Nack [OF Cons.prems(2) n ok]
  have mr: "bMaxRetries b1 = bMaxRetries b" using k(3) by (simp add: adds_def)
  have "Subscribe_recv_loop (answers clock fl ms) b1 = (res, b')"
    using Cons.prems(1) n assms(1) k(1) by (simp add: Subscribe_recv_reply)
  from Cons.IH [OF this k(2)] have IH: "res = None" "adds b1 b'"
    "x \<in> set ms \<Longrightarrow> bInFlight b1 (pmId x) = Some e \<Longrightarrow> back_in_queue (nack_target (bMaxRetries b) (clock (pmId x)) (eMessage e)) b'" for x e
    using Cons.prems(3) k(4) mr by auto
  have "back_in_queue (nack_target (bMaxRetries b) (clock (pmId x)) (eMessage e)) b'"
    if "x \<in> set (m # ms)" "bInFlight b (pmId x) = Some e" for x e
    using that IH(3) back_in_queue_adds [OF k(5) IH(2)] k(4) by (cases "pmId x = pmId m") auto
  then show ?case using IH(1) adds_trans [OF k(3) IH(2)] by blast
qed simp

lemma recv_loop_effect:
  assumes run: "Subscribe_recv_loop (answers clock fl ms) b = (res, b')"
  shows "(res = None \<longrightarrow> (\<forall>i. bInFlight b' i = (if i \<in> pmId ` set ms then None else bInFlight b i))) \<and>
       (cfOutcome fl \<noteq> ''nack'' \<longrightarrow> res = None \<and> bManager b' = bManager b) \<and>
       (cfOutcome fl \<noteq> ''nack'' \<and> healthy (bManager b) (bWorld b) \<and>
          (\<forall>m \<in> set ms. \<forall>e. bInFlight b (pmId m) = Some e \<longrightarrow> known (bManager b) (Queue (eMessage e)) \<and> tombstone_ok (pmId m)) \<longrightarrow>
        (\<forall>m \<in> set ms. \<forall>e. bInFlight b (pmId m) = Some e \<longrightarrow>
           tombstone_record (pmId m) \<in> set (disk_records (bWorld b') (qpath (bManager b) (Queue (eMessage e)))))) \<and>
       (cfOutcome fl = ''nack'' \<and> calm b \<and> (\<forall>m \<in> set ms. \<forall>e. bInFlight b (pmId m) = Some e \<longrightarrow>
            message_ok (nack_target (bMaxRetries b) (clock (pmId m)) (eMessage e))) \<longrightarrow>
        res = None \<and> (\<forall>m \<in> set ms. \<forall>e. bInFlight b (pmId m) = Some e \<longrightarrow>
           back_in_queue (nack_target (bMaxRetries b) (clock (pmId m)) (eMessage e)) b'))"
proof (intro conjI impI)
  show "\<forall>i. bInFlight b' i = (if i \<in> pmId ` set ms then None else bInFlight b i)" if "res = None"
    using recv_loop_inFlight run that by blast
qed (use recv_loop_acks [OF _ run] recv_loop_settles [OF _ run] recv_loop_restores [OF _ run] in blast)+

subsection \<open>Properties\<close>

text \<open>C1. The publisher against a broker whose queue is open, under every script of I/O faults:
  either it cannot connect and nothing changes, or the messages it reports, \<open>prefix-1\<close>, \<open>prefix-2\<close>
  and so on, are exactly the ones that were appended to the queue, in that order, and it reports
  all of them exactly when it ends without an error.\<close>

theorem publisher_in_order:
  assumes "queue_open (pfQueue fl) rs (bManager b) (bWorld b)"
    and "\<forall>j \<in> {1..<1 + nat (pfCount fl)}. message_ok (nth_message rnd clock fl j)"
    and "publisher_main newClient (\<lambda>_. broker_rpc rnd clock) fl b = (res, b')"
  shows "case res of
      Inl err \<Rightarrow> b' = b \<and> dialWithRetry newClient = Inl err
    | Inr (err, ids) \<Rightarrow> ids = map (hex_EncodeToString \<circ> rnd) [1..<1 + length ids] \<and>
        queued (bManager b') (pfQueue fl) = queued (bManager b) (pfQueue fl) @ map (nth_message rnd clock fl) [1..<1 + length ids] \<and>
        length ids \<le> nat (pfCount fl) \<and> (err = None \<longleftrightarrow> length ids = nat (pfCount fl)) \<and>
        (err = None \<longrightarrow> queue_open (pfQueue fl)
           (rs @ map (message_record \<circ> nth_message rnd clock fl) [1..<1 + nat (pfCount fl)]) (bManager b') (bWorld b'))"
proof (cases "dialWithRetry newClient")
  case (Inl err)
  then have "res = Inl err" "b' = b" using assms(3) by (auto simp: publisher_main_def)
  with Inl show ?thesis by simp
next
  case (Inr conn)
  obtain err ids where "publish_loop (broker_rpc rnd clock) fl 1 (nat (pfCount fl)) b = (err, ids, b')" "res = Inr (err, ids)"
    using assms(3) Inr by (auto simp: publisher_main_def split: prod.splits)
  with publish_loop_effect [OF assms(1,2) this(1)] show ?thesis by simp
qed

definition sample_flags :: publisher_flags where
  "sample_flags = \<lparr>pfQueue = ''orders'', pfCount = 2, pfPayload = ''msg''\<rparr>"

lemma sample_publisher_ok:
  assumes "j < 10" shows "message_ok (nth_message (\<lambda>_. [1, 2, 3, 4, 5, 6, 7, 8]) int sample_flags j)"
proof -
  have "length (show_int (int j)) = 1" using assms show_nat.simps [of j] by (simp add: show_int_def)
  then show ?thesis using sample_ascii(2)
    by (intro message_okI) (simp_all add: nth_message_def nth_request_def sample_flags_def string_bytes_def message_size_def
        max_message_def del: hex_EncodeToString.simps)
qed

theorem publisher_in_order_witness:
  "\<exists>res b'. publisher_main (\<lambda>i. if i = 0 then Inl ErrIO else Inr ()) (\<lambda>_. broker_rpc (\<lambda>_. [1, 2, 3, 4, 5, 6, 7, 8]) int) sample_flags sample_broker =
      (res, b') \<and> (\<exists>err ids. res = Inr (err, ids) \<and> length ids \<le> 2 \<and> (err = None \<longleftrightarrow> length ids = 2) \<and>
      queued (bManager b') ''orders'' = queued sample_manager ''orders'' @
        map (nth_message (\<lambda>_. [1, 2, 3, 4, 5, 6, 7, 8]) int sample_flags) [1..<1 + length ids])"
proof -
  let ?nc = "\<lambda>i :: nat. if i = 0 then Inl ErrIO else Inr ()"
  obtain res b' where r: "publisher_main ?nc (\<lambda>_. broker_rpc (\<lambda>_. [1, 2, 3, 4, 5, 6, 7, 8]) int) sample_flags sample_broker = (res, b')"
    by (metis prod.exhaust)
  have q: "queue_open (pfQueue sample_flags) [] (bManager sample_broker) (bWorld sample_broker)"
    using sample_queue_open by (simp add: sample_flags_def)
  have ok: "\<forall>j \<in> {1..<1 + nat (pfCount sample_flags)}. message_ok (nth_message (\<lambda>_. [1, 2, 3, 4, 5, 6, 7, 8]) int sample_flags j)"
    by (rule ballI, rule sample_publisher_ok) (simp add: sample_flags_def)
  have "dialWithRetry ?nc = Inr ()" unfolding dialWithRetry_def by (rule dial_loop_first [of 1]) simp_all
  with publisher_in_order [OF q ok r] obtain err ids where "res = Inr (err, ids)" by (cases res) auto
  with publisher_in_order [OF q ok r] r show ?thesis by (simp add: sample_flags_def)
qed

text \<open>C36. The consumer, once connected and subscribed: it answers the messages it is given, each once, in
  order and with the chosen outcome, up to the first answer that cannot be sent, never stops on a
  slice expression, and with a positive count takes no more messages than that. When the broker's
  receive goroutine has read the answers and has not panicked, exactly the answered messages have
  left the in-flight map. Acknowledgements never panic and change no topic; on a disk without faults,
  with the queues open and identifiers that fit in a record, every answered message that was in
  flight has a tombstone in the log of its queue. Refusals, on such a disk and before the shutdown,
  do not panic either and put every answered message that was in flight back into the topic and the
  log of its queue, or of the dead-letter queue.\<close>

theorem consumer_answers:
  assumes "dialWithRetry newClient = Inr conn" "sendErr 0 = None"
  shows "\<exists>ms n why. consumer_main newClient None sendErr fl evs = Inr (subscribe_message fl, Ret (map (reply fl) ms, n, why)) \<and>
    prefix ms (answered fl 0 evs) \<and> (\<forall>j. 0 < j \<and> j \<le> int (length ms) \<longrightarrow> sendErr j = None) \<and>
    (if ms = answered fl 0 evs then n = int (length ms) \<and> why \<noteq> SendFailed
     else n = int (length ms) + 1 \<and> sendErr n \<noteq> None \<and> why = SendFailed) \<and>
    (0 < cfCount fl \<longrightarrow> n \<le> cfCount fl) \<and> (cfCount fl \<le> 0 \<longrightarrow> answered fl 0 evs = delivered evs) \<and>
    (\<forall>clock b res b'. Subscribe_recv_loop (map (\<lambda>m. (clock (pmId m), Inr (reply fl m))) ms) b = (res, b') \<longrightarrow>
       (res = None \<longrightarrow> (\<forall>i. bInFlight b' i = (if i \<in> pmId ` set ms then None else bInFlight b i))) \<and>
       (cfOutcome fl \<noteq> ''nack'' \<longrightarrow> res = None \<and> bManager b' = bManager b) \<and>
       (cfOutcome fl \<noteq> ''nack'' \<and> healthy (bManager b) (bWorld b) \<and>
          (\<forall>m \<in> set ms. \<forall>e. bInFlight b (pmId m) = Some e \<longrightarrow> known (bManager b) (Queue (eMessage e)) \<and> tombstone_ok (pmId m)) \<longrightarrow>
        (\<forall>m \<in> set ms. \<forall>e. bInFlight b (pmId m) = Some e \<longrightarrow>
           tombstone_record (pmId m) \<in> set (disk_records (bWorld b') (qpath (bManager b) (Queue (eMessage e)))))) \<and>
       (cfOutcome fl = ''nack'' \<and> calm b \<and> (\<forall>m \<in> set ms. \<forall>e. bInFlight b (pmId m) = Some e \<longrightarrow>
            message_ok (nack_target (bMaxRetries b) (clock (pmId m)) (eMessage e))) \<longrightarrow>
        res = None \<and> (\<forall>m \<in> set ms. \<forall>e. bInFlight b (pmId m) = Some e \<longrightarrow>
           back_in_queue (nack_target (bMaxRetries b) (clock (pmId m)) (eMessage e)) b')))"
proof -
  obtain ms n why where l: "consume_loop fl sendErr evs 0 = Ret (map (reply fl) ms, n, why)"
    "prefix ms (answered fl 0 evs)" "\<forall>j. 0 < j \<and> j \<le> int (length ms) \<longrightarrow> sendErr j = None"
    "if ms = answered fl 0 evs then n = int (length ms) \<and> why \<noteq> SendFailed
     else n = int (length ms) + 1 \<and> sendErr n \<noteq> None \<and> why = SendFailed"
    using consume_loop_replies [of fl 0 sendErr evs] unfolding add_0 by blast
  have "consumer_main newClient None sendErr fl evs = Inr (subscribe_message fl, Ret (map (reply fl) ms, n, why))"
    using assms l(1) by (simp add: consumer_main_def)
  moreover have "n \<le> cfCount fl" if "0 < cfCount fl"
  proof -
    have "int (length (answered fl 0 evs)) \<le> cfCount fl" using that by (simp add: answered_def)
    moreover have "length ms < length (answered fl 0 evs)" if "ms \<noteq> answered fl 0 evs"
      using l(2) that by (metis prefix_length_less strict_prefixI)
    ultimately show ?thesis using l(4) by (auto split: if_splits)
  qed
  moreover have "cfCount fl \<le> 0 \<longrightarrow> answered fl 0 evs = delivered evs" by (simp add: answered_def)
  ultimately show ?thesis
    using l(2-4) by (intro exI [of _ ms] exI [of _ n] exI [of _ why] conjI allI impI recv_loop_effect) blast+
qed

text \<open>Two messages arrive and the second answer cannot be sent.\<close>

theorem consumer_answers_witness:
  "\<exists>b'. consumer_main (\<lambda>i. if i = 0 then Inl ErrIO else Inr ()) None (\<lambda>j. if j = 2 then Some ErrIO else None)
     \<lparr>cfQueue = ''orders'', cfPrefetch = 5, cfOutcome = ''nack'', cfCount = 0\<rparr>
     [REvent None, REvent (Some (coreToProtoEvent sample_message)), REvent (Some (coreToProtoEvent sample_message))] =
       Inr (CM_Subscribe ''orders'' 5, Ret ([CM_Ack ''00c0ffee'' NACK], 2, SendFailed)) \<and>
     Subscribe_recv_loop [(9, Inr (CM_Ack ''00c0ffee'' NACK))] sample_broker = (None, b') \<and> bInFlight b' ''00c0ffee'' = None \<and>
     WithRetry sample_message \<in> set (queued (bManager b') ''orders'')"
proof -
  let ?fl = "\<lparr>cfQueue = ''orders'', cfPrefetch = 5, cfOutcome = ''nack'', cfCount = 0\<rparr>" and ?m = "coreToProtoEvent sample_message"
  let ?send = "\<lambda>j :: int. if j = 2 then Some ErrIO else None"
  have dial: "dialWithRetry (\<lambda>i. if i = 0 then Inl ErrIO else Inr ()) = Inr ()"
    unfolding dialWithRetry_def by (rule dial_loop_first [of 1]) simp_all
  have all: "answered ?fl 0 [REvent None, REvent (Some ?m), REvent (Some ?m)] = [?m, ?m]" by (simp add: answered_def)
  have m: "pmId ?m = ''00c0ffee''" "reply ?fl ?m = CM_Ack ''00c0ffee'' NACK" by (simp_all add: coreToProtoEvent_def reply_def)
  have send: "?send 0 = None" by simp
  from consumer_answers [where sendErr = ?send, OF dial send, of ?fl "[REvent None, REvent (Some ?m), REvent (Some ?m)]", unfolded all]
  obtain ms n why where c: "consumer_main (\<lambda>i. if i = 0 then Inl ErrIO else Inr ()) None ?send ?fl
      [REvent None, REvent (Some ?m), REvent (Some ?m)] = Inr (subscribe_message ?fl, Ret (map (reply ?fl) ms, n, why))"
    "prefix ms [?m, ?m]" "\<forall>j. 0 < j \<and> j \<le> int (length ms) \<longrightarrow> ?send j = None"
    "if ms = [?m, ?m] then n = int (length ms) \<and> why \<noteq> SendFailed else n = int (length ms) + 1 \<and> ?send n \<noteq> None \<and> why = SendFailed"
    and b: "\<And>clock b res b'. Subscribe_recv_loop (map (\<lambda>m. (clock (pmId m), Inr (reply ?fl m))) ms) b = (res, b') \<Longrightarrow>
       (res = None \<longrightarrow> (\<forall>i. bInFlight b' i = (if i \<in> pmId ` set ms then None else bInFlight b i))) \<and>
       (calm b \<and> (\<forall>m \<in> set ms. \<forall>e. bInFlight b (pmId m) = Some e \<longrightarrow>
            message_ok (nack_target (bMaxRetries b) (clock (pmId m)) (eMessage e))) \<longrightarrow>
        res = None \<and> (\<forall>m \<in> set ms. \<forall>e. bInFlight b (pmId m) = Some e \<longrightarrow>
           back_in_queue (nack_target (bMaxRetries b) (clock (pmId m)) (eMessage e)) b'))" by auto
  have ms: "ms = [?m]" "n = 2" "why = SendFailed"
    using c(2-4) by (auto simp: prefix_Cons split: if_splits)
  obtain res b' where r: "Subscribe_recv_loop (map (\<lambda>m. (9, Inr (reply ?fl m))) [?m]) sample_broker = (res, b')" by (metis prod.exhaust)
  have t: "nack_target 3 9 sample_message = WithRetry sample_message" by (simp add: nack_target_def)
  have "calm sample_broker" using sample_healthy by (simp add: calm_def sample_manager_def empty_Manager_def)
  then have "res = None" "bInFlight b' ''00c0ffee'' = None" "back_in_queue (WithRetry sample_message) b'"
    using b [of "\<lambda>_. 9" sample_broker res b'] r sample_retry_ok t m(1) unfolding ms by auto
  then show ?thesis using c(1) r m ms by (auto simp: back_in_queue_def subscribe_message_def)
qed

end
