(* ===== verification/Spec2Isabelle.thy ===== *)
theory Spec2Isabelle
  imports WalProps QueueProps DeliveryProps ServerProps BrokerInv Durability OutcomeProps BrokerMain Clients
begin

text \<open>
  A verification of \<^emph>\<open>messager\<close>, a push-based message broker in Go with a write-ahead log per queue.

  \<^bold>\<open>The program.\<close> Publishers call \<open>Publish\<close>; the queue manager appends the message to the queue's
  log and then to its in-memory topic. Per queue a dispatcher takes messages off the topic, picks
  the least loaded consumer below its prefetch limit, counts and registers the message as in
  flight, and pushes it to the consumer's channel, from which the \<open>Subscribe\<close> stream sends it. An
  \<open>Ack\<close> writes a tombstone; a \<open>Nack\<close>, a timeout or a disconnect puts the message back with its
  retry count raised, or on the dead-letter queue when its retries are used up. Two scanners
  handle timeouts and the expiry of dead letters. A restart replays the logs.

  \<^bold>\<open>The theories\<close>, in the order of the code (paths under \<open>src/\<close>).
  \<^item> \<open>Prelude\<close>: Go's integers, instants, errors and panics; map iteration orders; runs of a
    labelled step relation and the locale of their invariants (\<open>trace_invariant\<close>).
  \<^item> \<open>Core\<close>: \<open>internal/core\<close>, messages and dead-letter names.
  \<^item> \<open>Utf8\<close>, \<open>Base64\<close>, \<open>JsonText\<close>, \<open>Json\<close>, \<open>Crc32\<close>, \<open>Strconv\<close>: what the code uses of the Go
    library, with the round trips that the record codec and the configuration rest on.
  \<^item> \<open>WalRecord\<close>: \<open>wal/record.go\<close>, \<open>encode\<close> and \<open>decode\<close> with the 32-bit slice arithmetic.
    \<open>LogScan\<close> is the interface of a self-delimiting codec (locale \<open>record_codec\<close>); \<open>WalRecord\<close>
    interprets it. \<open>RecordSize\<close> bounds the encoded length of a message.
  \<^item> \<open>FileSys\<close>, \<open>Wal\<close>: files as a store of byte lists with a script of I/O faults, one entry per
    system call (success, failure, short write); \<open>wal/reader.go\<close>, \<open>writer.go\<close>, \<open>compactor.go\<close>.
  \<^item> \<open>Topic\<close>, \<open>Manager\<close>: \<open>queue/topic.go\<close> and \<open>queue/queue.go\<close>. A \<open>Dequeue\<close> that waits on the
    condition variable returns \<open>None\<close>. The locale \<open>fifo\<close> is the contract of the topic.
  \<^item> \<open>ConnMgr\<close>: \<open>connmgr/client.go\<close> and \<open>connmgr.go\<close>; consumers live at addresses of a store, so
    that the registry and a dispatcher share them. The locale \<open>inflight_counters\<close> is the contract
    of the counters.
  \<^item> \<open>AckMgr\<close>, \<open>Scanners\<close>, \<open>Dispatcher\<close>, \<open>Api\<close>: \<open>ackmgr\<close>, \<open>retry\<close>, \<open>dlqttl\<close>, \<open>dispatcher\<close> and
    \<open>api/server.go\<close>. The record \<open>Broker\<close> is the state they share. The dispatcher goroutine is a
    program counter with one step per call that others can interleave with.
  \<^item> \<open>BrokerSys\<close>: all of it running. A step of \<open>sys_step\<close> is one critical section, one atomic read or
    one call that locks by itself, of a handler, dispatcher, acknowledgement, scanner or the
    shutdown; its labels say which messages were accepted, requeued and settled. \<open>Manager.Enqueue\<close> is
    four steps (the check of \<open>closing\<close>, the section under the manager's lock, the log write, the push),
    the expiry of a dead-letter queue one for the removal and one per tombstone, an acknowledgement
    or refusal one for the entry, one for the counter and one or more for the queue manager. A few
    steps merge several sections; the theory lists them.
  \<^item> \<open>BrokerMain\<close>: \<open>cmd/broker\<close>, configuration, start, and the shutdown of the process.
  \<^item> \<open>Clients\<close>: \<open>cmd/publisher\<close> and \<open>cmd/consumer\<close>, also composed with the broker.

  \<^bold>\<open>What is shown.\<close>
  \<^item> \<open>Durability\<close> (on \<open>HealthyDisk\<close>, the operations on a disk without faults, and \<open>DurableSteps\<close>, the
    effect of each step on logs and copies): for every interleaving, on a disk without faults, from
    a restart on intact logs to a stop at any step: unsettled messages are back in their queues
    after the next start, settled ones are not; and while the broker serves, a message that is the
    only one with its identifier is somewhere in memory or has been settled on its way through its
    queue and the dead-letter queues above it, provided that no two queue names share a file.
    \<open>BrokerInv\<close>: the in-flight counters stay between the messages registered and the prefetch limit.
  \<^item> \<open>WalProps\<close>: the codec inverts, rejects damage and does not panic below 4 GiB; a torn append
    loses only itself; compaction keeps what a replay returns, under every script of faults.
  \<^item> \<open>QueueProps\<close>: the topic refines a list; \<open>Enqueue\<close> writes ahead under every script of faults;
    a restart restores the queues; expiry touches dead-letter queues only.
  \<^item> \<open>DeliveryProps\<close>, \<open>ServerProps\<close>: registry, acknowledgement and refusal, timeout scans, choice and
    completion of a delivery, cancellation, and the gRPC handlers.
  \<^item> \<open>OutcomeProps\<close>: refusals in a row up to the dead-letter queue, the expiry of dead letters in
    flight with its counters and tombstones, the drain at a disconnect, and that the sequential
    methods are runs of the interleaved broker.
  \<^item> \<open>BrokerMain\<close>: every setting comes from its variable; the order of the shutdown. \<open>Clients\<close>: what
    the publisher reports is what was appended; what the consumer answers is settled or requeued.
  \<^item> Five theorems state defects: records behind a torn tail are not replayed, a dead-lettered
    message stays live in its source log, the logs can be closed before the drain, a delivery
    cancelled before the channel write leaves its message nowhere in memory, and \<open>MAX_RETRIES\<close> wraps.

  \<^bold>\<open>Parameters and bounds.\<close> What the environment decides is an argument: clock readings, random
  bytes, the order of a map iteration (constrained by \<open>range_order\<close>), which ready case a
  \<open>select\<close> takes, the results of gRPC calls, I/O faults. Loops are structural or have a termination
  proof (\<open>replay_loop\<close>, \<open>drain\<close>, \<open>duration_loop\<close>); loops that wait run over a list of what they
  observe, and \<open>None\<close> means still waiting. A message is \<open>message_ok\<close> when its strings are well
  formed UTF-8 (protobuf guarantees it) and its record fits the 32-bit length; 64 MiB is enough
  for the latter, gRPC accepts 4 MiB. \<open>sys_step\<close> takes the identifiers of consumers, eight random bytes
  in the code, to be fresh; that of messages is not restricted, and theorems that need a message to
  be the only one with its identifier say so.

  \<^bold>\<open>Not modelled.\<close> Logging and terminal output; pauses; the mutexes, whose critical sections are the
  steps, and with them the interleaving inside the dispatcher's choice (it reads the counters of
  all candidates as one snapshot), inside \<open>Unregister\<close> and inside the opening of \<open>Subscribe\<close>;
  directories (a path can always be created, so a queue name with a separator does not fail for a
  missing directory); the generated protobuf code and the gRPC transport; memory exhaustion; \<open>fsync\<close> beyond its
  error (a completed \<open>Sync\<close> is taken to be durable); the floating point rounding of fractional
  durations, a parameter of \<open>ParseDuration\<close>.
\<close>

end
